(* ===== verification/Prelude.thy ===== *)
theory Prelude
  imports Main "HOL-Library.Word"
begin

text \<open>
  What every theory of the development shares: the faults a run of the C++ code can end
  in, the result type \<open>fault + 'a\<close> with its sequencing combinators, the integer types
  of the code, and generic lemmas on lists and words.

  A C++ function that may fail an \<open>assert\<close>, dereference a null pointer, throw
  \<open>std::length_error\<close> or leave the bounds of a vector is a function into
  \<open>fault + 'a\<close>: \<open>Inl\<close> is the run that stops there, \<open>Inr\<close> carries the
  value of a run that goes on.  The \<open>assert\<close>s are those of a build without
  \<open>NDEBUG\<close>.
\<close>

section \<open>Faults and results\<close>

datatype fault =
    Assert_Failed string   \<comment> \<open>\<open>assert(...)\<close> at the named place\<close>
  | Length_Error           \<comment> \<open>\<open>std::length_error\<close> of \<open>std::vector\<close>\<close>
  | Out_Of_Bounds          \<comment> \<open>an access outside the object pointed into\<close>
  | Null_Deref             \<comment> \<open>a null pointer is dereferenced\<close>
  | Bad_Alloc              \<comment> \<open>\<open>std::bad_alloc\<close> of \<open>new\<close>\<close>
  | Bad_Function_Call      \<comment> \<open>\<open>std::bad_function_call\<close>: an empty \<open>std::function\<close> is called\<close>
  | Use_After_Free         \<comment> \<open>an object that was destroyed is used\<close>
  | Terminated             \<comment> \<open>\<open>std::terminate\<close>\<close>

type_synonym 'a res = "fault + 'a"

text \<open>Sequencing, and an assertion followed by the rest of the function.\<close>

fun bindr :: "'e + 'a \<Rightarrow> ('a \<Rightarrow> 'e + 'b) \<Rightarrow> 'e + 'b" where
  "bindr (Inl e) k = Inl e"
| "bindr (Inr x) k = k x"

definition ensure :: "string \<Rightarrow> bool \<Rightarrow> 'a res \<Rightarrow> 'a res" where
  "ensure site b k = (if b then k else Inl (Assert_Failed site))"

named_theorems res_simps \<open>a sequenced computation that succeeds: what each part gave\<close>

lemma bindr_eq_Inr [res_simps]: "bindr m k = Inr y \<longleftrightarrow> (\<exists>x. m = Inr x \<and> k x = Inr y)"
  by (cases m) auto

lemma ensure_True [simp]: "ensure site True k = k"
  by (simp add: ensure_def)

lemma ensure_False [simp]: "ensure site False k = Inl (Assert_Failed site)"
  by (simp add: ensure_def)

lemma ensure_eq_Inr [res_simps]: "ensure site b k = Inr y \<longleftrightarrow> b \<and> k = Inr y"
  by (simp add: ensure_def)

lemma bindr_assoc [simp]: "bindr (bindr m k) l = bindr m (\<lambda>x. bindr (k x) l)"
  by (cases m) auto

lemma bindr_Inr_right [simp]: "bindr m Inr = m"
  by (cases m) auto

lemma bindr_cong [fundef_cong]:
  assumes "m = m'" and "\<And>x. m' = Inr x \<Longrightarrow> k x = k' x"
  shows "bindr m k = bindr m' k'"
  using assms by (cases m') auto

text \<open>A property of every successful result, used to state preservation.\<close>

definition holds :: "('a \<Rightarrow> bool) \<Rightarrow> 'e + 'a \<Rightarrow> bool" where
  "holds P r = (case r of Inl _ \<Rightarrow> False | Inr x \<Rightarrow> P x)"

lemma holds_Inr [simp]: "holds P (Inr x) = P x"
  by (simp add: holds_def)

lemma holds_Inl [simp]: "holds P (Inl e) = False"
  by (simp add: holds_def)

lemma holdsE: "holds P r \<Longrightarrow> (\<And>x. r = Inr x \<Longrightarrow> P x \<Longrightarrow> R) \<Longrightarrow> R"
  by (cases r) auto

lemma holds_bindr: "holds P m \<Longrightarrow> (\<And>x. P x \<Longrightarrow> holds Q (k x)) \<Longrightarrow> holds Q (bindr m k)"
  by (cases m) auto

lemma holds_mono: "holds P m \<Longrightarrow> (\<And>x. P x \<Longrightarrow> Q x) \<Longrightarrow> holds Q m"
  by (cases m) auto

text \<open>Running a step over a list, stopping at the first fault.\<close>

fun foldr_res :: "('b \<Rightarrow> 'a \<Rightarrow> 'e + 'a) \<Rightarrow> 'b list \<Rightarrow> 'a \<Rightarrow> 'e + 'a" where
  "foldr_res f [] s = Inr s"
| "foldr_res f (x # xs) s = bindr (f x s) (foldr_res f xs)"

lemma foldr_res_Nil [simp]: "foldr_res f [] = Inr"
  by (rule ext) simp

lemma foldr_res_append [simp]:
  "foldr_res f (xs @ ys) s = bindr (foldr_res f xs s) (foldr_res f ys)"
proof (induction xs arbitrary: s)
  case Nil
  then show ?case by simp
next
  case (Cons x xs)
  then have "foldr_res f (xs @ ys) = (\<lambda>s. bindr (foldr_res f xs s) (foldr_res f ys))" by blast
  then show ?case by simp
qed

lemma foldr_res_holds:
  assumes "P s" and "\<And>x s. x \<in> set xs \<Longrightarrow> P s \<Longrightarrow> holds P (f x s)"
  shows "holds P (foldr_res f xs s)"
  using assms
  by (induction xs arbitrary: s) (auto intro!: holds_bindr)

section \<open>Exact refinement\<close>

text \<open>
  A component whose operations fault exactly when its specification has no next state, and
  otherwise follow it: \<open>view\<close> is what a state shows of the specification.  The same then holds
  of every run of operations.
\<close>

fun spec_run :: "('op \<Rightarrow> 'a \<Rightarrow> 'a option) \<Rightarrow> 'op list \<Rightarrow> 'a \<Rightarrow> 'a option" where
  "spec_run spec [] a = Some a"
| "spec_run spec (x # xs) a = (case spec x a of None \<Rightarrow> None | Some b \<Rightarrow> spec_run spec xs b)"

definition refines :: "('s \<Rightarrow> bool) \<Rightarrow> ('s \<Rightarrow> 'a) \<Rightarrow> 's res \<Rightarrow> 'a option \<Rightarrow> bool" where
  "refines ok view r a = (case r of Inl _ \<Rightarrow> a = None | Inr s \<Rightarrow> ok s \<and> a = Some (view s))"

lemma refines_Inl [simp]: "refines ok view (Inl e) a \<longleftrightarrow> a = None"
  by (simp add: refines_def)

lemma refines_Inr [simp]: "refines ok view (Inr s) a \<longleftrightarrow> ok s \<and> a = Some (view s)"
  by (simp add: refines_def)

lemma refinesD: "refines ok view r (Some a) \<Longrightarrow> \<exists>s. r = Inr s \<and> ok s \<and> view s = a"
  by (cases r) auto

locale exact_refinement =
  fixes ok :: "'s \<Rightarrow> bool"
    and view :: "'s \<Rightarrow> 'a"
    and step :: "'op \<Rightarrow> 's \<Rightarrow> 's res"
    and spec :: "'op \<Rightarrow> 'a \<Rightarrow> 'a option"
  assumes step_refines: "ok s \<Longrightarrow> refines ok view (step op s) (spec op (view s))"
begin

lemma run_refines: "ok s \<Longrightarrow> refines ok view (foldr_res step ops s) (spec_run spec ops (view s))"
proof (induction ops arbitrary: s)
  case Nil
  then show ?case by simp
next
  case (Cons op ops)
  from step_refines [OF Cons.prems, of op] show ?case
    by (cases "step op s") (auto simp: Cons.IH)
qed

lemma run_allowed:
  "ok s \<Longrightarrow> spec_run spec ops (view s) = Some a \<Longrightarrow>
    \<exists>s'. foldr_res step ops s = Inr s' \<and> ok s' \<and> view s' = a"
  using run_refines [of s ops] by (metis refinesD)

end

section \<open>Services that keep an invariant\<close>

text \<open>
  A result that keeps the invariant \<open>P\<close>, unless the run ended in a fault of \<open>E\<close>, which
  the environment is to blame for.  \<open>safe\<close> is the case where that is memory being used up.
\<close>

definition barring :: "(fault \<Rightarrow> bool) \<Rightarrow> ('s \<Rightarrow> bool) \<Rightarrow> 's res \<Rightarrow> bool" where
  "barring E P r = (case r of Inl e \<Rightarrow> E e | Inr s \<Rightarrow> P s)"

abbreviation safe :: "('s \<Rightarrow> bool) \<Rightarrow> 's res \<Rightarrow> bool" where
  "safe \<equiv> barring (\<lambda>e. e = Bad_Alloc)"

lemma barring_Inl [simp]: "barring E P (Inl e) \<longleftrightarrow> E e"
  by (simp add: barring_def)

lemma barring_Inr [simp]: "barring E P (Inr s) = P s"
  by (simp add: barring_def)

lemma barring_bindr: "barring E P m \<Longrightarrow> (\<And>x. P x \<Longrightarrow> barring E Q (k x)) \<Longrightarrow> barring E Q (bindr m k)"
  by (cases m) auto

lemma barring_mono: "barring E P m \<Longrightarrow> (\<And>x. P x \<Longrightarrow> Q x) \<Longrightarrow> barring E Q m"
  by (cases m) auto

lemma barring_foldr_res:
  assumes "P s" and "\<And>x s. x \<in> set xs \<Longrightarrow> P s \<Longrightarrow> barring E P (f x s)"
  shows "barring E P (foldr_res f xs s)"
  using assms by (induction xs arbitrary: s) (auto intro!: barring_bindr)

lemma barring_errors: "barring E P m \<Longrightarrow> (\<And>e. E e \<Longrightarrow> F e) \<Longrightarrow> barring F P m"
  by (cases m) simp_all

lemma barring_conj: "barring E P m \<Longrightarrow> barring F Q m \<Longrightarrow> barring E (\<lambda>s. P s \<and> Q s) m"
  by (cases m) simp_all

text \<open>One element of a list replaced, seen by a sum over the list.\<close>

lemma sum_update:
  "i < length xs \<Longrightarrow> sum_list (map f (xs[i := y])) + f (xs ! i) = sum_list (map f xs) + (f y :: 'b::comm_monoid_add)"
proof (induction xs arbitrary: i)
  case (Cons x xs)
  show ?case
  proof (cases i)
    case (Suc j)
    then have "f x + (sum_list (map f (xs[j := y])) + f (xs ! j)) = f x + (sum_list (map f xs) + f y)"
      using Cons by simp
    then show ?thesis using Suc by (simp add: ac_simps)
  qed (simp add: ac_simps)
qed simp

text \<open>\<open>allowed\<close> is what the users of the service promise of each request.\<close>

locale service =
  fixes E :: "fault \<Rightarrow> bool"
    and ok :: "'s \<Rightarrow> bool"
    and allowed :: "'op \<Rightarrow> bool"
    and step :: "'op \<Rightarrow> 's \<Rightarrow> 's res"
  assumes step_safe: "ok s \<Longrightarrow> allowed op \<Longrightarrow> barring E ok (step op s)"
begin

lemma run_safe: "ok s \<Longrightarrow> \<forall>op \<in> set ops. allowed op \<Longrightarrow> barring E ok (foldr_res step ops s)"
  by (rule barring_foldr_res) (auto intro: step_safe)

end

text \<open>
  Services that ask more of their callers than the model can promise.  \<open>promised\<close> is what the
  environment (the kernel, the owner) keeps at the state an operation starts from, and \<open>blame\<close> says
  exactly which operations fail there, and how; every other operation keeps the invariant.  A run
  then goes well or stops at the first operation that is to blame.
\<close>

fun all_along :: "('op \<Rightarrow> 's \<Rightarrow> bool) \<Rightarrow> ('op \<Rightarrow> 's \<Rightarrow> 's res) \<Rightarrow> 'op list \<Rightarrow> 's \<Rightarrow> bool" where
  "all_along promised step [] s \<longleftrightarrow> True"
| "all_along promised step (op # ops) s \<longleftrightarrow> promised op s \<and>
     (case step op s of Inl _ \<Rightarrow> True | Inr s' \<Rightarrow> all_along promised step ops s')"

definition fails_at :: "('op \<Rightarrow> 's \<Rightarrow> fault \<Rightarrow> bool) \<Rightarrow> ('op \<Rightarrow> 's \<Rightarrow> 's res) \<Rightarrow> 'op list \<Rightarrow> 's \<Rightarrow> fault \<Rightarrow> bool" where
  "fails_at blame step ops s e \<longleftrightarrow>
     (\<exists>before op after u. ops = before @ op # after \<and> foldr_res step before s = Inr u \<and> blame op u e)"

lemma fails_at_here: "blame op s e \<Longrightarrow> fails_at blame step (op # ops) s e"
  unfolding fails_at_def by (rule exI [of _ "[]"]) simp

lemma fails_at_later:
  assumes "step op s = Inr s'" "fails_at blame step ops s' e"
  shows "fails_at blame step (op # ops) s e"
proof -
  obtain before op' after u where "ops = before @ op' # after" "foldr_res step before s' = Inr u" "blame op' u e"
    using assms(2) by (auto simp: fails_at_def)
  then show ?thesis unfolding fails_at_def using assms(1) by (intro exI [of _ "op # before"]) simp
qed

lemma fails_at_blame: "fails_at blame step ops s e \<Longrightarrow> \<exists>op u. op \<in> set ops \<and> blame op u e"
  by (auto simp: fails_at_def)

locale accountable =
  fixes E :: "fault \<Rightarrow> bool"
    and ok :: "'s \<Rightarrow> bool"
    and promised :: "'op \<Rightarrow> 's \<Rightarrow> bool"
    and step :: "'op \<Rightarrow> 's \<Rightarrow> 's res"
    and blame :: "'op \<Rightarrow> 's \<Rightarrow> fault \<Rightarrow> bool"
  assumes step_kept: "ok s \<Longrightarrow> promised op s \<Longrightarrow> barring (\<lambda>e. E e \<or> blame op s e) ok (step op s)"
    and blamed: "ok s \<Longrightarrow> promised op s \<Longrightarrow> blame op s e \<Longrightarrow> step op s = Inl e"
begin

lemma run_accounted:
  "ok s \<Longrightarrow> all_along promised step ops s \<Longrightarrow>
    barring (\<lambda>e. E e \<or> fails_at blame step ops s e) ok (foldr_res step ops s)"
proof (induction ops arbitrary: s)
  case (Cons op ops)
  note one = step_kept [OF Cons.prems(1), of op]
  show ?case
  proof (cases "step op s")
    case (Inl e)
    then show ?thesis using one Cons.prems(2) fails_at_here [of blame op s e] by auto
  next
    case (Inr s')
    then show ?thesis
      using Cons.IH [of s'] one Cons.prems(2) fails_at_later [of step op s s' blame ops]
      by (auto elim: barring_errors)
  qed
qed simp

end

section \<open>The integer types\<close>

type_synonym byte = "8 word"
type_synonym size_t = "64 word"
type_synonym mask = "32 word"

text \<open>A conversion to \<open>int\<close> (32 bits, two's complement) keeps the low 32 bits.\<close>

definition to_int32 :: "int \<Rightarrow> int" where
  "to_int32 i = signed_take_bit 31 i"

lemma to_int32_id [simp]: "- 2147483648 \<le> i \<Longrightarrow> i < 2147483648 \<Longrightarrow> to_int32 i = i"
  by (simp add: to_int32_def signed_take_bit_int_eq_self)

lemma to_int32_wrap:
  assumes "2147483648 \<le> i" "i < 4294967296"
  shows "to_int32 i = i - 4294967296"
proof -
  have "(i + 2147483648) mod 4294967296 = (i - 2147483648) mod 4294967296"
    using mod_add_self2 [of "i - 2147483648" 4294967296] by (simp add: add.commute)
  also have "\<dots> = i - 2147483648"
    using assms by (intro mod_pos_pos_trivial) simp_all
  finally show ?thesis
    by (simp add: to_int32_def signed_take_bit_eq_take_bit_shift take_bit_eq_mod)
qed

section \<open>Memory as lists\<close>

text \<open>Overwriting a list from position \<open>i\<close> on, as \<open>std::copy\<close> does with a vector.\<close>

definition write_at :: "nat \<Rightarrow> 'a list \<Rightarrow> 'a list \<Rightarrow> 'a list" where
  "write_at i xs mem = take i mem @ xs @ drop (i + length xs) mem"

lemma length_write_at [simp]: "i + length xs \<le> length mem \<Longrightarrow> length (write_at i xs mem) = length mem"
  by (simp add: write_at_def)

lemma take_write_at [simp]: "j \<le> i \<Longrightarrow> i \<le> length mem \<Longrightarrow> take j (write_at i xs mem) = take j mem"
  by (simp add: write_at_def min_def)

text \<open>The part of a list between two positions.\<close>

definition between :: "nat \<Rightarrow> nat \<Rightarrow> 'a list \<Rightarrow> 'a list" where
  "between i j xs = take (j - i) (drop i xs)"

lemma length_between [simp]: "i \<le> j \<Longrightarrow> j \<le> length xs \<Longrightarrow> length (between i j xs) = j - i"
  by (simp add: between_def)

lemma between_empty [simp]: "between i i xs = []"
  by (simp add: between_def)

lemma between_append_right: "j \<le> length xs \<Longrightarrow> between i j (xs @ ys) = between i j xs"
  by (cases "i \<le> j") (auto simp: between_def)

lemma take_between: "k \<le> j - i \<Longrightarrow> take k (between i j xs) = between i (i + k) xs"
  by (simp add: between_def min_def)

lemma drop_between: "drop k (between i j xs) = between (i + k) j xs"
  by (simp add: between_def drop_take add.commute)

lemma between_write_at_end:
  assumes "i \<le> j" "j + length ys \<le> length xs"
  shows "between i (j + length ys) (write_at j ys xs) = between i j xs @ ys"
proof -
  have "take (j + length ys - i) (drop i (take j xs @ ys)) = drop i (take j xs) @ ys"
    using assms by simp
  then show ?thesis
    using assms by (simp add: between_def write_at_def drop_take)
qed

lemma between_write_at_front:
  assumes "i + length ys \<le> j" "j \<le> length xs"
  shows "between i j (write_at i ys xs) = ys @ between (i + length ys) j xs"
proof -
  have "j - i - length ys = j - (i + length ys)" by simp
  then show ?thesis
    using assms by (simp add: between_def write_at_def)
qed

section \<open>Words\<close>

lemma unat_diff_le: "b \<le> a \<Longrightarrow> unat (a - b) = unat a - unat (b :: 'a::len word)"
  by (simp add: unat_sub)

lemma unat_add_less: "unat a + unat b < 2 ^ LENGTH('a) \<Longrightarrow> unat (a + b) = unat a + unat (b :: 'a::len word)"
  by (simp add: unat_word_ariths)

lemma unat_of_nat64: "n < 18446744073709551616 \<Longrightarrow> unat (of_nat n :: size_t) = n"
  by (simp add: unat_of_nat)

end
