(* ===== verification/Endian.thy ===== *)
theory Endian
  imports Prelude
begin

unbundle bit_operations_syntax

text \<open>
  \<open>net/Endian.h\<close>: the conversions between host and network byte order.  The host's
  byte order is a parameter (\<open>htobe64\<close> and its kin are the identity on a big-endian
  host and reverse the bytes on a little-endian one); the memory image of an integer, which
  \<open>Buffer\<close> copies with \<open>std::copy\<close> and \<open>memcpy\<close>, depends on it too.  The
  lemmas show that the bytes in memory after a conversion do not.
\<close>

section \<open>Memory images of integers\<close>

datatype endianness = Little | Big

definition le_bytes :: "nat \<Rightarrow> 'a::len word \<Rightarrow> byte list" where
  "le_bytes n w = map (\<lambda>i. ucast (drop_bit (8 * i) w)) [0..<n]"

fun of_le_bytes :: "byte list \<Rightarrow> 'a::len word" where
  "of_le_bytes [] = 0"
| "of_le_bytes (b # bs) = ucast b OR push_bit 8 (of_le_bytes bs)"

definition host_bytes :: "endianness \<Rightarrow> nat \<Rightarrow> 'a::len word \<Rightarrow> byte list" where
  "host_bytes e n w = (case e of Little \<Rightarrow> le_bytes n w | Big \<Rightarrow> rev (le_bytes n w))"

definition of_host_bytes :: "endianness \<Rightarrow> byte list \<Rightarrow> 'a::len word" where
  "of_host_bytes e bs = (case e of Little \<Rightarrow> of_le_bytes bs | Big \<Rightarrow> of_le_bytes (rev bs))"

text \<open>Network byte order: the most significant byte first.\<close>

definition be_bytes :: "nat \<Rightarrow> 'a::len word \<Rightarrow> byte list" where
  "be_bytes n w = rev (le_bytes n w)"

section \<open>\<open>htobe\<close> and \<open>betoh\<close>\<close>

definition htobe :: "endianness \<Rightarrow> nat \<Rightarrow> 'a::len word \<Rightarrow> 'a word" where
  "htobe e n w = (case e of Little \<Rightarrow> of_le_bytes (rev (le_bytes n w)) | Big \<Rightarrow> w)"

definition hostToNetwork64 :: "endianness \<Rightarrow> 64 word \<Rightarrow> 64 word" where
  "hostToNetwork64 e host64 = htobe e 8 host64"

definition hostToNetwork32 :: "endianness \<Rightarrow> 32 word \<Rightarrow> 32 word" where
  "hostToNetwork32 e host32 = htobe e 4 host32"

definition hostToNetwork16 :: "endianness \<Rightarrow> 16 word \<Rightarrow> 16 word" where
  "hostToNetwork16 e host16 = htobe e 2 host16"

text \<open>\<open>be64toh\<close> is the same byte permutation as \<open>htobe64\<close>.\<close>

definition networkToHost64 :: "endianness \<Rightarrow> 64 word \<Rightarrow> 64 word" where
  "networkToHost64 e net64 = htobe e 8 net64"

definition networkToHost32 :: "endianness \<Rightarrow> 32 word \<Rightarrow> 32 word" where
  "networkToHost32 e net32 = htobe e 4 net32"

definition networkToHost16 :: "endianness \<Rightarrow> 16 word \<Rightarrow> 16 word" where
  "networkToHost16 e net16 = htobe e 2 net16"

section \<open>Round trips\<close>

lemma length_le_bytes [simp]: "length (le_bytes n w) = n"
  by (simp add: le_bytes_def)

lemma length_host_bytes [simp]: "length (host_bytes e n w) = n"
  by (simp add: host_bytes_def split: endianness.split)

lemma length_be_bytes [simp]: "length (be_bytes n w) = n"
  by (simp add: be_bytes_def)

lemma bit_of_le_bytes:
  "bit (of_le_bytes bs :: 'a::len word) k \<longleftrightarrow>
     k < LENGTH('a) \<and> k div 8 < length bs \<and> bit (bs ! (k div 8)) (k mod 8)"
proof (induction bs arbitrary: k)
  case Nil
  then show ?case by simp
next
  case (Cons b bs)
  show ?case
  proof (cases "k < 8")
    case True
    then show ?thesis
      by (auto simp: bit_simps)
  next
    case False
    then obtain j where k: "k = j + 8" by (metis add.commute le_Suc_ex not_less)
    have "\<not> bit b k"
      using False bit_imp_le_length [of b k] by auto
    moreover have "k div 8 = Suc (j div 8)" "k mod 8 = j mod 8"
      using k by simp_all
    ultimately show ?thesis
      using Cons.IH [of j] k by (auto simp: bit_simps)
  qed
qed

lemma of_le_bytes_le_bytes [simp]:
  assumes "LENGTH('a) = 8 * n"
  shows "of_le_bytes (le_bytes n w) = (w :: 'a::len word)"
proof (rule bit_word_eqI)
  fix k assume k: "k < LENGTH('a)"
  then have "k div 8 < n" using assms by simp
  with k show "bit (of_le_bytes (le_bytes n w) :: 'a word) k = bit w k"
    by (simp add: bit_of_le_bytes le_bytes_def bit_simps)
qed

lemma le_bytes_of_le_bytes [simp]:
  assumes "LENGTH('a) = 8 * n" and "length bs = n"
  shows "le_bytes n (of_le_bytes bs :: 'a::len word) = bs"
proof (rule nth_equalityI)
  show "length (le_bytes n (of_le_bytes bs :: 'a word)) = length bs" by (simp add: assms)
next
  fix i assume "i < length (le_bytes n (of_le_bytes bs :: 'a word))"
  then have i: "i < n" by simp
  show "le_bytes n (of_le_bytes bs :: 'a word) ! i = bs ! i"
  proof (rule bit_word_eqI)
    fix k assume k: "k < LENGTH(8)"
    then have "(8 * i + k) div 8 = i" "(8 * i + k) mod 8 = k" by simp_all
    then show "bit (le_bytes n (of_le_bytes bs :: 'a word) ! i) k = bit (bs ! i) k"
      using i k assms by (simp add: le_bytes_def bit_simps bit_of_le_bytes)
  qed
qed

lemma of_host_bytes_host_bytes [simp]:
  "LENGTH('a) = 8 * n \<Longrightarrow> of_host_bytes e (host_bytes e n w) = (w :: 'a::len word)"
  by (simp add: of_host_bytes_def host_bytes_def split: endianness.split)

text \<open>The bytes in memory after \<open>htobe\<close> are the network order on either host.\<close>

lemma host_bytes_htobe:
  "LENGTH('a) = 8 * n \<Longrightarrow> host_bytes e n (htobe e n w) = be_bytes n (w :: 'a::len word)"
  by (simp add: host_bytes_def htobe_def be_bytes_def split: endianness.split)

lemma htobe_htobe:
  "LENGTH('a) = 8 * n \<Longrightarrow> htobe e n (htobe e n w) = (w :: 'a::len word)"
  by (simp add: htobe_def split: endianness.split)

lemma htobe_of_host_bytes_be:
  "LENGTH('a) = 8 * n \<Longrightarrow> htobe e n (of_host_bytes e (be_bytes n w)) = (w :: 'a::len word)"
  by (simp add: of_host_bytes_def htobe_def be_bytes_def split: endianness.split)

lemmas hostToNetwork_defs =
  hostToNetwork64_def hostToNetwork32_def hostToNetwork16_def
  networkToHost64_def networkToHost32_def networkToHost16_def

end
