(* ===== verification/StringPiece.thy ===== *)
theory StringPiece
  imports Prelude "HOL-Library.List_Lexorder" "HOL-Library.Sublist"
begin

text \<open>
  \<open>base/StringPiece.h\<close>: a pointer and an \<open>int\<close> length, with comparison through
  \<open>memcmp\<close>.  A \<open>const char*\<close> is null or an offset into an object of known bytes;
  reading outside the object is the fault \<open>Out_Of_Bounds\<close>.  \<open>memcmp\<close> compares
  unsigned bytes and promises only the sign of its result, so the model returns the sign.
  The lemmas relate every operation to the bytes a piece denotes (\<open>view\<close>): the order of
  the operators is the lexicographic order of the views.
\<close>

section \<open>Pointers and \<open>memcmp\<close>\<close>

datatype cptr = Null | Ptr "byte list" int

fun ptr_add :: "cptr \<Rightarrow> int \<Rightarrow> cptr" where
  "ptr_add Null n = Null"
| "ptr_add (Ptr mem off) n = Ptr mem (off + n)"

text \<open>The \<open>n\<close> bytes from a pointer on.  Reading no byte needs no object.\<close>

fun bytes_at :: "cptr \<Rightarrow> int \<Rightarrow> byte list res" where
  "bytes_at Null n = (if n = 0 then Inr [] else Inl Null_Deref)"
| "bytes_at (Ptr mem off) n =
     (if n = 0 then Inr []
      else if 0 \<le> off \<and> 0 \<le> n \<and> off + n \<le> int (length mem)
        then Inr (take (nat n) (drop (nat off) mem)) else Inl Out_Of_Bounds)"

fun cmp_bytes :: "byte list \<Rightarrow> byte list \<Rightarrow> int" where
  "cmp_bytes (x # xs) (y # ys) = (if x < y then -1 else if y < x then 1 else cmp_bytes xs ys)"
| "cmp_bytes _ _ = 0"

definition memcmp :: "cptr \<Rightarrow> cptr \<Rightarrow> int \<Rightarrow> int res" where
  "memcmp p q n = bindr (bytes_at p n) (\<lambda>xs. bindr (bytes_at q n) (\<lambda>ys. Inr (cmp_bytes xs ys)))"

text \<open>\<open>strlen\<close>: the bytes before the first zero byte.\<close>

fun strlen :: "cptr \<Rightarrow> int res" where
  "strlen Null = Inl Null_Deref"
| "strlen (Ptr mem off) =
     (let s = takeWhile (\<lambda>b. b \<noteq> 0) (drop (nat off) mem)
      in if 0 \<le> off \<and> nat off + length s < length mem then Inr (int (length s)) else Inl Out_Of_Bounds)"

section \<open>The class\<close>

record stringpiece =
  sp_ptr :: cptr
  sp_len :: int   \<comment> \<open>\<open>int length_\<close>\<close>

definition sp_default :: stringpiece where
  "sp_default = \<lparr>sp_ptr = Null, sp_len = 0\<rparr>"

definition sp_of_cstr :: "cptr \<Rightarrow> stringpiece res" where
  "sp_of_cstr str = bindr (strlen str) (\<lambda>n. Inr \<lparr>sp_ptr = str, sp_len = to_int32 n\<rparr>)"

text \<open>From a \<open>std::string\<close>: \<open>data()\<close> and \<open>static_cast<int>(size())\<close>.\<close>

definition sp_of_string :: "byte list \<Rightarrow> stringpiece" where
  "sp_of_string s = \<lparr>sp_ptr = Ptr s 0, sp_len = to_int32 (int (length s))\<rparr>"

definition sp_make :: "cptr \<Rightarrow> int \<Rightarrow> stringpiece" where
  "sp_make offset l = \<lparr>sp_ptr = offset, sp_len = l\<rparr>"

definition sp_empty :: "stringpiece \<Rightarrow> bool" where
  "sp_empty p = (sp_len p = 0)"

definition sp_begin :: "stringpiece \<Rightarrow> cptr" where
  "sp_begin p = sp_ptr p"

definition sp_end :: "stringpiece \<Rightarrow> cptr" where
  "sp_end p = ptr_add (sp_ptr p) (sp_len p)"

definition sp_clear :: "stringpiece \<Rightarrow> stringpiece" where
  "sp_clear p = p\<lparr>sp_ptr := Null, sp_len := 0\<rparr>"

definition sp_set :: "cptr \<Rightarrow> int \<Rightarrow> stringpiece \<Rightarrow> stringpiece" where
  "sp_set buffer l p = p\<lparr>sp_ptr := buffer, sp_len := l\<rparr>"

definition sp_set_cstr :: "cptr \<Rightarrow> stringpiece \<Rightarrow> stringpiece res" where
  "sp_set_cstr str p = bindr (strlen str) (\<lambda>n. Inr (p\<lparr>sp_ptr := str, sp_len := to_int32 n\<rparr>))"

definition sp_at :: "stringpiece \<Rightarrow> int \<Rightarrow> byte res" where
  "sp_at p i = bindr (bytes_at (ptr_add (sp_ptr p) i) 1) (\<lambda>bs. Inr (hd bs))"

definition remove_prefix :: "int \<Rightarrow> stringpiece \<Rightarrow> stringpiece" where
  "remove_prefix n p = p\<lparr>sp_ptr := ptr_add (sp_ptr p) n, sp_len := to_int32 (sp_len p - n)\<rparr>"

definition remove_suffix :: "int \<Rightarrow> stringpiece \<Rightarrow> stringpiece" where
  "remove_suffix n p = p\<lparr>sp_len := to_int32 (sp_len p - n)\<rparr>"

definition sp_eq :: "stringpiece \<Rightarrow> stringpiece \<Rightarrow> bool res" where
  "sp_eq p x = (if sp_len p = sp_len x
     then bindr (memcmp (sp_ptr p) (sp_ptr x) (sp_len p)) (\<lambda>r. Inr (r = 0)) else Inr False)"

definition sp_ne :: "stringpiece \<Rightarrow> stringpiece \<Rightarrow> bool res" where
  "sp_ne p x = bindr (sp_eq p x) (\<lambda>b. Inr (\<not> b))"

definition sp_lt :: "stringpiece \<Rightarrow> stringpiece \<Rightarrow> bool res" where
  "sp_lt p x = bindr (memcmp (sp_ptr p) (sp_ptr x) (if sp_len p < sp_len x then sp_len p else sp_len x))
     (\<lambda>r. Inr (r < 0 \<or> (r = 0 \<and> sp_len p < sp_len x)))"

definition sp_le :: "stringpiece \<Rightarrow> stringpiece \<Rightarrow> bool res" where
  "sp_le p x = bindr (memcmp (sp_ptr p) (sp_ptr x) (if sp_len p < sp_len x then sp_len p else sp_len x))
     (\<lambda>r. Inr (r < 0 \<or> (r = 0 \<and> sp_len p \<le> sp_len x)))"

definition sp_gt :: "stringpiece \<Rightarrow> stringpiece \<Rightarrow> bool res" where
  "sp_gt p x = bindr (sp_le p x) (\<lambda>b. Inr (\<not> b))"

definition sp_ge :: "stringpiece \<Rightarrow> stringpiece \<Rightarrow> bool res" where
  "sp_ge p x = bindr (sp_lt p x) (\<lambda>b. Inr (\<not> b))"

definition sp_compare :: "stringpiece \<Rightarrow> stringpiece \<Rightarrow> int res" where
  "sp_compare p x = bindr (memcmp (sp_ptr p) (sp_ptr x) (if sp_len p < sp_len x then sp_len p else sp_len x))
     (\<lambda>r. Inr (if r = 0 then (if sp_len p < sp_len x then -1 else if sp_len p > sp_len x then 1 else r) else r))"

text \<open>\<open>std::string(ptr_, length_)\<close>: a negative length converts to a huge \<open>size_t\<close>.\<close>

definition as_string :: "stringpiece \<Rightarrow> byte list res" where
  "as_string p = (if sp_len p < 0 then Inl Length_Error else bytes_at (sp_ptr p) (sp_len p))"

definition CopyToString :: "stringpiece \<Rightarrow> byte list \<Rightarrow> byte list res" where
  "CopyToString p target = as_string p"

definition starts_with :: "stringpiece \<Rightarrow> stringpiece \<Rightarrow> bool res" where
  "starts_with p x = (if sp_len p \<ge> sp_len x
     then bindr (memcmp (sp_ptr p) (sp_ptr x) (sp_len x)) (\<lambda>r. Inr (r = 0)) else Inr False)"

section \<open>The bytes a piece denotes\<close>

text \<open>A piece is well formed when its length is an \<open>int\<close> and its bytes are readable.\<close>

definition sp_view :: "stringpiece \<Rightarrow> byte list" where
  "sp_view p = (case as_string p of Inr bs \<Rightarrow> bs | Inl _ \<Rightarrow> [])"

definition sp_wf :: "stringpiece \<Rightarrow> bool" where
  "sp_wf p \<longleftrightarrow> 0 \<le> sp_len p \<and> sp_len p < 2147483648 \<and> holds (\<lambda>_. True) (as_string p)"

lemma bytes_at_length: "bytes_at p n = Inr bs \<Longrightarrow> 0 \<le> n \<Longrightarrow> length bs = nat n"
  by (cases p) (auto split: if_splits simp: min_def)

lemma bytes_at_prefix:
  assumes "bytes_at p n = Inr bs" "0 \<le> k" "k \<le> n"
  shows "bytes_at p k = Inr (take (nat k) bs)"
proof (cases p)
  case Null
  with assms show ?thesis by (auto split: if_splits)
next
  case (Ptr mem off)
  with assms show ?thesis
    by (cases "n = 0") (auto split: if_splits simp: min_def)
qed

lemma sp_wf_bytes: "sp_wf p \<Longrightarrow> bytes_at (sp_ptr p) (sp_len p) = Inr (sp_view p)"
  by (auto simp: sp_wf_def sp_view_def as_string_def elim!: holdsE)

lemma sp_wf_as_string: "sp_wf p \<Longrightarrow> as_string p = Inr (sp_view p)"
  by (simp add: sp_wf_bytes as_string_def) (simp add: sp_wf_def)

lemma length_sp_view: "sp_wf p \<Longrightarrow> int (length (sp_view p)) = sp_len p"
  using bytes_at_length [OF sp_wf_bytes] by (simp add: sp_wf_def)

lemma sp_wf_take:
  "sp_wf p \<Longrightarrow> 0 \<le> k \<Longrightarrow> k \<le> sp_len p \<Longrightarrow> bytes_at (sp_ptr p) k = Inr (take (nat k) (sp_view p))"
  by (rule bytes_at_prefix [OF sp_wf_bytes])

lemma sp_of_string_wf:
  "length s < 2147483648 \<Longrightarrow> sp_wf (sp_of_string s) \<and> sp_view (sp_of_string s) = s"
  by (auto simp: sp_wf_def sp_view_def as_string_def sp_of_string_def)

lemma cmp_bytes_range: "cmp_bytes xs ys \<in> {-1, 0, 1}"
  by (induction xs ys rule: cmp_bytes.induct) auto

lemma cmp_bytes_zero: "length xs = length ys \<Longrightarrow> cmp_bytes xs ys = 0 \<longleftrightarrow> xs = ys"
  by (induction xs ys rule: list_induct2) auto

text \<open>Comparing the common prefix and then the lengths is the lexicographic order.\<close>

lemma cmp_bytes_less:
  fixes xs ys :: "byte list"
  defines "m \<equiv> min (length xs) (length ys)"
  shows "xs < ys \<longleftrightarrow>
    cmp_bytes (take m xs) (take m ys) < 0 \<or>
    (cmp_bytes (take m xs) (take m ys) = 0 \<and> length xs < length ys)"
  unfolding m_def
proof (induction xs arbitrary: ys)
  case Nil
  then show ?case by (cases ys) auto
next
  case (Cons x xs)
  show ?case
  proof (cases ys)
    case (Cons y ys')
    then show ?thesis using Cons.IH [of ys'] by auto
  qed simp
qed

lemma cmp_bytes_eq:
  fixes xs ys :: "byte list"
  defines "m \<equiv> min (length xs) (length ys)"
  shows "cmp_bytes (take m xs) (take m ys) = 0 \<and> length xs = length ys \<longleftrightarrow> xs = ys"
  unfolding m_def by (auto simp: cmp_bytes_zero)

text \<open>What \<open>memcmp\<close> over the common length says about the two views.\<close>

lemma memcmp_common:
  assumes "sp_wf p" "sp_wf x"
  obtains r where
    "memcmp (sp_ptr p) (sp_ptr x) (if sp_len p < sp_len x then sp_len p else sp_len x) = Inr r"
    "r \<in> {-1, 0, 1}"
    "sp_view p < sp_view x \<longleftrightarrow> r < 0 \<or> (r = 0 \<and> sp_len p < sp_len x)"
    "sp_view p = sp_view x \<longleftrightarrow> r = 0 \<and> sp_len p = sp_len x"
proof -
  define k where "k = (if sp_len p < sp_len x then sp_len p else sp_len x)"
  define m where "m = min (length (sp_view p)) (length (sp_view x))"
  have lens: "sp_len p = int (length (sp_view p))" "sp_len x = int (length (sp_view x))"
    using assms by (simp_all add: length_sp_view)
  have k: "0 \<le> k" "k \<le> sp_len p" "k \<le> sp_len x" and m: "nat k = m"
    by (auto simp: k_def m_def lens)
  show ?thesis
  proof (rule that)
    show "memcmp (sp_ptr p) (sp_ptr x) (if sp_len p < sp_len x then sp_len p else sp_len x)
        = Inr (cmp_bytes (take m (sp_view p)) (take m (sp_view x)))"
      unfolding k_def [symmetric] memcmp_def using k m
      by (simp add: sp_wf_take [OF assms(1)] sp_wf_take [OF assms(2)])
    show "sp_view p < sp_view x \<longleftrightarrow>
        cmp_bytes (take m (sp_view p)) (take m (sp_view x)) < 0 \<or>
        (cmp_bytes (take m (sp_view p)) (take m (sp_view x)) = 0 \<and> sp_len p < sp_len x)"
      using cmp_bytes_less [of "sp_view p" "sp_view x"] by (simp add: m_def lens)
    show "sp_view p = sp_view x \<longleftrightarrow>
        cmp_bytes (take m (sp_view p)) (take m (sp_view x)) = 0 \<and> sp_len p = sp_len x"
      using cmp_bytes_eq [of "sp_view p" "sp_view x"] by (simp add: m_def lens)
  qed (rule cmp_bytes_range)
qed

lemma sp_lt_view: "sp_wf p \<Longrightarrow> sp_wf x \<Longrightarrow> sp_lt p x = Inr (sp_view p < sp_view x)"
  by (erule (1) memcmp_common) (simp add: sp_lt_def)

lemma sp_le_view: "sp_wf p \<Longrightarrow> sp_wf x \<Longrightarrow> sp_le p x = Inr (sp_view p \<le> sp_view x)"
  by (erule (1) memcmp_common) (auto simp: sp_le_def order_le_less)

lemma sp_compare_view:
  "sp_wf p \<Longrightarrow> sp_wf x \<Longrightarrow>
   sp_compare p x = Inr (if sp_view p < sp_view x then -1 else if sp_view p = sp_view x then 0 else 1)"
  by (erule (1) memcmp_common) (auto simp: sp_compare_def)

lemma sp_eq_view:
  assumes "sp_wf p" "sp_wf x"
  shows "sp_eq p x = Inr (sp_view p = sp_view x)"
proof (cases "sp_len p = sp_len x")
  case True
  with assms have "memcmp (sp_ptr p) (sp_ptr x) (sp_len p) = Inr (cmp_bytes (sp_view p) (sp_view x))"
    and "length (sp_view p) = length (sp_view x)"
    using sp_wf_bytes [of p] sp_wf_bytes [of x] length_sp_view [of p] length_sp_view [of x]
    by (auto simp: memcmp_def)
  with True show ?thesis by (simp add: sp_eq_def cmp_bytes_zero)
next
  case False
  with assms have "sp_view p \<noteq> sp_view x" using length_sp_view [of p] length_sp_view [of x] by auto
  with False show ?thesis by (simp add: sp_eq_def)
qed

lemma starts_with_view:
  assumes "sp_wf p" "sp_wf x"
  shows "starts_with p x = Inr (prefix (sp_view x) (sp_view p))"
proof (cases "sp_len x \<le> sp_len p")
  case True
  with assms have sp_len: "length (sp_view x) \<le> length (sp_view p)" and k: "nat (sp_len x) = length (sp_view x)"
    using length_sp_view [of p] length_sp_view [of x] by auto
  have "bytes_at (sp_ptr p) (sp_len x) = Inr (take (length (sp_view x)) (sp_view p))"
    using sp_wf_take [OF assms(1), of "sp_len x"] True k assms(2) by (simp add: sp_wf_def)
  then have "memcmp (sp_ptr p) (sp_ptr x) (sp_len x)
      = Inr (cmp_bytes (take (length (sp_view x)) (sp_view p)) (sp_view x))"
    using sp_wf_bytes [OF assms(2)] by (simp add: memcmp_def)
  moreover have "take (length (sp_view x)) (sp_view p) = sp_view x \<longleftrightarrow> prefix (sp_view x) (sp_view p)"
    by (metis prefix_def append_eq_conv_conj append_take_drop_id)
  ultimately show ?thesis
    using True sp_len by (simp add: starts_with_def cmp_bytes_zero)
next
  case False
  then have "\<not> prefix (sp_view x) (sp_view p)"
    using assms length_sp_view [of p] length_sp_view [of x] by (auto dest: prefix_length_le)
  with False show ?thesis by (simp add: starts_with_def)
qed

lemma remove_suffix_view:
  assumes "sp_wf p" "0 \<le> n" "n \<le> sp_len p"
  shows "sp_wf (remove_suffix n p) \<and>
    sp_view (remove_suffix n p) = take (length (sp_view p) - nat n) (sp_view p)"
proof -
  have l: "to_int32 (sp_len p - n) = sp_len p - n" "0 \<le> sp_len p - n" "sp_len p - n \<le> sp_len p"
    using assms by (auto simp: sp_wf_def)
  have "bytes_at (sp_ptr p) (sp_len p - n) = Inr (take (nat (sp_len p - n)) (sp_view p))"
    using sp_wf_take [OF assms(1)] l by simp
  moreover have "nat (sp_len p - n) = length (sp_view p) - nat n"
    using length_sp_view [OF assms(1)] assms(2) by auto
  ultimately show ?thesis
    using assms l by (simp add: remove_suffix_def sp_wf_def sp_view_def as_string_def)
qed

lemma remove_prefix_view:
  assumes "sp_wf p" "0 \<le> n" "n \<le> sp_len p"
  shows "sp_wf (remove_prefix n p) \<and> sp_view (remove_prefix n p) = drop (nat n) (sp_view p)"
proof -
  have l: "to_int32 (sp_len p - n) = sp_len p - n" "0 \<le> sp_len p - n"
    using assms by (auto simp: sp_wf_def)
  have "bytes_at (ptr_add (sp_ptr p) n) (sp_len p - n) = Inr (drop (nat n) (sp_view p))"
  proof (cases "sp_ptr p")
    case Null
    then show ?thesis
      using sp_wf_bytes [OF assms(1)] assms(2,3) by (auto split: if_splits)
  next
    case (Ptr mem off)
    show ?thesis
    proof (cases "sp_len p = n")
      case True
      then show ?thesis using Ptr length_sp_view [OF assms(1)] by auto
    next
      case False
      then have "0 \<le> off" "off + sp_len p \<le> int (length mem)"
        and v: "sp_view p = take (nat (sp_len p)) (drop (nat off) mem)"
        using sp_wf_bytes [OF assms(1)] Ptr assms(2,3) by (auto split: if_splits)
      then show ?thesis
        using Ptr False assms(2,3)
        by (simp add: v drop_take nat_add_distrib nat_diff_distrib add.commute)
    qed
  qed
  then show ?thesis
    using assms l by (simp add: remove_prefix_def sp_wf_def sp_view_def as_string_def)
qed

section \<open>Properties of the string piece\<close>

text \<open>C24: on well-formed pieces the six operators and \<open>compare\<close> never read outside the
  object and decide the lexicographic order of the bytes as unsigned values: one total order,
  the same for all of them.\<close>

theorem stringpiece_order:
  assumes "sp_wf p" "sp_wf x"
  shows "sp_lt p x = Inr (sp_view p < sp_view x) \<and> sp_le p x = Inr (sp_view p \<le> sp_view x) \<and>
    sp_gt p x = Inr (sp_view x < sp_view p) \<and> sp_ge p x = Inr (sp_view x \<le> sp_view p) \<and>
    sp_eq p x = Inr (sp_view p = sp_view x) \<and> sp_ne p x = Inr (sp_view p \<noteq> sp_view x) \<and>
    sp_compare p x = Inr (if sp_view p < sp_view x then -1 else if sp_view p = sp_view x then 0 else 1)"
  using assms
  by (simp add: sp_lt_view sp_le_view sp_eq_view sp_compare_view sp_gt_def sp_ge_def sp_ne_def
        not_le not_less)

theorem stringpiece_order_witness:
  "sp_lt (sp_of_string [97, 98]) (sp_of_string [97, 200]) = Inr True \<and>
   sp_compare (sp_of_string [97, 98]) (sp_of_string [97]) = Inr 1"
  using stringpiece_order [of "sp_of_string [97, 98]" "sp_of_string [97, 200]"]
    stringpiece_order [of "sp_of_string [97, 98]" "sp_of_string [97]"]
    sp_of_string_wf [of "[97, 98]"] sp_of_string_wf [of "[97, 200]"] sp_of_string_wf [of "[97]"]
  by simp

text \<open>Removing a prefix or a suffix of a piece denotes the rest of its bytes, and
  \<open>starts_with\<close> is the prefix relation on the bytes.\<close>

theorem stringpiece_slices:
  assumes "sp_wf p" "sp_wf x" "0 \<le> n" "n \<le> sp_len p"
  shows "sp_wf (remove_prefix n p) \<and> sp_view (remove_prefix n p) = drop (nat n) (sp_view p) \<and>
    sp_wf (remove_suffix n p) \<and>
    sp_view (remove_suffix n p) = take (length (sp_view p) - nat n) (sp_view p) \<and>
    starts_with p x = Inr (prefix (sp_view x) (sp_view p)) \<and> as_string p = Inr (sp_view p)"
  using remove_prefix_view [OF assms(1,3,4)] remove_suffix_view [OF assms(1,3,4)]
    starts_with_view [OF assms(1,2)] sp_wf_as_string [OF assms(1)]
  by simp

theorem stringpiece_slices_witness:
  "sp_view (remove_prefix 1 (sp_of_string [71, 69, 84])) = [69, 84] \<and>
   starts_with (sp_of_string [71, 69, 84]) (sp_of_string [71, 69]) = Inr True"
  using stringpiece_slices [of "sp_of_string [71, 69, 84]" "sp_of_string [71, 69]" 1]
    sp_of_string_wf [of "[71, 69, 84]"] sp_of_string_wf [of "[71, 69]"]
  by (simp add: sp_of_string_def)

end
