(* ===== verification/Buffer.thy ===== *)
theory Buffer
  imports Endian StringPiece
begin

text \<open>
  \<open>net/Buffer.h\<close> and \<open>net/Buffer.cc\<close>: a vector of bytes with a reader and a
  writer index.  Indices and lengths are 64-bit words, so every comparison and subtraction of
  the code is the wrapping one; the invariant \<open>buf_inv\<close> is what makes them mean what
  they look like.  A \<open>const char*\<close> into the buffer is its offset from \<open>begin()\<close>.
  The specification is a byte queue: \<open>contents\<close> are the readable bytes.
\<close>

section \<open>The vector of bytes\<close>

text \<open>\<open>std::vector<char>::max_size()\<close>, which no object exceeds.\<close>

definition max_size :: nat where
  "max_size = 9223372036854775807"

definition vector_make :: "size_t \<Rightarrow> byte list res" where
  "vector_make n = (if unat n \<le> max_size then Inr (replicate (unat n) 0) else Inl Length_Error)"

definition vector_resize :: "size_t \<Rightarrow> byte list \<Rightarrow> byte list res" where
  "vector_resize n v = (if unat n \<le> max_size
     then Inr (take (unat n) v @ replicate (unat n - length v) 0) else Inl Length_Error)"

section \<open>The class\<close>

record buffer =
  buf_mem :: "byte list"       \<comment> \<open>\<open>buffer_\<close>\<close>
  readerIndex :: size_t
  writerIndex :: size_t

definition kCheapPrepend :: size_t where
  "kCheapPrepend = 8"

definition kInitialSize :: size_t where
  "kInitialSize = 1024"

definition kCRLF :: "byte list" where
  "kCRLF = [13, 10]"

definition buffer_size :: "buffer \<Rightarrow> size_t" where
  "buffer_size b = of_nat (length (buf_mem b))"

definition readableBytes :: "buffer \<Rightarrow> size_t" where
  "readableBytes b = writerIndex b - readerIndex b"

definition writableBytes :: "buffer \<Rightarrow> size_t" where
  "writableBytes b = buffer_size b - writerIndex b"

definition prependableBytes :: "buffer \<Rightarrow> size_t" where
  "prependableBytes b = readerIndex b"

definition new_Buffer :: "size_t \<Rightarrow> buffer res" where
  "new_Buffer initialSize = bindr (vector_make (kCheapPrepend + initialSize)) (\<lambda>v.
     let b = \<lparr>buf_mem = v, readerIndex = kCheapPrepend, writerIndex = kCheapPrepend\<rparr>
     in ensure ''Buffer.h:30'' (readableBytes b = 0)
       (ensure ''Buffer.h:31'' (writableBytes b = initialSize)
       (ensure ''Buffer.h:32'' (prependableBytes b = kCheapPrepend) (Inr b))))"

definition swap_Buffer :: "buffer \<Rightarrow> buffer \<Rightarrow> buffer \<times> buffer" where
  "swap_Buffer this rhs = (rhs, this)"

text \<open>\<open>peek()\<close> and \<open>beginWrite()\<close>, as offsets.\<close>

definition peek :: "buffer \<Rightarrow> size_t" where
  "peek b = readerIndex b"

definition beginWrite :: "buffer \<Rightarrow> size_t" where
  "beginWrite b = writerIndex b"

text \<open>The bytes between two pointers into the buffer.\<close>

definition region :: "size_t \<Rightarrow> size_t \<Rightarrow> buffer \<Rightarrow> byte list" where
  "region i j b = between (unat i) (unat j) (buf_mem b)"

text \<open>\<open>std::search\<close>: the first position where the pattern starts, or the end.\<close>

fun std_search :: "byte list \<Rightarrow> byte list \<Rightarrow> nat" where
  "std_search [] pat = 0"
| "std_search (x # xs) pat = (if prefix pat (x # xs) then 0 else Suc (std_search xs pat))"

text \<open>\<open>memchr\<close>: the first position of the byte, or null.\<close>

fun std_memchr :: "byte list \<Rightarrow> byte \<Rightarrow> nat option" where
  "std_memchr [] c = None"
| "std_memchr (x # xs) c = (if x = c then Some 0 else map_option Suc (std_memchr xs c))"

definition search_crlf :: "size_t \<Rightarrow> buffer \<Rightarrow> size_t option" where
  "search_crlf start b =
     (let crlf = start + of_nat (std_search (region start (beginWrite b) b) kCRLF)
      in if crlf = beginWrite b then None else Some crlf)"

definition findCRLF :: "buffer \<Rightarrow> size_t option" where
  "findCRLF b = search_crlf (peek b) b"

definition findCRLF_from :: "size_t \<Rightarrow> buffer \<Rightarrow> size_t option res" where
  "findCRLF_from start b =
     ensure ''Buffer.h:55'' (peek b \<le> start) (ensure ''Buffer.h:56'' (start \<le> beginWrite b)
       (Inr (search_crlf start b)))"

definition findEOL :: "buffer \<Rightarrow> size_t option" where
  "findEOL b = map_option (\<lambda>k. peek b + of_nat k)
     (std_memchr (between (unat (peek b)) (unat (peek b) + unat (readableBytes b)) (buf_mem b)) 10)"

definition findEOL_from :: "size_t \<Rightarrow> buffer \<Rightarrow> size_t option res" where
  "findEOL_from start b =
     ensure ''Buffer.h:67'' (peek b \<le> start) (ensure ''Buffer.h:68'' (start \<le> beginWrite b)
       (Inr (map_option (\<lambda>k. start + of_nat k) (std_memchr (region start (beginWrite b) b) 10))))"

subsection \<open>Retrieving\<close>

definition retrieveAll :: "buffer \<Rightarrow> buffer" where
  "retrieveAll b = b\<lparr>readerIndex := kCheapPrepend, writerIndex := kCheapPrepend\<rparr>"

definition retrieve :: "size_t \<Rightarrow> buffer \<Rightarrow> buffer res" where
  "retrieve len b = ensure ''Buffer.h:74'' (len \<le> readableBytes b)
     (if len < readableBytes b then Inr (b\<lparr>readerIndex := readerIndex b + len\<rparr>)
      else Inr (retrieveAll b))"

definition retrieveUntil :: "size_t \<Rightarrow> buffer \<Rightarrow> buffer res" where
  "retrieveUntil endp b = ensure ''Buffer.h:83'' (peek b \<le> endp)
     (ensure ''Buffer.h:84'' (endp \<le> beginWrite b) (retrieve (endp - peek b) b))"

definition retrieveAsString :: "size_t \<Rightarrow> buffer \<Rightarrow> (byte list \<times> buffer) res" where
  "retrieveAsString len b = ensure ''Buffer.h:105'' (len \<le> readableBytes b)
     (let result = between (unat (peek b)) (unat (peek b) + unat len) (buf_mem b)
      in bindr (retrieve len b) (\<lambda>b'. Inr (result, b')))"

definition retrieveAllAsString :: "buffer \<Rightarrow> (byte list \<times> buffer) res" where
  "retrieveAllAsString b = retrieveAsString (readableBytes b) b"

definition toStringPiece :: "buffer \<Rightarrow> stringpiece" where
  "toStringPiece b = sp_make (Ptr (buf_mem b) (uint (peek b))) (to_int32 (uint (readableBytes b)))"

subsection \<open>Appending\<close>

text \<open>\<open>std::copy\<close> of bytes to an offset of the buffer.\<close>

definition copy_to :: "size_t \<Rightarrow> byte list \<Rightarrow> buffer \<Rightarrow> buffer res" where
  "copy_to i bs b = (if unat i + length bs \<le> length (buf_mem b)
     then Inr (b\<lparr>buf_mem := write_at (unat i) bs (buf_mem b)\<rparr>) else Inl Out_Of_Bounds)"

definition makeSpace :: "size_t \<Rightarrow> buffer \<Rightarrow> buffer res" where
  "makeSpace len b =
     (if writableBytes b + prependableBytes b < len + kCheapPrepend
      then bindr (vector_resize (writerIndex b + len) (buf_mem b)) (\<lambda>v. Inr (b\<lparr>buf_mem := v\<rparr>))
      else ensure ''Buffer.h:262'' (kCheapPrepend < readerIndex b)
        (let readable = readableBytes b
         in bindr (copy_to kCheapPrepend (region (readerIndex b) (writerIndex b) b) b) (\<lambda>b1.
            let b2 = b1\<lparr>readerIndex := kCheapPrepend, writerIndex := kCheapPrepend + readable\<rparr>
            in ensure ''Buffer.h:268'' (readable = readableBytes b2) (Inr b2))))"

definition ensureWritableBytes :: "size_t \<Rightarrow> buffer \<Rightarrow> buffer res" where
  "ensureWritableBytes len b =
     bindr (if writableBytes b < len then makeSpace len b else Inr b) (\<lambda>b1.
       ensure ''Buffer.h:129'' (writableBytes b1 \<ge> len) (Inr b1))"

definition hasWritten :: "size_t \<Rightarrow> buffer \<Rightarrow> buffer res" where
  "hasWritten len b = ensure ''Buffer.h:137'' (len \<le> writableBytes b)
     (Inr (b\<lparr>writerIndex := writerIndex b + len\<rparr>))"

definition unwrite :: "size_t \<Rightarrow> buffer \<Rightarrow> buffer res" where
  "unwrite len b = ensure ''Buffer.h:142'' (len \<le> readableBytes b)
     (Inr (b\<lparr>writerIndex := writerIndex b - len\<rparr>))"

definition append_ptr :: "cptr \<Rightarrow> size_t \<Rightarrow> buffer \<Rightarrow> buffer res" where
  "append_ptr data len b =
     bindr (ensureWritableBytes len b) (\<lambda>b1.
     bindr (bytes_at data (uint len)) (\<lambda>bs.
     bindr (copy_to (beginWrite b1) bs b1) (hasWritten len)))"

text \<open>\<open>append(str.data(), str.size())\<close>: the \<open>int\<close> size converts to \<open>size_t\<close>.\<close>

definition append_sp :: "stringpiece \<Rightarrow> buffer \<Rightarrow> buffer res" where
  "append_sp str b = append_ptr (sp_ptr str) (of_int (sp_len str)) b"

text \<open>Appending a whole object of known bytes, as the integer operations do.\<close>

definition append_bytes :: "byte list \<Rightarrow> buffer \<Rightarrow> buffer res" where
  "append_bytes data b = append_ptr (Ptr data 0) (of_nat (length data)) b"

definition prepend :: "byte list \<Rightarrow> buffer \<Rightarrow> buffer res" where
  "prepend data b =
     (let len = of_nat (length data) :: size_t
      in ensure ''Buffer.h:232'' (len \<le> prependableBytes b)
        (let b1 = b\<lparr>readerIndex := readerIndex b - len\<rparr> in copy_to (readerIndex b1) data b1))"

definition shrink :: "size_t \<Rightarrow> buffer \<Rightarrow> buffer res" where
  "shrink reserve b =
     bindr (new_Buffer kInitialSize) (\<lambda>other.
     bindr (ensureWritableBytes (readableBytes b + reserve) other) (\<lambda>other1.
     bindr (append_sp (toStringPiece b) other1) (\<lambda>other2.
     Inr (fst (swap_Buffer b other2)))))"

subsection \<open>Integers in network byte order\<close>

text \<open>The host's byte order is the parameter \<open>e\<close>.\<close>

definition appendInt64 :: "endianness \<Rightarrow> 64 word \<Rightarrow> buffer \<Rightarrow> buffer res" where
  "appendInt64 e x b = append_bytes (host_bytes e 8 (hostToNetwork64 e x)) b"

definition appendInt32 :: "endianness \<Rightarrow> 32 word \<Rightarrow> buffer \<Rightarrow> buffer res" where
  "appendInt32 e x b = append_bytes (host_bytes e 4 (hostToNetwork32 e x)) b"

definition appendInt16 :: "endianness \<Rightarrow> 16 word \<Rightarrow> buffer \<Rightarrow> buffer res" where
  "appendInt16 e x b = append_bytes (host_bytes e 2 (hostToNetwork16 e x)) b"

definition appendInt8 :: "8 word \<Rightarrow> buffer \<Rightarrow> buffer res" where
  "appendInt8 x b = append_bytes [x] b"

text \<open>\<open>memcpy(&be, peek(), n)\<close>\<close>

definition peek_bytes :: "nat \<Rightarrow> buffer \<Rightarrow> byte list" where
  "peek_bytes n b = between (unat (peek b)) (unat (peek b) + n) (buf_mem b)"

definition peekInt64 :: "endianness \<Rightarrow> buffer \<Rightarrow> 64 word res" where
  "peekInt64 e b = ensure ''Buffer.h:188'' (readableBytes b \<ge> 8)
     (Inr (networkToHost64 e (of_host_bytes e (peek_bytes 8 b))))"

definition peekInt32 :: "endianness \<Rightarrow> buffer \<Rightarrow> 32 word res" where
  "peekInt32 e b = ensure ''Buffer.h:195'' (readableBytes b \<ge> 4)
     (Inr (networkToHost32 e (of_host_bytes e (peek_bytes 4 b))))"

definition peekInt16 :: "endianness \<Rightarrow> buffer \<Rightarrow> 16 word res" where
  "peekInt16 e b = ensure ''Buffer.h:202'' (readableBytes b \<ge> 2)
     (Inr (networkToHost16 e (of_host_bytes e (peek_bytes 2 b))))"

definition peekInt8 :: "buffer \<Rightarrow> 8 word res" where
  "peekInt8 b = ensure ''Buffer.h:209'' (readableBytes b \<ge> 1) (Inr (hd (peek_bytes 1 b)))"

definition readInt64 :: "endianness \<Rightarrow> buffer \<Rightarrow> (64 word \<times> buffer) res" where
  "readInt64 e b = bindr (peekInt64 e b) (\<lambda>x. bindr (retrieve 8 b) (\<lambda>b1. Inr (x, b1)))"

definition readInt32 :: "endianness \<Rightarrow> buffer \<Rightarrow> (32 word \<times> buffer) res" where
  "readInt32 e b = bindr (peekInt32 e b) (\<lambda>x. bindr (retrieve 4 b) (\<lambda>b1. Inr (x, b1)))"

definition readInt16 :: "endianness \<Rightarrow> buffer \<Rightarrow> (16 word \<times> buffer) res" where
  "readInt16 e b = bindr (peekInt16 e b) (\<lambda>x. bindr (retrieve 2 b) (\<lambda>b1. Inr (x, b1)))"

definition readInt8 :: "buffer \<Rightarrow> (8 word \<times> buffer) res" where
  "readInt8 b = bindr (peekInt8 b) (\<lambda>x. bindr (retrieve 1 b) (\<lambda>b1. Inr (x, b1)))"

definition prependInt64 :: "endianness \<Rightarrow> 64 word \<Rightarrow> buffer \<Rightarrow> buffer res" where
  "prependInt64 e x b = prepend (host_bytes e 8 (hostToNetwork64 e x)) b"

definition prependInt32 :: "endianness \<Rightarrow> 32 word \<Rightarrow> buffer \<Rightarrow> buffer res" where
  "prependInt32 e x b = prepend (host_bytes e 4 (hostToNetwork32 e x)) b"

definition prependInt16 :: "endianness \<Rightarrow> 16 word \<Rightarrow> buffer \<Rightarrow> buffer res" where
  "prependInt16 e x b = prepend (host_bytes e 2 (hostToNetwork16 e x)) b"

definition prependInt8 :: "8 word \<Rightarrow> buffer \<Rightarrow> buffer res" where
  "prependInt8 x b = prepend [x] b"

subsection \<open>Reading from a descriptor\<close>

text \<open>
  What \<open>readv\<close> does is the kernel's choice: an error number, or some bytes, which fill
  the vector's free space first and the 65536-byte stack buffer after it.  The function returns
  \<open>n\<close> and leaves \<open>errno\<close> in \<open>*savedErrno\<close> when \<open>n < 0\<close>.
\<close>

datatype readv_result = Readv_Error int | Readv_Data "byte list"

definition extrabuf_size :: size_t where
  "extrabuf_size = 65536"

definition iovcnt :: "buffer \<Rightarrow> nat" where
  "iovcnt b = (if writableBytes b < extrabuf_size then 2 else 1)"

text \<open>How many bytes the \<open>iovec\<close> array passed to \<open>readv\<close> can take.\<close>

definition iov_room :: "buffer \<Rightarrow> nat" where
  "iov_room b = unat (writableBytes b) + (if iovcnt b = 2 then unat extrabuf_size else 0)"

definition readFd :: "readv_result \<Rightarrow> buffer \<Rightarrow> (int \<times> int option \<times> buffer) res" where
  "readFd k b =
     (case k of
        Readv_Error err \<Rightarrow> Inr (-1, Some err, b)
      | Readv_Data data \<Rightarrow>
         (let writable = writableBytes b; n = of_nat (length data) :: size_t;
              vec0 = take (unat writable) data; extrabuf = drop (unat writable) data
          in bindr (copy_to (writerIndex b) vec0 b) (\<lambda>b1.
             if n \<le> writable then Inr (int (length data), None, b1\<lparr>writerIndex := writerIndex b1 + n\<rparr>)
             else bindr (append_ptr (Ptr extrabuf 0) (n - writable) (b1\<lparr>writerIndex := buffer_size b1\<rparr>))
                    (\<lambda>b2. Inr (int (length data), None, b2)))))"

section \<open>The invariant and the queue of readable bytes\<close>

definition buf_inv :: "buffer \<Rightarrow> bool" where
  "buf_inv b \<longleftrightarrow> unat (readerIndex b) \<le> unat (writerIndex b) \<and>
     unat (writerIndex b) \<le> length (buf_mem b) \<and> 8 \<le> length (buf_mem b) \<and>
     length (buf_mem b) \<le> max_size"

definition contents :: "buffer \<Rightarrow> byte list" where
  "contents b = region (readerIndex b) (writerIndex b) b"

named_theorems buf_simps \<open>lengths of a buffer under its invariant, as natural numbers\<close>

lemma buf_invD:
  assumes "buf_inv b"
  shows "unat (readerIndex b) \<le> unat (writerIndex b)"
    and "unat (writerIndex b) \<le> length (buf_mem b)"
    and "8 \<le> length (buf_mem b)" and "length (buf_mem b) \<le> max_size"
  using assms by (simp_all add: buf_inv_def)

lemma unat_buffer_size [buf_simps]: "buf_inv b \<Longrightarrow> unat (buffer_size b) = length (buf_mem b)"
  by (auto dest: buf_invD(4) simp: buffer_size_def max_size_def unat_of_nat64)

lemma unat_readable_diff: "buf_inv b \<Longrightarrow> unat (readableBytes b) = unat (writerIndex b) - unat (readerIndex b)"
  by (auto dest!: buf_invD(1) simp: readableBytes_def unat_diff_le word_le_nat_alt)

lemma length_contents: "buf_inv b \<Longrightarrow> length (contents b) = unat (writerIndex b) - unat (readerIndex b)"
  by (simp add: contents_def region_def buf_inv_def)

lemma unat_readableBytes [buf_simps]: "buf_inv b \<Longrightarrow> unat (readableBytes b) = length (contents b)"
  by (simp add: unat_readable_diff length_contents)

lemma unat_writableBytes [buf_simps]:
  "buf_inv b \<Longrightarrow> unat (writableBytes b) = length (buf_mem b) - unat (writerIndex b)"
  using unat_buffer_size [of b] buf_invD(2) [of b]
  by (simp add: writableBytes_def unat_diff_le word_le_nat_alt)

lemma unat_prependableBytes [buf_simps]: "unat (prependableBytes b) = unat (readerIndex b)"
  by (simp add: prependableBytes_def)

lemma unat_kCheapPrepend [simp]: "unat kCheapPrepend = 8"
  by (simp add: kCheapPrepend_def)

lemma contents_bound: "buf_inv b \<Longrightarrow> length (contents b) \<le> max_size"
  using length_contents [of b] buf_invD [of b] by simp

lemma readable_le_iff [buf_simps]: "buf_inv b \<Longrightarrow> (n \<le> readableBytes b) = (unat n \<le> length (contents b))"
  by (simp add: word_le_nat_alt buf_simps)

lemma readable_less_iff [buf_simps]: "buf_inv b \<Longrightarrow> (n < readableBytes b) = (unat n < length (contents b))"
  by (simp add: word_less_nat_alt buf_simps)

lemma readable_eq_0_iff [buf_simps]: "buf_inv b \<Longrightarrow> (readableBytes b = 0) = (contents b = [])"
  using unat_readableBytes [of b] by (metis length_0_conv unat_eq_zero)

lemma peek_between:
  assumes "buf_inv b" "n \<le> length (contents b)"
  shows "between (unat (readerIndex b)) (unat (readerIndex b) + n) (buf_mem b) = take n (contents b)"
  using assms length_contents [of b] by (simp add: contents_def region_def take_between)

section \<open>Every operation implements the queue\<close>

lemma vector_make_ok: "unat n \<le> max_size \<Longrightarrow> vector_make n = Inr (replicate (unat n) 0)"
  by (simp add: vector_make_def)

lemma new_Buffer_spec:
  assumes "unat n + 8 \<le> max_size"
  shows "\<exists>b. new_Buffer n = Inr b \<and> buf_inv b \<and> contents b = [] \<and>
    unat (writableBytes b) = unat n \<and> prependableBytes b = kCheapPrepend"
proof -
  have s: "unat (kCheapPrepend + n) = 8 + unat n"
    using assms by (subst unat_add_less) (auto simp: max_size_def)
  let ?b = "\<lparr>buf_mem = replicate (8 + unat n) 0, readerIndex = kCheapPrepend, writerIndex = kCheapPrepend\<rparr>"
  have inv: "buf_inv ?b" using assms by (simp add: buf_inv_def)
  have w: "unat (writableBytes ?b) = unat n" using unat_writableBytes [OF inv] by simp
  then have "writableBytes ?b = n" by (simp add: word_unat_eq_iff)
  with inv w show ?thesis using assms
    by (intro exI [of _ ?b])
       (simp add: new_Buffer_def vector_make_def s readableBytes_def prependableBytes_def
          contents_def region_def)
qed

lemma retrieveAll_spec: "buf_inv b \<Longrightarrow> buf_inv (retrieveAll b) \<and> contents (retrieveAll b) = []"
  by (simp add: buf_inv_def retrieveAll_def contents_def region_def)

lemma retrieve_spec:
  assumes inv: "buf_inv b" and n: "unat n \<le> length (contents b)"
  shows "\<exists>b'. retrieve n b = Inr b' \<and> buf_inv b' \<and> contents b' = drop (unat n) (contents b) \<and>
    unat (writerIndex b') \<le> max 8 (unat (writerIndex b))"
proof (cases "unat n < length (contents b)")
  case True
  note l = length_contents [OF inv] and d = buf_invD [OF inv]
  have add: "unat (readerIndex b + n) = unat (readerIndex b) + unat n"
    using True l d by (intro unat_add_less) (simp add: max_size_def)
  have "buf_inv (b\<lparr>readerIndex := readerIndex b + n\<rparr>)"
    using True l d by (simp add: buf_inv_def add)
  moreover have "contents (b\<lparr>readerIndex := readerIndex b + n\<rparr>) = drop (unat n) (contents b)"
    by (simp add: contents_def region_def add drop_between)
  ultimately show ?thesis
    using True inv by (simp add: retrieve_def buf_simps)
next
  case False
  then show ?thesis
    using n inv retrieveAll_spec [OF inv]
    by (simp add: retrieve_def buf_simps) (simp add: retrieveAll_def)
qed

lemma retrieve_fails:
  "buf_inv b \<Longrightarrow> length (contents b) < unat n \<Longrightarrow> retrieve n b = Inl (Assert_Failed ''Buffer.h:74'')"
  by (simp add: retrieve_def buf_simps)

lemma retrieveAsString_spec:
  assumes "buf_inv b" "unat n \<le> length (contents b)"
  shows "\<exists>b'. retrieveAsString n b = Inr (take (unat n) (contents b), b') \<and> buf_inv b' \<and>
    contents b' = drop (unat n) (contents b) \<and> unat (writerIndex b') \<le> max 8 (unat (writerIndex b))"
  using retrieve_spec [OF assms] assms
  by (auto simp: retrieveAsString_def buf_simps peek_def peek_between)

lemma retrieveAllAsString_spec:
  "buf_inv b \<Longrightarrow> \<exists>b'. retrieveAllAsString b = Inr (contents b, b') \<and> buf_inv b' \<and> contents b' = []"
  using retrieveAsString_spec [of b "readableBytes b"]
  by (auto simp: retrieveAllAsString_def buf_simps)

lemma retrieveUntil_spec:
  assumes inv: "buf_inv b" and "readerIndex b \<le> p" "p \<le> writerIndex b"
  shows "\<exists>b'. retrieveUntil p b = Inr b' \<and> buf_inv b' \<and>
    contents b' = region p (writerIndex b) b"
proof -
  have u: "unat (p - readerIndex b) = unat p - unat (readerIndex b)"
    using assms by (simp add: unat_diff_le)
  have "unat (p - readerIndex b) \<le> length (contents b)"
    using assms length_contents [OF inv] u by (simp add: word_le_nat_alt)
  from retrieve_spec [OF inv this] show ?thesis
    using assms(2,3) u
    by (auto simp: retrieveUntil_def peek_def beginWrite_def contents_def region_def drop_between word_le_nat_alt)
qed

lemma unwrite_spec:
  assumes inv: "buf_inv b" and n: "unat n \<le> length (contents b)"
  shows "\<exists>b'. unwrite n b = Inr b' \<and> buf_inv b' \<and>
    contents b' = take (length (contents b) - unat n) (contents b)"
proof -
  note l = length_contents [OF inv] and d = buf_invD [OF inv]
  have sub: "unat (writerIndex b - n) = unat (writerIndex b) - unat n"
    using n l d by (intro unat_diff_le) (simp add: word_le_nat_alt)
  have "buf_inv (b\<lparr>writerIndex := writerIndex b - n\<rparr>)"
    using n l d by (simp add: buf_inv_def sub) linarith
  moreover have "contents (b\<lparr>writerIndex := writerIndex b - n\<rparr>)
      = take (length (contents b) - unat n) (contents b)"
  proof -
    have "unat (readerIndex b) + (length (contents b) - unat n) = unat (writerIndex b) - unat n"
      using n l d by simp
    then show ?thesis
      using l by (simp add: contents_def region_def sub take_between)
  qed
  ultimately show ?thesis
    using n inv by (simp add: unwrite_def buf_simps)
qed

lemma copy_to_spec:
  "unat i + length bs \<le> length (buf_mem b) \<Longrightarrow>
   copy_to i bs b = Inr (b\<lparr>buf_mem := write_at (unat i) bs (buf_mem b)\<rparr>)"
  by (simp add: copy_to_def)

text \<open>
  Making room: the two branches of \<open>makeSpace\<close>.  Growing the vector needs a size it can
  have; moving the readable bytes to the front needs nothing, and the assertions of that branch
  hold because the branch is taken.
\<close>

lemma space_words:
  assumes inv: "buf_inv b" and n: "unat n \<le> max_size"
  shows "unat (n + kCheapPrepend) = unat n + 8"
    and "unat (writerIndex b + n) = unat (writerIndex b) + unat n"
    and "unat (writableBytes b + prependableBytes b)
      = length (buf_mem b) - unat (writerIndex b) + unat (readerIndex b)"
proof -
  note d = buf_invD [OF inv]
  show "unat (n + kCheapPrepend) = unat n + 8"
    using n by (subst unat_add_less) (simp_all add: max_size_def)
  show "unat (writerIndex b + n) = unat (writerIndex b) + unat n"
    using n d by (intro unat_add_less) (simp add: max_size_def)
  show "unat (writableBytes b + prependableBytes b)
      = length (buf_mem b) - unat (writerIndex b) + unat (readerIndex b)"
    using d unat_writableBytes [OF inv]
    by (subst unat_add_less) (simp_all add: unat_prependableBytes max_size_def)
qed

text \<open>When the free bytes before and behind the readable ones do not suffice.\<close>

definition must_grow :: "size_t \<Rightarrow> buffer \<Rightarrow> bool" where
  "must_grow n b \<longleftrightarrow> writableBytes b + prependableBytes b < n + kCheapPrepend"

lemma makeSpace_grow:
  assumes inv: "buf_inv b" and short: "writableBytes b < n" and n: "unat n \<le> max_size"
    and grow: "must_grow n b" and lim: "unat (writerIndex b) + unat n \<le> max_size"
  shows "\<exists>b'. makeSpace n b = Inr b' \<and> buf_inv b' \<and> contents b' = contents b \<and>
    unat n \<le> unat (writableBytes b') \<and> length (buf_mem b') = unat (writerIndex b) + unat n \<and>
    unat (writerIndex b') \<le> unat (writerIndex b)"
proof -
  note d = buf_invD [OF inv] and w = space_words [OF inv n]
  have short': "length (buf_mem b) - unat (writerIndex b) < unat n"
    using short unat_writableBytes [OF inv] by (simp add: word_less_nat_alt)
  let ?v = "take (unat (writerIndex b) + unat n) (buf_mem b) @
    replicate (unat (writerIndex b) + unat n - length (buf_mem b)) 0"
  let ?b = "b\<lparr>buf_mem := ?v\<rparr>"
  have len: "length ?v = unat (writerIndex b) + unat n" by (simp add: min_def)
  have inv': "buf_inv ?b"
    using d short' lim by (simp add: buf_inv_def len min_def)
  moreover have "contents ?b = contents b"
    using d short' by (simp add: contents_def region_def between_append_right)
  moreover have "unat n \<le> unat (writableBytes ?b)"
    using unat_writableBytes [OF inv'] len by simp
  ultimately show ?thesis
    using grow lim len
    by (intro exI [of _ ?b]) (simp add: must_grow_def makeSpace_def vector_resize_def w)
qed

lemma makeSpace_compact:
  assumes inv: "buf_inv b" and short: "writableBytes b < n" and n: "unat n \<le> max_size"
    and compact: "\<not> must_grow n b"
  shows "\<exists>b'. makeSpace n b = Inr b' \<and> buf_inv b' \<and> contents b' = contents b \<and>
    unat n \<le> unat (writableBytes b') \<and> length (buf_mem b') = length (buf_mem b) \<and>
    readerIndex b' = kCheapPrepend \<and> unat (writerIndex b') \<le> unat (writerIndex b)"
proof -
  note d = buf_invD [OF inv] and w = space_words [OF inv n] and l = length_contents [OF inv]
  have short': "length (buf_mem b) - unat (writerIndex b) < unat n"
    using short unat_writableBytes [OF inv] by (simp add: word_less_nat_alt)
  let ?c = "contents b"
  let ?m = "write_at 8 ?c (buf_mem b)"
  let ?b = "b\<lparr>buf_mem := ?m, readerIndex := kCheapPrepend, writerIndex := kCheapPrepend + readableBytes b\<rparr>"
  have r8: "8 < unat (readerIndex b)"
    and room: "unat n + 8 \<le> length (buf_mem b) - unat (writerIndex b) + unat (readerIndex b)"
    using compact short' by (auto simp: must_grow_def word_less_nat_alt w)
  have fits: "8 + length ?c \<le> length (buf_mem b)" using l d r8 by simp
  have w8: "unat (kCheapPrepend + readableBytes b) = 8 + length ?c"
    using fits d unat_readableBytes [OF inv] by (subst unat_add_less) (simp_all add: max_size_def)
  have wle: "unat (kCheapPrepend + readableBytes b) \<le> unat (writerIndex b)"
    using w8 l r8 d by linarith
  have inv': "buf_inv ?b" using fits d w8 by (simp add: buf_inv_def)
  moreover have c: "contents ?b = ?c"
    using fits w8 between_write_at_front [of 8 ?c "8 + length ?c" "buf_mem b"]
    by (simp add: contents_def [of ?b] region_def)
  moreover have "unat n \<le> unat (writableBytes ?b)"
    using unat_writableBytes [OF inv'] fits room l d w8 by simp
  moreover have eq: "readableBytes b = readableBytes ?b"
    using unat_readableBytes [OF inv] unat_readableBytes [OF inv'] c by (simp add: word_unat_eq_iff)
  moreover have "makeSpace n b = Inr ?b"
    using compact r8 fits eq
    by (simp add: must_grow_def makeSpace_def copy_to_spec contents_def [symmetric] word_less_nat_alt Let_def)
  ultimately show ?thesis
    using fits wle by (intro exI [of _ ?b]) simp
qed

lemma makeSpace_fails:
  assumes inv: "buf_inv b" and n: "unat n \<le> max_size" and grow: "must_grow n b"
    and lim: "max_size < unat (writerIndex b) + unat n"
  shows "makeSpace n b = Inl Length_Error"
  using assms by (simp add: must_grow_def makeSpace_def vector_resize_def space_words)

lemma ensureWritableBytes_cases:
  assumes inv: "buf_inv b" and n: "unat n \<le> max_size" and r: "ensureWritableBytes n b = Inr b'"
  shows "buf_inv b' \<and> contents b' = contents b \<and> unat n \<le> unat (writableBytes b') \<and>
    unat (writerIndex b') \<le> unat (writerIndex b)"
proof (cases "writableBytes b < n")
  case short: True
  show ?thesis
  proof (cases "must_grow n b")
    case True
    show ?thesis
    proof (cases "unat (writerIndex b) + unat n \<le> max_size")
      case lim: True
      from makeSpace_grow [OF inv short n True lim] r short show ?thesis
        by (auto simp: ensureWritableBytes_def res_simps)
    next
      case False
      then show ?thesis
        using makeSpace_fails [OF inv n True] r short by (simp add: ensureWritableBytes_def)
    qed
  next
    case False
    from makeSpace_compact [OF inv short n False] r short show ?thesis
      by (auto simp: ensureWritableBytes_def res_simps)
  qed
next
  case False
  then have "b' = b" using r by (simp add: ensureWritableBytes_def ensure_eq_Inr)
  with False inv show ?thesis by (simp add: word_le_nat_alt not_less)
qed

lemma ensureWritableBytes_spec:
  assumes inv: "buf_inv b" and lim: "unat (writerIndex b) + unat n \<le> max_size"
  shows "\<exists>b'. ensureWritableBytes n b = Inr b' \<and> buf_inv b' \<and> contents b' = contents b \<and>
    unat n \<le> unat (writableBytes b') \<and> unat (writerIndex b') \<le> unat (writerIndex b)"
proof -
  have n: "unat n \<le> max_size" using lim by simp
  have "\<exists>b'. ensureWritableBytes n b = Inr b'"
  proof (cases "writableBytes b < n")
    case True
    then show ?thesis
      using makeSpace_grow [OF inv True n _ lim] makeSpace_compact [OF inv True n]
      by (cases "must_grow n b") (auto simp: ensureWritableBytes_def word_le_nat_alt)
  qed (auto simp: ensureWritableBytes_def not_less)
  with ensureWritableBytes_cases [OF inv n] show ?thesis by blast
qed

lemma hasWritten_spec:
  assumes inv: "buf_inv b" and n: "unat n \<le> unat (writableBytes b)"
  shows "\<exists>b'. hasWritten n b = Inr b' \<and> buf_inv b' \<and> buf_mem b' = buf_mem b \<and>
    readerIndex b' = readerIndex b \<and> unat (writerIndex b') = unat (writerIndex b) + unat n"
proof -
  note d = buf_invD [OF inv]
  have n': "unat n \<le> length (buf_mem b) - unat (writerIndex b)"
    using n unat_writableBytes [OF inv] by simp
  have add: "unat (writerIndex b + n) = unat (writerIndex b) + unat n"
    using n' d by (intro unat_add_less) (simp add: max_size_def)
  then show ?thesis
    using n n' d by (simp add: hasWritten_def word_le_nat_alt buf_inv_def)
qed

text \<open>Bytes copied behind the writer index and accounted for are appended to the queue.\<close>

lemma copy_hasWritten_spec:
  assumes inv: "buf_inv b" and n: "unat n = length bs" "length bs \<le> unat (writableBytes b)"
  shows "\<exists>b'. bindr (copy_to (beginWrite b) bs b) (hasWritten n) = Inr b' \<and> buf_inv b' \<and>
    contents b' = contents b @ bs \<and> readerIndex b' = readerIndex b \<and>
    unat (writableBytes b') = unat (writableBytes b) - length bs \<and>
    unat (writerIndex b') = unat (writerIndex b) + length bs"
proof -
  note d = buf_invD [OF inv]
  have fit: "unat (writerIndex b) + length bs \<le> length (buf_mem b)"
    using n d unat_writableBytes [OF inv] by simp
  let ?b = "b\<lparr>buf_mem := write_at (unat (writerIndex b)) bs (buf_mem b)\<rparr>"
  have inv': "buf_inv ?b" using d fit by (simp add: buf_inv_def)
  have "unat n \<le> unat (writableBytes ?b)"
    using unat_writableBytes [OF inv'] fit n by simp
  from hasWritten_spec [OF inv' this] obtain b' where
    b': "hasWritten n ?b = Inr b'" "buf_inv b'" "buf_mem b' = buf_mem ?b"
      "readerIndex b' = readerIndex b" "unat (writerIndex b') = unat (writerIndex b) + length bs"
    using n by auto
  have "contents b' = contents b @ bs"
    using b' d fit by (simp add: contents_def region_def between_write_at_end)
  moreover have "unat (writableBytes b') = unat (writableBytes b) - length bs"
    using b' fit unat_writableBytes [OF inv] unat_writableBytes [OF b'(2)] by simp
  ultimately show ?thesis using b' fit by (simp add: copy_to_spec beginWrite_def)
qed

lemma append_ptr_cases:
  assumes inv: "buf_inv b" and n: "unat n \<le> max_size" and r: "append_ptr p n b = Inr b'"
  shows "\<exists>bs. bytes_at p (uint n) = Inr bs \<and> buf_inv b' \<and> contents b' = contents b @ bs"
proof -
  from r obtain b1 bs where b1: "ensureWritableBytes n b = Inr b1"
    and bs: "bytes_at p (uint n) = Inr bs"
    and b': "bindr (copy_to (beginWrite b1) bs b1) (hasWritten n) = Inr b'"
    by (auto simp: append_ptr_def bindr_eq_Inr)
  have l: "unat n = length bs" using bytes_at_length [OF bs] by simp
  note e = ensureWritableBytes_cases [OF inv n b1]
  from copy_hasWritten_spec [of b1 n bs] e l b' bs show ?thesis by auto
qed

lemma append_ptr_spec:
  assumes inv: "buf_inv b" and lim: "unat (writerIndex b) + unat n \<le> max_size"
    and bs: "bytes_at p (uint n) = Inr bs"
  shows "\<exists>b'. append_ptr p n b = Inr b' \<and> buf_inv b' \<and> contents b' = contents b @ bs \<and>
    unat (writerIndex b') \<le> unat (writerIndex b) + unat n"
proof -
  have l: "unat n = length bs" using bytes_at_length [OF bs] by simp
  from ensureWritableBytes_spec [OF inv lim] obtain b1 where
    b1: "ensureWritableBytes n b = Inr b1" "buf_inv b1" "contents b1 = contents b"
      "unat n \<le> unat (writableBytes b1)" "unat (writerIndex b1) \<le> unat (writerIndex b)" by blast
  from copy_hasWritten_spec [of b1 n bs] b1 l bs show ?thesis
    by (auto simp: append_ptr_def)
qed

text \<open>When there is room already, nothing moves.\<close>

lemma append_ptr_fits:
  assumes inv: "buf_inv b" and n: "n \<le> writableBytes b" and bs: "bytes_at p (uint n) = Inr bs"
  shows "\<exists>b'. append_ptr p n b = Inr b' \<and> buf_inv b' \<and> contents b' = contents b @ bs \<and>
    readerIndex b' = readerIndex b \<and> unat (writableBytes b') = unat (writableBytes b) - length bs"
proof -
  have l: "unat n = length bs" using bytes_at_length [OF bs] by simp
  then have "length bs \<le> unat (writableBytes b)" using n by (simp add: word_le_nat_alt)
  moreover have "ensureWritableBytes n b = Inr b"
    using n by (simp add: ensureWritableBytes_def not_less [symmetric])
  ultimately show ?thesis
    using copy_hasWritten_spec [OF inv l] bs by (auto simp: append_ptr_def)
qed

lemma bytes_at_whole: "bytes_at (Ptr xs 0) (int (length xs)) = Inr xs"
  by simp

lemma unat_of_size: "length xs \<le> max_size \<Longrightarrow> unat (of_nat (length xs) :: size_t) = length xs"
  by (simp add: unat_of_nat64 max_size_def)

lemma uint_of_size: "length xs \<le> max_size \<Longrightarrow> uint (of_nat (length xs) :: size_t) = int (length xs)"
  using unat_of_size [of xs] by (simp add: uint_nat)

lemma append_bytes_cases:
  assumes "buf_inv b" "length xs \<le> max_size" "append_bytes xs b = Inr b'"
  shows "buf_inv b' \<and> contents b' = contents b @ xs"
  using append_ptr_cases [of b "of_nat (length xs)" "Ptr xs 0" b'] assms
  by (auto simp: append_bytes_def unat_of_size uint_of_size simp del: bytes_at.simps simp add: bytes_at_whole)

lemma append_bytes_spec:
  assumes "buf_inv b" "unat (writerIndex b) + length xs \<le> max_size"
  shows "\<exists>b'. append_bytes xs b = Inr b' \<and> buf_inv b' \<and> contents b' = contents b @ xs \<and>
    unat (writerIndex b') \<le> unat (writerIndex b) + length xs"
  using append_ptr_spec [of b "of_nat (length xs)" "Ptr xs 0" xs] assms
  by (auto simp: append_bytes_def unat_of_size uint_of_size simp del: bytes_at.simps simp add: bytes_at_whole)

lemma prepend_spec:
  assumes inv: "buf_inv b" and n: "length xs \<le> unat (prependableBytes b)"
  shows "\<exists>b'. prepend xs b = Inr b' \<and> buf_inv b' \<and> contents b' = xs @ contents b \<and>
    writerIndex b' = writerIndex b"
proof -
  note d = buf_invD [OF inv]
  have n': "length xs \<le> unat (readerIndex b)" using n by (simp add: unat_prependableBytes)
  have u: "unat (of_nat (length xs) :: size_t) = length xs"
    using n' d by (intro unat_of_size) simp
  let ?r = "readerIndex b - of_nat (length xs)"
  have r: "unat ?r = unat (readerIndex b) - length xs"
    using n' u by (simp add: unat_diff_le word_le_nat_alt)
  let ?b = "b\<lparr>readerIndex := ?r, buf_mem := write_at (unat ?r) xs (buf_mem b)\<rparr>"
  have fit: "unat ?r + length xs \<le> length (buf_mem b)" using r n' d by simp
  have "buf_inv ?b" using d r n' fit by (simp add: buf_inv_def)
  moreover have "contents ?b = xs @ contents b"
    using r n' d by (simp add: contents_def region_def between_write_at_front)
  moreover have "prepend xs b = Inr ?b"
    using fit n' u by (simp add: prepend_def copy_to_spec word_le_nat_alt unat_prependableBytes Let_def)
  ultimately show ?thesis by simp
qed

section \<open>Integers: what is read is what was written\<close>

lemma peek_bytes_contents:
  "buf_inv b \<Longrightarrow> n \<le> length (contents b) \<Longrightarrow> peek_bytes n b = take n (contents b)"
  by (simp add: peek_bytes_def peek_def peek_between)

lemmas append_int_defs = appendInt64_def appendInt32_def appendInt16_def hostToNetwork_defs host_bytes_htobe
lemmas prepend_int_defs = prependInt64_def prependInt32_def prependInt16_def hostToNetwork_defs host_bytes_htobe

text \<open>The operations of one width put and find the network bytes.\<close>

lemma append_be:
  "appendInt64 e x b = append_bytes (be_bytes 8 x) b"
  "appendInt32 e y b = append_bytes (be_bytes 4 y) b"
  "appendInt16 e z b = append_bytes (be_bytes 2 z) b"
  by (simp_all add: append_int_defs)

lemma prepend_be:
  "prependInt64 e x b = prepend (be_bytes 8 x) b"
  "prependInt32 e y b = prepend (be_bytes 4 y) b"
  "prependInt16 e z b = prepend (be_bytes 2 z) b"
  by (simp_all add: prepend_int_defs)

lemma peekInt_spec:
  assumes "buf_inv b"
  shows "contents b = be_bytes 8 x @ rest \<Longrightarrow> peekInt64 e b = Inr x"
    and "contents b = be_bytes 4 y @ rest \<Longrightarrow> peekInt32 e b = Inr y"
    and "contents b = be_bytes 2 z @ rest \<Longrightarrow> peekInt16 e b = Inr z"
    and "contents b = w # rest \<Longrightarrow> peekInt8 b = Inr w"
  using assms
  by (simp_all add: peekInt64_def peekInt32_def peekInt16_def peekInt8_def buf_simps
        peek_bytes_contents hostToNetwork_defs htobe_of_host_bytes_be)

lemma retrieve_drop:
  assumes "buf_inv b" "contents b = xs @ rest" "unat n = length xs"
  obtains b' where "retrieve n b = Inr b'" "buf_inv b'" "contents b' = rest"
  using retrieve_spec [of b n] assms by auto

lemma readInt_spec:
  assumes inv: "buf_inv b"
  shows "contents b = be_bytes 8 x @ rest \<Longrightarrow>
      \<exists>b'. readInt64 e b = Inr (x, b') \<and> buf_inv b' \<and> contents b' = rest"
    and "contents b = be_bytes 4 y @ rest \<Longrightarrow>
      \<exists>b'. readInt32 e b = Inr (y, b') \<and> buf_inv b' \<and> contents b' = rest"
    and "contents b = be_bytes 2 z @ rest \<Longrightarrow>
      \<exists>b'. readInt16 e b = Inr (z, b') \<and> buf_inv b' \<and> contents b' = rest"
    and "contents b = w # rest \<Longrightarrow>
      \<exists>b'. readInt8 b = Inr (w, b') \<and> buf_inv b' \<and> contents b' = rest"
proof -
  show "contents b = be_bytes 8 x @ rest \<Longrightarrow>
      \<exists>b'. readInt64 e b = Inr (x, b') \<and> buf_inv b' \<and> contents b' = rest"
    by (frule peekInt_spec(1) [OF inv, of _ _ e], erule retrieve_drop [OF inv, where n = 8])
       (auto simp: readInt64_def)
  show "contents b = be_bytes 4 y @ rest \<Longrightarrow>
      \<exists>b'. readInt32 e b = Inr (y, b') \<and> buf_inv b' \<and> contents b' = rest"
    by (frule peekInt_spec(2) [OF inv, of _ _ e], erule retrieve_drop [OF inv, where n = 4])
       (auto simp: readInt32_def)
  show "contents b = be_bytes 2 z @ rest \<Longrightarrow>
      \<exists>b'. readInt16 e b = Inr (z, b') \<and> buf_inv b' \<and> contents b' = rest"
    by (frule peekInt_spec(3) [OF inv, of _ _ e], erule retrieve_drop [OF inv, where n = 2])
       (auto simp: readInt16_def)
  assume c: "contents b = w # rest"
  then have c': "contents b = [w] @ rest" by simp
  obtain b' where "retrieve 1 b = Inr b'" "buf_inv b'" "contents b' = rest"
    by (rule retrieve_drop [OF inv c', where n = 1]) simp
  with peekInt_spec(4) [OF inv c]
  show "\<exists>b'. readInt8 b = Inr (w, b') \<and> buf_inv b' \<and> contents b' = rest"
    by (auto simp: readInt8_def)
qed

section \<open>Searching for line ends\<close>

lemma std_search_le: "std_search xs pat \<le> length xs"
  by (induction xs) auto

lemma std_search_found:
  "std_search xs pat < length xs \<Longrightarrow> prefix pat (drop (std_search xs pat) xs)"
  by (induction xs) (auto split: if_splits)

lemma std_search_first: "k < std_search xs pat \<Longrightarrow> \<not> prefix pat (drop k xs)"
proof (induction xs arbitrary: k)
  case Nil
  then show ?case by simp
next
  case (Cons x xs)
  then show ?case by (cases k) (auto split: if_splits)
qed

lemma std_search_eq_iff:
  assumes "k < length xs"
  shows "std_search xs pat = k \<longleftrightarrow> prefix pat (drop k xs) \<and> (\<forall>j<k. \<not> prefix pat (drop j xs))"
proof
  assume "std_search xs pat = k"
  with assms show "prefix pat (drop k xs) \<and> (\<forall>j<k. \<not> prefix pat (drop j xs))"
    using std_search_found [of xs pat] std_search_first [of _ xs pat] by auto
next
  assume r: "prefix pat (drop k xs) \<and> (\<forall>j<k. \<not> prefix pat (drop j xs))"
  have "\<not> k < std_search xs pat" using r std_search_first by blast
  moreover have "\<not> std_search xs pat < k"
  proof
    assume "std_search xs pat < k"
    moreover from this assms have "prefix pat (drop (std_search xs pat) xs)"
      by (intro std_search_found) simp
    ultimately show False using r by blast
  qed
  ultimately show "std_search xs pat = k" by simp
qed

lemma std_memchr_eq_iff:
  "std_memchr xs c = Some k \<longleftrightarrow> k < length xs \<and> xs ! k = c \<and> c \<notin> set (take k xs)"
proof (induction xs arbitrary: k)
  case Nil
  then show ?case by simp
next
  case (Cons x xs)
  then show ?case by (cases k) auto
qed

lemma std_memchr_None: "std_memchr xs c = None \<longleftrightarrow> c \<notin> set xs"
  by (induction xs) auto

lemma ptr_offset:
  assumes inv: "buf_inv b" and "i \<le> length (contents b)"
  shows "unat (readerIndex b + of_nat i) = unat (readerIndex b) + i"
proof -
  have "i < 18446744073709551616"
    using assms contents_bound [OF inv] by (simp add: max_size_def)
  then show ?thesis
    using assms(2) buf_invD [OF inv] length_contents [OF inv]
    by (subst unat_add_less) (simp_all add: unat_of_nat64 max_size_def)
qed

text \<open>The first line end of the readable bytes, as a pointer.\<close>

lemma findCRLF_spec:
  assumes inv: "buf_inv b" and k: "k < length (contents b)"
  shows "findCRLF b = Some (readerIndex b + of_nat k) \<longleftrightarrow>
    prefix kCRLF (drop k (contents b)) \<and> (\<forall>j<k. \<not> prefix kCRLF (drop j (contents b)))"
proof -
  let ?s = "std_search (contents b) kCRLF"
  note d = buf_invD [OF inv] and l = length_contents [OF inv]
  have s: "?s \<le> length (contents b)" by (rule std_search_le)
  note ptr = ptr_offset [OF inv]
  have find: "findCRLF b = (if ?s = length (contents b) then None else Some (readerIndex b + of_nat ?s))"
  proof -
    have "readerIndex b + of_nat ?s = writerIndex b \<longleftrightarrow> ?s = length (contents b)"
      using ptr [OF s] l s d by (auto simp: word_unat_eq_iff)
    then show ?thesis
      by (simp add: findCRLF_def search_crlf_def peek_def beginWrite_def contents_def Let_def)
  qed
  have "readerIndex b + of_nat ?s = readerIndex b + of_nat k \<longleftrightarrow> ?s = k"
    using ptr [OF s] ptr [of k] k by (auto simp: word_unat_eq_iff)
  then show ?thesis
    using find k std_search_eq_iff [OF k, of kCRLF] by auto
qed

lemma findCRLF_None:
  assumes inv: "buf_inv b"
  shows "findCRLF b = None \<longleftrightarrow> (\<forall>k<length (contents b). \<not> prefix kCRLF (drop k (contents b)))"
proof (cases "std_search (contents b) kCRLF = length (contents b)")
  case True
  note d = buf_invD [OF inv] and l = length_contents [OF inv]
  have "unat (readerIndex b + of_nat (length (contents b))) = unat (writerIndex b)"
    using d l ptr_offset [OF inv, of "length (contents b)"] by simp
  then have "readerIndex b + of_nat (length (contents b)) = writerIndex b"
    by (simp add: word_unat_eq_iff)
  then show ?thesis
    using True std_search_first [of _ "contents b" kCRLF]
    by (auto simp: findCRLF_def search_crlf_def peek_def beginWrite_def contents_def [symmetric] Let_def)
next
  case False
  then have k: "std_search (contents b) kCRLF < length (contents b)"
    using std_search_le [of "contents b" kCRLF] by simp
  with std_search_eq_iff [OF k, of kCRLF] findCRLF_spec [OF inv k] show ?thesis by auto
qed

lemma findEOL_spec:
  assumes inv: "buf_inv b"
  shows "findEOL b = None \<longleftrightarrow> 10 \<notin> set (contents b)"
    and "k < length (contents b) \<Longrightarrow> findEOL b = Some (readerIndex b + of_nat k) \<longleftrightarrow>
      contents b ! k = 10 \<and> 10 \<notin> set (take k (contents b))"
proof -
  note d = buf_invD [OF inv] and l = length_contents [OF inv]
  have find: "findEOL b = map_option (\<lambda>k. readerIndex b + of_nat k) (std_memchr (contents b) 10)"
    using l d unat_readableBytes [OF inv]
    by (simp add: findEOL_def peek_def contents_def region_def)
  then show "findEOL b = None \<longleftrightarrow> 10 \<notin> set (contents b)"
    by (simp add: std_memchr_None)
  assume k: "k < length (contents b)"
  note ptr = ptr_offset [OF inv]
  have "findEOL b = Some (readerIndex b + of_nat k) \<longleftrightarrow> std_memchr (contents b) 10 = Some k"
  proof (cases "std_memchr (contents b) 10")
    case (Some j)
    then have "j < length (contents b)" by (simp add: std_memchr_eq_iff)
    with Some find k ptr [of j] ptr [of k] show ?thesis by (auto simp: word_unat_eq_iff)
  qed (use find in auto)
  with k show "findEOL b = Some (readerIndex b + of_nat k) \<longleftrightarrow>
      contents b ! k = 10 \<and> 10 \<notin> set (take k (contents b))"
    by (simp add: std_memchr_eq_iff)
qed

section \<open>Reading from a descriptor\<close>

lemma readFd_split:
  assumes inv: "buf_inv b" and n: "length data \<le> max_size"
  defines "w \<equiv> unat (writableBytes b)"
  shows "length data \<le> w \<Longrightarrow>
      \<exists>b'. readFd (Readv_Data data) b = Inr (int (length data), None, b') \<and> buf_inv b' \<and>
        contents b' = contents b @ data"
    and "w < length data \<Longrightarrow>
      \<exists>b1. buf_inv b1 \<and> contents b1 = contents b @ take w data \<and>
        unat (writerIndex b1) = length (buf_mem b) \<and>
        readFd (Readv_Data data) b = bindr (append_bytes (drop w data) b1)
          (\<lambda>b2. Inr (int (length data), None, b2))"
proof -
  note d = buf_invD [OF inv]
  have wn: "w = length (buf_mem b) - unat (writerIndex b)" by (simp add: w_def unat_writableBytes [OF inv])
  have u: "unat (of_nat (length data) :: size_t) = length data" by (rule unat_of_size [OF n])
  have le: "(of_nat (length data) \<le> writableBytes b) = (length data \<le> w)"
    by (simp add: word_le_nat_alt u w_def)
  {
    assume small: "length data \<le> w"
    from copy_hasWritten_spec [OF inv, of "of_nat (length data)" data] u small
    obtain b' where b': "bindr (copy_to (beginWrite b) data b) (hasWritten (of_nat (length data))) = Inr b'"
      "buf_inv b'" "contents b' = contents b @ data" by (auto simp: w_def)
    then show "\<exists>b'. readFd (Readv_Data data) b = Inr (int (length data), None, b') \<and> buf_inv b' \<and>
        contents b' = contents b @ data"
      using small le
      by (auto simp: readFd_def hasWritten_def beginWrite_def res_simps w_def [symmetric] Let_def)
  }
  {
    assume big: "w < length data"
    let ?v = "take w data"
    let ?b1 = "b\<lparr>buf_mem := write_at (unat (writerIndex b)) ?v (buf_mem b),
      writerIndex := of_nat (length (buf_mem b))\<rparr>"
    have v: "length ?v = w" using big by simp
    have sz: "unat (of_nat (length (buf_mem b)) :: size_t) = length (buf_mem b)"
      using d by (intro unat_of_size) simp
    have lm: "length (write_at (unat (writerIndex b)) ?v (buf_mem b)) = length (buf_mem b)"
      using v wn d by (intro length_write_at) simp
    have inv1: "buf_inv ?b1" using d v wn sz lm by (simp add: buf_inv_def)
    have "contents ?b1 = contents b @ ?v"
      using between_write_at_end [of "unat (readerIndex b)" "unat (writerIndex b)" ?v "buf_mem b"] d v wn sz
      by (simp add: contents_def region_def)
    moreover have rest: "of_nat (length data) - writableBytes b = (of_nat (length (drop w data)) :: size_t)"
    proof -
      have "writableBytes b \<le> of_nat (length data)" using le big by (metis linear not_le)
      then have "unat (of_nat (length data) - writableBytes b) = length data - w"
        by (simp add: unat_diff_le u w_def)
      moreover have "unat (of_nat (length (drop w data)) :: size_t) = length data - w"
        using n by (subst unat_of_size) simp_all
      ultimately show ?thesis by (simp add: word_unat_eq_iff)
    qed
    moreover have "copy_to (writerIndex b) ?v b
        = Inr (b\<lparr>buf_mem := write_at (unat (writerIndex b)) ?v (buf_mem b)\<rparr>)"
      using v wn d by (intro copy_to_spec) simp
    then have "readFd (Readv_Data data) b = bindr (append_bytes (drop w data) ?b1)
          (\<lambda>b2. Inr (int (length data), None, b2))"
      using big le lm rest
      by (simp add: readFd_def append_bytes_def buffer_size_def w_def [symmetric] Let_def del: length_drop of_nat_diff)
    ultimately show "\<exists>b1. buf_inv b1 \<and> contents b1 = contents b @ take w data \<and>
        unat (writerIndex b1) = length (buf_mem b) \<and>
        readFd (Readv_Data data) b = bindr (append_bytes (drop w data) b1)
          (\<lambda>b2. Inr (int (length data), None, b2))"
      using inv1 sz by (intro exI [of _ ?b1] conjI) simp_all
  }
qed

lemma readFd_data_spec:
  assumes inv: "buf_inv b" and lim: "unat (writerIndex b) + length data \<le> max_size"
  shows "\<exists>b'. readFd (Readv_Data data) b = Inr (int (length data), None, b') \<and> buf_inv b' \<and>
    contents b' = contents b @ data"
proof (cases "length data \<le> unat (writableBytes b)")
  case True
  then show ?thesis using readFd_split(1) [OF inv] lim by simp
next
  case False
  let ?w = "unat (writableBytes b)"
  note d = buf_invD [OF inv]
  from False lim readFd_split(2) [OF inv, of data] obtain b1 where
    b1: "buf_inv b1" "contents b1 = contents b @ take ?w data" "unat (writerIndex b1) = length (buf_mem b)"
      "readFd (Readv_Data data) b = bindr (append_bytes (drop ?w data) b1)
          (\<lambda>b2. Inr (int (length data), None, b2))" by auto
  have "unat (writerIndex b1) + length (drop ?w data) \<le> max_size"
    using b1(3) lim d False unat_writableBytes [OF inv] by simp
  from append_bytes_spec [OF b1(1) this] b1 show ?thesis by auto
qed

lemma readFd_data_cases:
  assumes inv: "buf_inv b" and n: "length data \<le> max_size"
    and r: "readFd (Readv_Data data) b = Inr (m, e, b')"
  shows "m = int (length data) \<and> buf_inv b' \<and> contents b' = contents b @ data"
proof (cases "length data \<le> unat (writableBytes b)")
  case True
  then show ?thesis using readFd_split(1) [OF inv n] r by auto
next
  case False
  let ?w = "unat (writableBytes b)"
  from False readFd_split(2) [OF inv n] obtain b1 where
    b1: "buf_inv b1" "contents b1 = contents b @ take ?w data"
      "readFd (Readv_Data data) b = bindr (append_bytes (drop ?w data) b1)
          (\<lambda>b2. Inr (int (length data), None, b2))" by auto
  from r [unfolded b1(3)] have app: "append_bytes (drop ?w data) b1 = Inr b'" and m: "m = int (length data)"
    by (simp_all add: bindr_eq_Inr)
  have "length (drop ?w data) \<le> max_size" using n by simp
  from append_bytes_cases [OF b1(1) this app] b1(2) m show ?thesis by simp
qed

lemma readFd_error: "readFd (Readv_Error err) b = Inr (-1, Some err, b)"
  by (simp add: readFd_def)

section \<open>Shrinking\<close>

lemma ensureWritableBytes_new:
  assumes inv: "buf_inv b" and r: "readerIndex b = kCheapPrepend"
    and lim: "unat (writerIndex b) + unat n \<le> max_size"
  shows "\<exists>b'. ensureWritableBytes n b = Inr b' \<and> buf_inv b' \<and> contents b' = contents b \<and>
    unat n \<le> unat (writableBytes b') \<and> readerIndex b' = kCheapPrepend \<and> writerIndex b' = writerIndex b"
proof -
  from ensureWritableBytes_spec [OF inv lim] obtain b' where
    b': "ensureWritableBytes n b = Inr b'" "buf_inv b'" "contents b' = contents b"
      "unat n \<le> unat (writableBytes b')" by blast
  moreover have "readerIndex b' = kCheapPrepend" "writerIndex b' = writerIndex b"
    using b'(1) r by (auto simp: ensureWritableBytes_def makeSpace_def res_simps Let_def split: if_splits)
  ultimately show ?thesis by blast
qed

lemma toStringPiece_view:
  assumes inv: "buf_inv b" and n: "length (contents b) < 2147483648"
  shows "sp_len (toStringPiece b) = int (length (contents b))"
    and "bytes_at (sp_ptr (toStringPiece b)) (int (length (contents b))) = Inr (contents b)"
proof -
  have u: "uint (readableBytes b) = int (length (contents b))"
    using unat_readableBytes [OF inv] by (simp add: uint_nat)
  show "sp_len (toStringPiece b) = int (length (contents b))"
    using n by (simp add: toStringPiece_def sp_make_def u)
  show "bytes_at (sp_ptr (toStringPiece b)) (int (length (contents b))) = Inr (contents b)"
  proof (cases "contents b = []")
    case False
    define r w where "r = unat (readerIndex b)" and "w = unat (writerIndex b)"
    have "sp_ptr (toStringPiece b) = Ptr (buf_mem b) (int r)"
      by (simp add: toStringPiece_def sp_make_def peek_def r_def)
    moreover have "contents b = take (w - r) (drop r (buf_mem b))" "length (contents b) = w - r"
      "r \<le> w" "w \<le> length (buf_mem b)"
      using length_contents [OF inv] buf_invD [OF inv]
      by (simp_all add: contents_def region_def between_def r_def w_def)
    ultimately show ?thesis using False by (simp add: nat_diff_distrib)
  qed (simp add: toStringPiece_def sp_make_def)
qed

lemma shrink_other:
  assumes "unat n + 8 \<le> max_size"
  obtains o1 o2 where "new_Buffer kInitialSize = Inr o1" "ensureWritableBytes n o1 = Inr o2"
    "buf_inv o2" "contents o2 = []" "unat n \<le> unat (writableBytes o2)"
    "readerIndex o2 = kCheapPrepend" "writerIndex o2 = kCheapPrepend"
proof -
  have "unat kInitialSize + 8 \<le> max_size" by (simp add: kInitialSize_def max_size_def)
  from new_Buffer_spec [OF this] obtain o1 where
    o1: "new_Buffer kInitialSize = Inr o1" "buf_inv o1" "contents o1 = []" "prependableBytes o1 = kCheapPrepend"
    by blast
  have r: "readerIndex o1 = kCheapPrepend" using o1(4) by (simp add: prependableBytes_def)
  have "unat (writerIndex o1) = 8"
    using length_contents [OF o1(2)] o1(3) r buf_invD(1) [OF o1(2)] by simp
  then have w: "writerIndex o1 = kCheapPrepend" by (simp add: word_unat_eq_iff)
  have "unat (writerIndex o1) + unat n \<le> max_size" using w assms by simp
  from ensureWritableBytes_new [OF o1(2) r this] obtain o2 where
    "ensureWritableBytes n o1 = Inr o2" "buf_inv o2" "contents o2 = contents o1"
    "unat n \<le> unat (writableBytes o2)" "readerIndex o2 = kCheapPrepend" "writerIndex o2 = writerIndex o1"
    by blast
  with o1 w show ?thesis by (intro that [of o1 o2]) simp_all
qed

lemma shrink_spec:
  assumes inv: "buf_inv b" and n: "length (contents b) < 2147483648"
    and lim: "length (contents b) + unat reserve + 8 \<le> max_size"
  shows "\<exists>b'. shrink reserve b = Inr b' \<and> buf_inv b' \<and> contents b' = contents b \<and>
    prependableBytes b' = kCheapPrepend \<and> unat reserve \<le> unat (writableBytes b')"
proof -
  let ?n = "readableBytes b + reserve"
  have un: "unat ?n = length (contents b) + unat reserve"
    using lim unat_readableBytes [OF inv] by (subst unat_add_less) (simp_all add: max_size_def)
  have "unat ?n + 8 \<le> max_size" using lim un by simp
  then obtain o1 o2 where o: "new_Buffer kInitialSize = Inr o1" "ensureWritableBytes ?n o1 = Inr o2"
    "buf_inv o2" "contents o2 = []" "unat ?n \<le> unat (writableBytes o2)" "readerIndex o2 = kCheapPrepend"
    by (rule shrink_other)
  define l :: size_t where "l = of_int (sp_len (toStringPiece b))"
  have l: "l = of_nat (length (contents b))"
    unfolding l_def toStringPiece_view(1) [OF inv n] by simp
  have ul: "unat l = length (contents b)" "uint l = int (length (contents b))"
    unfolding l using contents_bound [OF inv] by (rule unat_of_size, rule uint_of_size)
  have "l \<le> writableBytes o2" using o(5) un ul by (simp add: word_le_nat_alt)
  from append_ptr_fits [OF o(3) this, of "sp_ptr (toStringPiece b)" "contents b"] ul
    toStringPiece_view(2) [OF inv n] obtain o3 where
    o3: "append_ptr (sp_ptr (toStringPiece b)) l o2 = Inr o3" "buf_inv o3"
      "contents o3 = contents b" "readerIndex o3 = kCheapPrepend"
      "unat (writableBytes o3) = unat (writableBytes o2) - length (contents b)"
    using o(4,6) by auto
  then show ?thesis
    using o un by (simp add: shrink_def append_sp_def l_def [symmetric] swap_Buffer_def prependableBytes_def)
qed

text \<open>
  With 2 GB or more readable the length of the string piece is negative, and as a
  \<open>size_t\<close> it is larger than any vector.
\<close>

lemma shrink_truncates_lemma:
  assumes inv: "buf_inv b"
    and n: "2147483648 \<le> length (contents b)" "length (contents b) < 4294967288"
  shows "shrink 0 b = Inl Length_Error"
proof -
  let ?k = "length (contents b)"
  define l :: size_t where "l = of_int (sp_len (toStringPiece b))"
  have u: "uint (readableBytes b) = int ?k"
    using unat_readableBytes [OF inv] by (simp add: uint_nat)
  have "to_int32 (int ?k) = int ?k - 4294967296"
    using n by (intro to_int32_wrap) simp_all
  then have "l = of_nat ?k - 4294967296"
    by (simp add: l_def toStringPiece_def sp_make_def u)
  moreover have "(18446744069414584320 :: size_t) = - 4294967296" by simp
  ultimately have "l = of_nat (?k + 18446744069414584320)" by simp
  then have nl: "unat l = ?k + 18446744069414584320"
    using n by (simp only: unat_of_nat64)
  have "unat (readableBytes b + 0) + 8 \<le> max_size"
    using n unat_readableBytes [OF inv] by (simp add: max_size_def)
  then obtain o1 o2 where o: "new_Buffer kInitialSize = Inr o1"
    "ensureWritableBytes (readableBytes b + 0) o1 = Inr o2"
    "buf_inv o2" "readerIndex o2 = kCheapPrepend" "writerIndex o2 = kCheapPrepend"
    by (rule shrink_other)
  have short: "writableBytes o2 < l"
    using unat_writableBytes [OF o(3)] buf_invD [OF o(3)] nl n by (simp add: word_less_nat_alt max_size_def)
  have l8: "unat (l + kCheapPrepend) = unat l + 8"
    using n nl by (subst unat_add_less) simp_all
  have "unat (writableBytes o2 + prependableBytes o2) \<le> max_size"
    using unat_writableBytes [OF o(3)] buf_invD [OF o(3)] o(4,5)
    by (subst unat_add_less) (simp_all add: unat_prependableBytes max_size_def)
  then have grow: "writableBytes o2 + prependableBytes o2 < l + kCheapPrepend"
    using l8 nl n by (simp add: word_less_nat_alt max_size_def)
  have "max_size < unat (writerIndex o2 + l)"
    using n nl o(5) by (subst unat_add_less) (simp_all add: max_size_def)
  then have "makeSpace l o2 = Inl Length_Error"
    using grow by (simp add: makeSpace_def vector_resize_def)
  then show ?thesis
    using o short
    by (simp add: shrink_def append_sp_def append_ptr_def ensureWritableBytes_def [of l] l_def [symmetric])
qed

section \<open>The interface: a byte queue\<close>

text \<open>
  What the connection's code relies on: bytes go in at the back (\<open>put\<close>), come out at the
  front with their value (\<open>get\<close>) or are discarded there (\<open>skip\<close>).
\<close>

datatype queue_op = Put "byte list" | Get size_t

text \<open>Running operations, collecting the bytes that leave the queue.\<close>

fun run_queue :: "(byte list \<Rightarrow> 'q \<Rightarrow> 'q res) \<Rightarrow> (size_t \<Rightarrow> 'q \<Rightarrow> (byte list \<times> 'q) res) \<Rightarrow>
    queue_op list \<Rightarrow> 'q \<Rightarrow> (byte list \<times> 'q) res" where
  "run_queue put get [] q = Inr ([], q)"
| "run_queue put get (Put xs # ops) q = bindr (put xs q) (run_queue put get ops)"
| "run_queue put get (Get n # ops) q =
     bindr (get n q) (\<lambda>(xs, q1). bindr (run_queue put get ops q1) (\<lambda>(ys, q2). Inr (xs @ ys, q2)))"

fun bytes_put :: "queue_op list \<Rightarrow> byte list" where
  "bytes_put [] = []"
| "bytes_put (Put xs # ops) = xs @ bytes_put ops"
| "bytes_put (Get n # ops) = bytes_put ops"

text \<open>Every get asks for no more than is there.\<close>

fun gets_fit :: "nat \<Rightarrow> queue_op list \<Rightarrow> bool" where
  "gets_fit k [] = True"
| "gets_fit k (Put xs # ops) = gets_fit (k + length xs) ops"
| "gets_fit k (Get n # ops) = (unat n \<le> k \<and> gets_fit (k - unat n) ops)"

definition puts_bounded :: "queue_op list \<Rightarrow> bool" where
  "puts_bounded ops = list_all (\<lambda>q. case q of Put xs \<Rightarrow> length xs \<le> max_size | Get _ \<Rightarrow> True) ops"

locale byte_queue =
  fixes inv :: "'q \<Rightarrow> bool" and content :: "'q \<Rightarrow> byte list"
    and put :: "byte list \<Rightarrow> 'q \<Rightarrow> 'q res"
    and get :: "size_t \<Rightarrow> 'q \<Rightarrow> (byte list \<times> 'q) res"
    and skip :: "size_t \<Rightarrow> 'q \<Rightarrow> 'q res" and used :: "'q \<Rightarrow> nat"
  assumes put_law: "inv q \<Longrightarrow> length xs \<le> max_size \<Longrightarrow> put xs q = Inr q' \<Longrightarrow>
      inv q' \<and> content q' = content q @ xs"
    and put_total: "inv q \<Longrightarrow> used q + length xs \<le> max_size \<Longrightarrow>
      \<exists>q'. put xs q = Inr q' \<and> used q' \<le> used q + length xs"
    and get_law: "inv q \<Longrightarrow> unat n \<le> length (content q) \<Longrightarrow>
      \<exists>q'. get n q = Inr (take (unat n) (content q), q') \<and> inv q' \<and>
        content q' = drop (unat n) (content q) \<and> used q' \<le> used q"
    and get_fails: "inv q \<Longrightarrow> length (content q) < unat n \<Longrightarrow> \<exists>e. get n q = Inl e"
    and skip_law: "inv q \<Longrightarrow> unat n \<le> length (content q) \<Longrightarrow>
      \<exists>q'. skip n q = Inr q' \<and> inv q' \<and> content q' = drop (unat n) (content q)"
begin

lemma get_result:
  assumes "inv q" "get n q = Inr (xs, q')"
  shows "inv q' \<and> content q = xs @ content q'"
  using get_law [OF assms(1), of n] get_fails [OF assms(1), of n] assms(2)
  by (cases "unat n \<le> length (content q)") auto

text \<open>First in, first out, for any run of puts and gets.\<close>

lemma run_fifo:
  "inv q \<Longrightarrow> puts_bounded ops \<Longrightarrow> run_queue put get ops q = Inr (out, q') \<Longrightarrow>
   inv q' \<and> content q @ bytes_put ops = out @ content q'"
proof (induction ops arbitrary: q out)
  case Nil
  then show ?case by simp
next
  case (Cons op ops)
  show ?case
  proof (cases op)
    case (Put xs)
    with Cons.prems obtain q1 where "put xs q = Inr q1" "run_queue put get ops q1 = Inr (out, q')"
      and "length xs \<le> max_size" "puts_bounded ops"
      by (auto simp: bindr_eq_Inr puts_bounded_def)
    with put_law [OF Cons.prems(1)] Cons.IH [of q1 out] Put show ?thesis by auto
  next
    case (Get n)
    with Cons.prems obtain xs q1 ys where g: "get n q = Inr (xs, q1)"
      and "run_queue put get ops q1 = Inr (ys, q')" "out = xs @ ys" "puts_bounded ops"
      by (auto simp: bindr_eq_Inr puts_bounded_def)
    with get_result [OF Cons.prems(1) g] Cons.IH [of q1 ys] Get show ?thesis by auto
  qed
qed

text \<open>A run whose gets find their bytes goes through, within the size a vector can have.\<close>

lemma run_total:
  "inv q \<Longrightarrow> used q + length (bytes_put ops) \<le> max_size \<Longrightarrow> gets_fit (length (content q)) ops \<Longrightarrow>
   \<exists>out q'. run_queue put get ops q = Inr (out, q')"
proof (induction ops arbitrary: q)
  case Nil
  then show ?case by simp
next
  case (Cons op ops)
  show ?case
  proof (cases op)
    case (Put xs)
    with Cons.prems put_total [of q xs] obtain q1 where
      q1: "put xs q = Inr q1" "used q1 \<le> used q + length xs" by auto
    moreover have "inv q1 \<and> content q1 = content q @ xs"
      using put_law [OF Cons.prems(1) _ q1(1)] Cons.prems(2) Put by simp
    ultimately have "\<exists>out q'. run_queue put get ops q1 = Inr (out, q')"
      using Cons.prems Put by (intro Cons.IH) auto
    with q1 Put show ?thesis by simp
  next
    case (Get n)
    with Cons.prems get_law [OF Cons.prems(1), of n] obtain q1 where
      q1: "get n q = Inr (take (unat n) (content q), q1)" "inv q1" "used q1 \<le> used q"
        "content q1 = drop (unat n) (content q)" by auto
    then have "\<exists>out q'. run_queue put get ops q1 = Inr (out, q')"
      using Cons.prems Get by (intro Cons.IH) auto
    with q1 Get show ?thesis by auto
  qed
qed

end

lemma retrieveAsString_fails:
  "buf_inv b \<Longrightarrow> length (contents b) < unat n \<Longrightarrow> \<exists>e. retrieveAsString n b = Inl e"
  by (simp add: retrieveAsString_def buf_simps)

definition buf_used :: "buffer \<Rightarrow> nat" where
  "buf_used b = max 8 (unat (writerIndex b))"

interpretation bq: byte_queue buf_inv contents append_bytes retrieveAsString retrieve buf_used
proof unfold_locales
  fix q q' xs assume "buf_inv q" "length xs \<le> max_size" "append_bytes xs q = Inr q'"
  then show "buf_inv q' \<and> contents q' = contents q @ xs" by (rule append_bytes_cases)
next
  fix q and xs :: "byte list" assume "buf_inv q" "buf_used q + length xs \<le> max_size"
  with append_bytes_spec [of q xs]
  show "\<exists>q'. append_bytes xs q = Inr q' \<and> buf_used q' \<le> buf_used q + length xs"
    by (fastforce simp: buf_used_def)
next
  fix q and n :: size_t assume "buf_inv q" "unat n \<le> length (contents q)"
  from retrieveAsString_spec [OF this]
  show "\<exists>q'. retrieveAsString n q = Inr (take (unat n) (contents q), q') \<and>
      buf_inv q' \<and> contents q' = drop (unat n) (contents q) \<and> buf_used q' \<le> buf_used q"
    by (fastforce simp: buf_used_def)
next
  fix q and n :: size_t assume "buf_inv q" "length (contents q) < unat n"
  then show "\<exists>e. retrieveAsString n q = Inl e" by (rule retrieveAsString_fails)
next
  fix q and n :: size_t assume "buf_inv q" "unat n \<le> length (contents q)"
  from retrieve_spec [OF this]
  show "\<exists>q'. retrieve n q = Inr q' \<and> buf_inv q' \<and> contents q' = drop (unat n) (contents q)"
    by blast
qed

section \<open>Properties of the buffer\<close>

text \<open>A buffer with two readable bytes, for the witnesses.\<close>

definition sample_buffer :: buffer where
  "sample_buffer = \<lparr>buf_mem = [0,0,0,0,0,0,0,0,0,0,72,105,0,0,0,0], readerIndex = 10, writerIndex = 12\<rparr>"

lemma sample_buffer_inv: "buf_inv sample_buffer"
  by (simp add: sample_buffer_def buf_inv_def max_size_def)

lemma sample_buffer_contents: "contents sample_buffer = [72, 105]"
  by (simp add: sample_buffer_def contents_def region_def between_def)

lemma sample_buffer_prependable: "unat (prependableBytes sample_buffer) = 10"
  by (simp add: sample_buffer_def prependableBytes_def)

lemma sample_buffer_used: "buf_used sample_buffer = 12"
  by (simp add: sample_buffer_def buf_used_def)

text \<open>C21: \<open>makeSpace\<close>, called as \<open>ensureWritableBytes\<close> calls it, keeps the readable bytes
  and makes the room asked for.  Neither of its assertions fails; it leaves the vector's size alone
  when the free bytes before and behind the readable ones suffice, and the only way it fails is a
  vector larger than \<open>max_size\<close>.\<close>

theorem makeSpace_safe:
  assumes "buf_inv b" "writableBytes b < n" "unat n \<le> max_size"
  shows "(\<exists>b'. makeSpace n b = Inr b' \<and> buf_inv b' \<and> contents b' = contents b \<and>
      unat n \<le> unat (writableBytes b') \<and>
      length (buf_mem b') = (if must_grow n b then unat (writerIndex b) + unat n else length (buf_mem b))) \<or>
    (must_grow n b \<and> max_size < unat (writerIndex b) + unat n \<and> makeSpace n b = Inl Length_Error)"
  using makeSpace_compact [OF assms] makeSpace_grow [OF assms] makeSpace_fails [OF assms(1,3)]
  by (cases "must_grow n b"; cases "unat (writerIndex b) + unat n \<le> max_size") auto

theorem makeSpace_safe_witness:
  "(\<exists>b'. makeSpace 6 sample_buffer = Inr b' \<and> contents b' = [72, 105] \<and> length (buf_mem b') = 16) \<and>
   (\<exists>b'. makeSpace 7 sample_buffer = Inr b' \<and> contents b' = [72, 105] \<and> length (buf_mem b') = 19)"
proof -
  have w: "writableBytes sample_buffer = 4" "must_grow 7 sample_buffer" "\<not> must_grow 6 sample_buffer"
    "writerIndex sample_buffer = 12" "length (buf_mem sample_buffer) = 16"
    by (simp_all add: sample_buffer_def writableBytes_def buffer_size_def must_grow_def
          prependableBytes_def kCheapPrepend_def)
  show ?thesis
    using makeSpace_safe [OF sample_buffer_inv, of 6] makeSpace_safe [OF sample_buffer_inv, of 7] w
    by (auto simp: sample_buffer_contents max_size_def)
qed

text \<open>C10: a queue of bytes.  Any run of appends and \<open>retrieveAsString\<close>s whose
  retrieves ask for no more than is readable goes through, within the size of a vector, and
  delivers the bytes in the order they were appended: what came out, followed by what is still
  readable, is what was readable at first, followed by what was appended.\<close>

theorem buffer_fifo:
  assumes "buf_inv b" "puts_bounded ops"
    and "buf_used b + length (bytes_put ops) \<le> max_size" "gets_fit (length (contents b)) ops"
  shows "\<exists>out b'. run_queue append_bytes retrieveAsString ops b = Inr (out, b') \<and> buf_inv b' \<and>
    contents b @ bytes_put ops = out @ contents b'"
  using bq.run_total [OF assms(1,3,4)] bq.run_fifo [OF assms(1,2)] by blast

theorem buffer_fifo_witness:
  "\<exists>out b'. run_queue append_bytes retrieveAsString [Put [1, 2, 3], Get 4, Put [4], Get 1] sample_buffer
     = Inr (out, b') \<and> buf_inv b' \<and> [72, 105, 1, 2, 3, 4] = out @ contents b'"
  using buffer_fifo [OF sample_buffer_inv, of "[Put [1, 2, 3], Get 4, Put [4], Get 1]"]
  by (simp add: sample_buffer_contents sample_buffer_used puts_bounded_def max_size_def)

text \<open>A message of all four widths, written and read back.\<close>

definition append_message :: "endianness \<Rightarrow> 64 word \<Rightarrow> 32 word \<Rightarrow> 16 word \<Rightarrow> 8 word \<Rightarrow> buffer \<Rightarrow> buffer res" where
  "append_message e x y z w b =
     bindr (appendInt64 e x b) (\<lambda>b. bindr (appendInt32 e y b) (\<lambda>b. bindr (appendInt16 e z b) (appendInt8 w)))"

definition read_message :: "endianness \<Rightarrow> buffer \<Rightarrow> (64 word \<times> 32 word \<times> 16 word \<times> 8 word \<times> buffer) res" where
  "read_message e b =
     bindr (readInt64 e b) (\<lambda>(x, b). bindr (readInt32 e b) (\<lambda>(y, b). bindr (readInt16 e b) (\<lambda>(z, b).
     bindr (readInt8 b) (\<lambda>(w, b). Inr (x, y, z, w, b)))))"

text \<open>C22: integers of all widths round trip through the buffer, on a host of either byte
  order: appended to an empty buffer they lie in it in big-endian order, whatever the host, and
  reading them in the same order returns them and empties the buffer.\<close>

theorem buffer_append_read:
  assumes inv: "buf_inv b" and empty: "contents b = []" and room: "unat (writerIndex b) + 15 \<le> max_size"
  shows "\<exists>b1 b2. append_message e x y z w b = Inr b1 \<and>
    contents b1 = be_bytes 8 x @ be_bytes 4 y @ be_bytes 2 z @ [w] \<and>
    read_message e b1 = Inr (x, y, z, w, b2) \<and> buf_inv b2 \<and> contents b2 = []"
proof -
  obtain b1 where b1: "append_bytes (be_bytes 8 x) b = Inr b1" "buf_inv b1"
      "contents b1 = contents b @ be_bytes 8 x" "unat (writerIndex b1) \<le> unat (writerIndex b) + 8"
    using append_bytes_spec [OF inv, of "be_bytes 8 x"] room by auto
  obtain b2 where b2: "append_bytes (be_bytes 4 y) b1 = Inr b2" "buf_inv b2"
      "contents b2 = contents b1 @ be_bytes 4 y" "unat (writerIndex b2) \<le> unat (writerIndex b1) + 4"
    using append_bytes_spec [OF b1(2), of "be_bytes 4 y"] room b1(4) by auto
  obtain b3 where b3: "append_bytes (be_bytes 2 z) b2 = Inr b3" "buf_inv b3"
      "contents b3 = contents b2 @ be_bytes 2 z" "unat (writerIndex b3) \<le> unat (writerIndex b2) + 2"
    using append_bytes_spec [OF b2(2), of "be_bytes 2 z"] room b1(4) b2(4) by auto
  obtain b4 where b4: "append_bytes [w] b3 = Inr b4" "buf_inv b4" "contents b4 = contents b3 @ [w]"
    using append_bytes_spec [OF b3(2), of "[w]"] room b1(4) b2(4) b3(4) by auto
  have c4: "contents b4 = be_bytes 8 x @ be_bytes 4 y @ be_bytes 2 z @ [w]"
    using b1 b2 b3 b4 empty by simp
  obtain d1 where d1: "readInt64 e b4 = Inr (x, d1)" "buf_inv d1"
    "contents d1 = be_bytes 4 y @ be_bytes 2 z @ [w]" using readInt_spec(1) [OF b4(2) c4] by blast
  obtain d2 where d2: "readInt32 e d1 = Inr (y, d2)" "buf_inv d2"
    "contents d2 = be_bytes 2 z @ [w]" using readInt_spec(2) [OF d1(2,3)] by blast
  obtain d3 where d3: "readInt16 e d2 = Inr (z, d3)" "buf_inv d3" "contents d3 = [w]"
    using readInt_spec(3) [OF d2(2,3)] by blast
  obtain d4 where d4: "readInt8 d3 = Inr (w, d4)" "buf_inv d4" "contents d4 = []"
    using readInt_spec(4) [OF d3(2,3)] by blast
  show ?thesis
    using b1(1) b2(1) b3(1) b4(1) c4 d1(1) d2(1) d3(1) d4
    by (simp add: append_message_def read_message_def append_be appendInt8_def)
qed

lemma new_sample: "buf_inv \<lparr>buf_mem = replicate 24 0, readerIndex = 8, writerIndex = 8\<rparr>"
  by (simp add: buf_inv_def max_size_def)

theorem buffer_append_read_witness:
  "\<exists>b1 b2. append_message Little 1 2 3 4 \<lparr>buf_mem = replicate 24 0, readerIndex = 8, writerIndex = 8\<rparr> = Inr b1 \<and>
    contents b1 = [0, 0, 0, 0, 0, 0, 0, 1, 0, 0, 0, 2, 0, 3, 4] \<and>
    read_message Little b1 = Inr (1, 2, 3, 4, b2)"
proof -
  let ?b = "\<lparr>buf_mem = replicate 24 0, readerIndex = 8, writerIndex = 8\<rparr> :: buffer"
  have "be_bytes 8 (1 :: 64 word) = [0, 0, 0, 0, 0, 0, 0, 1]" "be_bytes 4 (2 :: 32 word) = [0, 0, 0, 2]"
    "be_bytes 2 (3 :: 16 word) = [0, 3]"
    by (simp_all add: be_bytes_def le_bytes_def upt_rec drop_bit_eq_div)
  moreover have "contents ?b = []" by (simp add: contents_def region_def)
  ultimately show ?thesis
    using buffer_append_read [OF new_sample, of Little 1 2 3 4] by (auto simp: max_size_def)
qed

text \<open>The 8 bytes kept free in front take an integer: \<open>prependInt\<close> then
  \<open>readInt\<close> returns it, for every width, and leaves the readable bytes as they were; a
  prepend that does not fit fails its assertion.\<close>

theorem buffer_prepend_read:
  assumes inv: "buf_inv b" and room: "8 \<le> unat (prependableBytes b)"
  shows "(\<exists>b1 b2. prependInt64 e x b = Inr b1 \<and> contents b1 = be_bytes 8 x @ contents b \<and>
      readInt64 e b1 = Inr (x, b2) \<and> buf_inv b2 \<and> contents b2 = contents b) \<and>
    (\<exists>b1 b2. prependInt32 e y b = Inr b1 \<and> readInt32 e b1 = Inr (y, b2) \<and> buf_inv b2 \<and>
      contents b2 = contents b) \<and>
    (\<exists>b1 b2. prependInt16 e z b = Inr b1 \<and> readInt16 e b1 = Inr (z, b2) \<and> buf_inv b2 \<and>
      contents b2 = contents b) \<and>
    prepend (replicate (Suc (unat (prependableBytes b))) 0) b = Inl (Assert_Failed ''Buffer.h:232'')"
proof (intro conjI)
  from prepend_spec [OF inv, of "be_bytes 8 x"] room obtain b1 where
    "prepend (be_bytes 8 x) b = Inr b1" "buf_inv b1" "contents b1 = be_bytes 8 x @ contents b" by auto
  with readInt_spec(1) [of b1 x "contents b" e]
  show "\<exists>b1 b2. prependInt64 e x b = Inr b1 \<and> contents b1 = be_bytes 8 x @ contents b \<and>
      readInt64 e b1 = Inr (x, b2) \<and> buf_inv b2 \<and> contents b2 = contents b" by (auto simp: prepend_be)
  from prepend_spec [OF inv, of "be_bytes 4 y"] room obtain b1 where
    "prepend (be_bytes 4 y) b = Inr b1" "buf_inv b1" "contents b1 = be_bytes 4 y @ contents b" by auto
  with readInt_spec(2) [of b1 y "contents b" e]
  show "\<exists>b1 b2. prependInt32 e y b = Inr b1 \<and> readInt32 e b1 = Inr (y, b2) \<and> buf_inv b2 \<and>
      contents b2 = contents b" by (auto simp: prepend_be)
  from prepend_spec [OF inv, of "be_bytes 2 z"] room obtain b1 where
    "prepend (be_bytes 2 z) b = Inr b1" "buf_inv b1" "contents b1 = be_bytes 2 z @ contents b" by auto
  with readInt_spec(3) [of b1 z "contents b" e]
  show "\<exists>b1 b2. prependInt16 e z b = Inr b1 \<and> readInt16 e b1 = Inr (z, b2) \<and> buf_inv b2 \<and>
      contents b2 = contents b" by (auto simp: prepend_be)
  have "unat (of_nat (Suc (unat (prependableBytes b))) :: size_t) = Suc (unat (prependableBytes b))"
    using buf_invD [OF inv] by (intro unat_of_nat64) (simp add: unat_prependableBytes max_size_def)
  then show "prepend (replicate (Suc (unat (prependableBytes b))) 0) b = Inl (Assert_Failed ''Buffer.h:232'')"
    by (simp add: prepend_def word_le_nat_alt del: of_nat_Suc replicate_Suc)
qed

theorem buffer_prepend_read_witness:
  "\<exists>b1 b2. prependInt32 Big 7 sample_buffer = Inr b1 \<and> readInt32 Big b1 = Inr (7, b2) \<and>
    contents b2 = [72, 105]"
  using buffer_prepend_read [OF sample_buffer_inv, of Big 0 7 0]
  by (auto simp: sample_buffer_contents sample_buffer_prependable)

text \<open>C23: reading a descriptor appends exactly the bytes the kernel delivered to the readable
  ones, whether they fit the vector or spill into the stack buffer (a kernel that fills the
  \<open>iovec\<close>s it was given writes no more than 65536 bytes there), and returns their number; on
  an error the buffer is unchanged and the error number is handed back.\<close>

theorem readFd_appends:
  assumes "buf_inv b" "length data \<le> iov_room b" "unat (writerIndex b) + length data \<le> max_size"
  shows "(\<exists>b'. readFd (Readv_Data data) b = Inr (int (length data), None, b') \<and> buf_inv b' \<and>
      contents b' = contents b @ data) \<and>
    length (drop (unat (writableBytes b)) data) \<le> 65536 \<and>
    readFd (Readv_Error err) b = Inr (-1, Some err, b)"
proof -
  have "length (drop (unat (writableBytes b)) data) \<le> 65536"
    using assms(2) by (simp add: iov_room_def extrabuf_size_def split: if_splits)
  then show ?thesis using readFd_data_spec [OF assms(1,3)] readFd_error by blast
qed

theorem readFd_appends_witness:
  "\<exists>b'. readFd (Readv_Data [1, 2, 3, 4, 5, 6]) sample_buffer = Inr (6, None, b') \<and>
    contents b' = [72, 105, 1, 2, 3, 4, 5, 6]"
proof -
  have "iov_room sample_buffer = 65540" "writerIndex sample_buffer = 12"
    by (simp_all add: iov_room_def iovcnt_def sample_buffer_def writableBytes_def buffer_size_def extrabuf_size_def)
  then show ?thesis
    using readFd_appends [OF sample_buffer_inv, of "[1, 2, 3, 4, 5, 6]"]
    by (auto simp: sample_buffer_contents max_size_def)
qed

text \<open>\<open>findCRLF\<close> and \<open>findEOL\<close> return the first line end among the readable
  bytes, and null exactly when there is none.\<close>

theorem find_line_end:
  assumes "buf_inv b"
  shows "(\<forall>k < length (contents b).
      (findCRLF b = Some (readerIndex b + of_nat k) \<longleftrightarrow>
        prefix [13, 10] (drop k (contents b)) \<and> (\<forall>j < k. \<not> prefix [13, 10] (drop j (contents b)))) \<and>
      (findEOL b = Some (readerIndex b + of_nat k) \<longleftrightarrow>
        contents b ! k = 10 \<and> 10 \<notin> set (take k (contents b)))) \<and>
    (findCRLF b = None \<longleftrightarrow> (\<forall>k < length (contents b). \<not> prefix [13, 10] (drop k (contents b)))) \<and>
    (findEOL b = None \<longleftrightarrow> 10 \<notin> set (contents b))"
  using findCRLF_spec [OF assms] findCRLF_None [OF assms] findEOL_spec [OF assms]
  unfolding kCRLF_def by blast

theorem find_line_end_witness:
  "findCRLF \<lparr>buf_mem = [0, 0, 0, 0, 0, 0, 0, 0, 65, 13, 13, 10], readerIndex = 8, writerIndex = 12\<rparr> = Some 10"
proof -
  let ?b = "\<lparr>buf_mem = [0, 0, 0, 0, 0, 0, 0, 0, 65, 13, 13, 10], readerIndex = 8, writerIndex = 12\<rparr> :: buffer"
  have "buf_inv ?b" by (simp add: buf_inv_def max_size_def)
  then have "2 < length (contents ?b) \<Longrightarrow> findCRLF ?b = Some (readerIndex ?b + of_nat 2) \<longleftrightarrow>
      prefix [13, 10] (drop 2 (contents ?b)) \<and> (\<forall>j < 2. \<not> prefix [13, 10] (drop j (contents ?b)))"
    by (rule find_line_end [THEN conjunct1, rule_format, THEN conjunct1])
  moreover have "contents ?b = [65, 13, 13, 10]" by (simp add: contents_def region_def between_def)
  ultimately show ?thesis by (simp add: less_2_cases_iff all_conj_distrib)
qed

text \<open>\<open>shrink\<close> keeps the readable bytes, moves them behind a fresh
  \<open>kCheapPrepend\<close> and leaves the reserve writable, for less than 2 GB of them.\<close>

theorem shrink_keeps_contents:
  assumes "buf_inv b" "length (contents b) < 2147483648"
    and "length (contents b) + unat reserve + 8 \<le> max_size"
  shows "\<exists>b'. shrink reserve b = Inr b' \<and> buf_inv b' \<and> contents b' = contents b \<and>
    prependableBytes b' = kCheapPrepend \<and> unat reserve \<le> unat (writableBytes b')"
  using assms by (rule shrink_spec)

theorem shrink_keeps_contents_witness:
  "\<exists>b'. shrink 100 sample_buffer = Inr b' \<and> contents b' = [72, 105] \<and> 100 \<le> unat (writableBytes b')"
  using shrink_keeps_contents [OF sample_buffer_inv, of 100]
  by (auto simp: sample_buffer_contents max_size_def)

text \<open>With 2 GB or more readable, \<open>shrink\<close> does not: \<open>toStringPiece\<close>
  truncates the count to a negative \<open>int\<close>, which \<open>append\<close> takes for a huge
  \<open>size_t\<close>, and the resize throws \<open>std::length_error\<close>.\<close>

theorem shrink_truncates:
  assumes "buf_inv b" "2147483648 \<le> length (contents b)" "length (contents b) < 4294967288"
  shows "shrink 0 b = Inl Length_Error"
  using assms by (rule shrink_truncates_lemma)

theorem shrink_truncates_witness:
  "shrink 0 \<lparr>buf_mem = replicate 3000000000 0, readerIndex = 8, writerIndex = 2999999999\<rparr> = Inl Length_Error"
proof -
  let ?b = "\<lparr>buf_mem = replicate 3000000000 0, readerIndex = 8, writerIndex = 2999999999\<rparr> :: buffer"
  have inv: "buf_inv ?b" by (simp add: buf_inv_def max_size_def)
  show ?thesis using length_contents [OF inv] by (intro shrink_truncates [OF inv]) simp_all
qed

end
