(* ===== verification/Format.thy ===== *)
theory Format
  imports Prelude
begin

text \<open>
  The \<open>snprintf\<close> conversions the code uses: \<open>%d\<close>, \<open>%u\<close>, \<open>%02d\<close>,
  \<open>%06d\<close> and \<open>%4d\<close>, with the cut at the size of the target array.  The lemmas are
  that decimal printing is injective and can be read back, which the names of connections and
  the text of timestamps rest on.
\<close>

section \<open>Decimal printing\<close>

definition digit :: "nat \<Rightarrow> char" where
  "digit d = char_of (48 + d)"

fun dec_nat :: "nat \<Rightarrow> string" where
  "dec_nat n = (if n < 10 then [digit n] else dec_nat (n div 10) @ [digit (n mod 10)])"

declare dec_nat.simps [simp del]

definition dec_int :: "int \<Rightarrow> string" where
  "dec_int i = (if i < 0 then CHR ''-'' # dec_nat (nat (- i)) else dec_nat (nat i))"

text \<open>A minimal width: padding with zeros goes behind the sign, with blanks before it.\<close>

definition zero_pad :: "nat \<Rightarrow> int \<Rightarrow> string" where
  "zero_pad w i =
     (let s = dec_nat (nat \<bar>i\<bar>); sign = (if i < 0 then ''-'' else '''')
      in sign @ replicate (w - length sign - length s) CHR ''0'' @ s)"

definition blank_pad :: "nat \<Rightarrow> int \<Rightarrow> string" where
  "blank_pad w i = (let s = dec_int i in replicate (w - length s) CHR '' '' @ s)"

text \<open>\<open>snprintf(buf, size, ...)\<close> writes at most \<open>size - 1\<close> characters and a zero.\<close>

definition snprintf :: "nat \<Rightarrow> string \<Rightarrow> string" where
  "snprintf bufsize s = take (bufsize - 1) s"

section \<open>Reading back\<close>

definition is_digit :: "char \<Rightarrow> bool" where
  "is_digit c \<longleftrightarrow> 48 \<le> (of_char c :: nat) \<and> (of_char c :: nat) \<le> 57"

definition digit_val :: "char \<Rightarrow> nat" where
  "digit_val c = of_char c - 48"

definition val_dec :: "string \<Rightarrow> nat" where
  "val_dec s = foldl (\<lambda>n c. 10 * n + digit_val c) 0 s"

lemma of_char_digit: "d < 10 \<Longrightarrow> of_char (digit d) = 48 + (d :: nat)"
  by (simp add: digit_def of_char_of)

lemma digit_val_digit [simp]: "d < 10 \<Longrightarrow> digit_val (digit d) = d"
  by (simp add: digit_val_def of_char_digit)

lemma is_digit_digit [simp]: "d < 10 \<Longrightarrow> is_digit (digit d)"
  by (simp add: is_digit_def of_char_digit)

lemma not_is_digit [simp]:
  "\<not> is_digit CHR ''#''" "\<not> is_digit CHR ''-''" "\<not> is_digit CHR '':''" "\<not> is_digit CHR ''.''"
  by (simp_all add: is_digit_def)

lemma val_dec_append: "val_dec (s @ [c]) = 10 * val_dec s + digit_val c"
  by (simp add: val_dec_def)

lemma val_dec_dec_nat [simp]: "val_dec (dec_nat n) = n"
proof (induction n rule: dec_nat.induct)
  case (1 n)
  show ?case
  proof (cases "n < 10")
    case True
    then show ?thesis by (simp add: dec_nat.simps [of n] val_dec_def)
  next
    case False
    with 1 show ?thesis by (simp add: dec_nat.simps [of n] val_dec_append)
  qed
qed

lemma dec_nat_inject [simp]: "dec_nat m = dec_nat n \<longleftrightarrow> m = n"
  by (metis val_dec_dec_nat)

lemma dec_nat_digits: "c \<in> set (dec_nat n) \<Longrightarrow> is_digit c"
proof (induction n rule: dec_nat.induct)
  case (1 n)
  then show ?case by (cases "n < 10") (auto simp: dec_nat.simps [of n])
qed

lemma dec_nat_not_Nil [simp]: "dec_nat n \<noteq> []"
  by (simp add: dec_nat.simps [of n])

lemma length_dec_nat_le: "n < 10 ^ k \<Longrightarrow> 0 < k \<Longrightarrow> length (dec_nat n) \<le> k"
proof (induction k arbitrary: n)
  case 0
  then show ?case by simp
next
  case (Suc k)
  show ?case
  proof (cases "n < 10")
    case True
    then show ?thesis by (simp add: dec_nat.simps [of n])
  next
    case False
    then have "0 < k" using Suc.prems(1) by (cases k) auto
    moreover have "n div 10 < 10 ^ k" using Suc.prems(1) by (simp add: less_mult_imp_div_less mult.commute)
    ultimately have "length (dec_nat (n div 10)) \<le> k" by (intro Suc.IH)
    with False show ?thesis by (simp add: dec_nat.simps [of n])
  qed
qed

lemma val_dec_replicate_zero: "val_dec (replicate k CHR ''0'' @ s) = val_dec s"
  by (induction k) (simp_all add: val_dec_def digit_val_def)

lemma zero_pad_nonneg:
  "0 \<le> i \<Longrightarrow> zero_pad w i = replicate (w - length (dec_nat (nat i))) CHR ''0'' @ dec_nat (nat i)"
  by (simp add: zero_pad_def Let_def)

lemma val_dec_zero_pad: "0 \<le> i \<Longrightarrow> val_dec (zero_pad w i) = nat i"
  by (simp add: zero_pad_nonneg val_dec_replicate_zero)

lemma length_zero_pad:
  assumes "0 \<le> i" "i < 10 ^ w" "0 < w"
  shows "length (zero_pad w i) = w"
proof -
  have "nat i < 10 ^ w" using assms by (simp add: nat_less_iff)
  then have "length (dec_nat (nat i)) \<le> w" using assms(3) by (rule length_dec_nat_le)
  then show ?thesis using assms by (simp add: zero_pad_nonneg)
qed

text \<open>A separator that is no digit splits a printed number off.\<close>

lemma takeWhile_digits:
  "\<not> is_digit c \<Longrightarrow> takeWhile is_digit (dec_nat n @ c # s) = dec_nat n"
  by (simp add: takeWhile_append dec_nat_digits)

lemma dropWhile_digits:
  "\<not> is_digit c \<Longrightarrow> dropWhile is_digit (dec_nat n @ c # s) = c # s"
  by (simp add: dropWhile_append dec_nat_digits)

lemma snprintf_fits [simp]: "length s < n \<Longrightarrow> snprintf n s = s"
  by (simp add: snprintf_def)

end
