(* ===== verification/Timestamp.thy ===== *)
theory Timestamp
  imports Format "HOL-Library.Signed_Division"
begin

text \<open>
  \<open>base/Timestamp.h\<close> and \<open>base/Timestamp.cc\<close>: microseconds since the epoch as an
  \<open>int64_t\<close>, with the arithmetic on \<open>double\<close> seconds that timers use.  A finite
  \<open>double\<close> is its significand and exponent; a product or quotient is rounded to 53 bits,
  ties to even, as IEEE 754 prescribes (subnormal results, infinities and NaN do not occur for
  the delays of the code and have no model).  C's integer division truncates towards zero
  (\<open>sdiv\<close>, \<open>smod\<close>).
\<close>

section \<open>The class\<close>

datatype timestamp = Timestamp (microSecondsSinceEpoch: int)

definition to_int64 :: "int \<Rightarrow> int" where
  "to_int64 i = signed_take_bit 63 i"

lemma to_int64_id [simp]: "- 9223372036854775808 \<le> i \<Longrightarrow> i < 9223372036854775808 \<Longrightarrow> to_int64 i = i"
  by (simp add: to_int64_def signed_take_bit_int_eq_self)

definition kMicroSecondsPerSecond :: int where
  "kMicroSecondsPerSecond = 1000 * 1000"

definition ts_default :: timestamp where
  "ts_default = Timestamp 0"

definition ts_valid :: "timestamp \<Rightarrow> bool" where
  "ts_valid t \<longleftrightarrow> microSecondsSinceEpoch t > 0"

definition ts_invalid :: timestamp where
  "ts_invalid = ts_default"

definition ts_swap :: "timestamp \<Rightarrow> timestamp \<Rightarrow> timestamp \<times> timestamp" where
  "ts_swap this that = (that, this)"

definition secondsSinceEpoch :: "timestamp \<Rightarrow> int" where
  "secondsSinceEpoch t = microSecondsSinceEpoch t sdiv kMicroSecondsPerSecond"

definition fromUnixTime :: "int \<Rightarrow> int \<Rightarrow> timestamp" where
  "fromUnixTime t microseconds = Timestamp (to_int64 (t * kMicroSecondsPerSecond + microseconds))"

text \<open>What \<open>gettimeofday\<close> stored in \<open>tv\<close> is the argument.\<close>

definition ts_now :: "int \<Rightarrow> int \<Rightarrow> timestamp" where
  "ts_now tv_sec tv_usec = Timestamp (to_int64 (tv_sec * kMicroSecondsPerSecond + tv_usec))"

text \<open>
  \<open>operator<\<close> and \<open>operator==\<close>; \<open>boost::less_than_comparable\<close> derives the
  other operators from the first.
\<close>

definition ts_less :: "timestamp \<Rightarrow> timestamp \<Rightarrow> bool" where
  "ts_less lhs rhs \<longleftrightarrow> microSecondsSinceEpoch lhs < microSecondsSinceEpoch rhs"

definition ts_equal :: "timestamp \<Rightarrow> timestamp \<Rightarrow> bool" where
  "ts_equal lhs rhs \<longleftrightarrow> microSecondsSinceEpoch lhs = microSecondsSinceEpoch rhs"

instantiation timestamp :: linorder
begin

definition less_timestamp :: "timestamp \<Rightarrow> timestamp \<Rightarrow> bool" where
  "less_timestamp a b = ts_less a b"

definition less_eq_timestamp :: "timestamp \<Rightarrow> timestamp \<Rightarrow> bool" where
  "less_eq_timestamp a b = (\<not> ts_less b a)"

instance
  by standard (auto simp: less_timestamp_def less_eq_timestamp_def ts_less_def timestamp.expand)

end

lemma ts_less_simps [simp]:
  "Timestamp a < Timestamp b \<longleftrightarrow> a < b" "Timestamp a \<le> Timestamp b \<longleftrightarrow> a \<le> b"
  by (auto simp: less_timestamp_def less_eq_timestamp_def ts_less_def)

lemma ts_equal_eq: "ts_equal a b \<longleftrightarrow> a = b"
  by (auto simp: ts_equal_def timestamp.expand)

section \<open>Doubles\<close>

datatype dbl = Dbl int int   \<comment> \<open>\<open>Dbl m e\<close> is m times 2 to the e\<close>

fun bit_length :: "nat \<Rightarrow> nat" where
  "bit_length n = (if n = 0 then 0 else Suc (bit_length (n div 2)))"

declare bit_length.simps [simp del]

text \<open>Rounding a significand of any length to 53 bits, ties to even.\<close>

fun round53 :: "dbl \<Rightarrow> dbl" where
  "round53 (Dbl m e) =
     (let a = nat \<bar>m\<bar>; b = bit_length a
      in if b \<le> 53 then Dbl m e
         else let s = b - 53; q = a div 2 ^ s; r = a mod 2 ^ s;
                  up = 2 * r > 2 ^ s \<or> (2 * r = 2 ^ s \<and> odd q)
              in Dbl (sgn m * int (if up then q + 1 else q)) (e + int s))"

definition int_to_dbl :: "int \<Rightarrow> dbl" where
  "int_to_dbl i = round53 (Dbl i 0)"

fun dbl_mul_int :: "dbl \<Rightarrow> int \<Rightarrow> dbl" where
  "dbl_mul_int (Dbl m e) k = round53 (Dbl (m * k) e)"

text \<open>A quotient to well over 53 bits, with a last bit that says whether more follows.\<close>

fun dbl_div_int :: "dbl \<Rightarrow> int \<Rightarrow> dbl" where
  "dbl_div_int (Dbl m e) k =
     (let a = \<bar>m\<bar> * 2 ^ 128; q = a div \<bar>k\<bar>; sticky = (if a mod \<bar>k\<bar> = 0 then 0 else 1)
      in round53 (Dbl (sgn m * sgn k * (2 * q + sticky)) (e - 129)))"

text \<open>\<open>static_cast<int64_t>\<close> truncates towards zero.\<close>

fun dbl_to_int64 :: "dbl \<Rightarrow> int" where
  "dbl_to_int64 (Dbl m e) =
     to_int64 (if 0 \<le> e then m * 2 ^ nat e else sgn m * (\<bar>m\<bar> div 2 ^ nat (- e)))"

fun dbl_pos :: "dbl \<Rightarrow> bool" where
  "dbl_pos (Dbl m e) \<longleftrightarrow> m > 0"

definition timeDifference :: "timestamp \<Rightarrow> timestamp \<Rightarrow> dbl" where
  "timeDifference high low =
     (let diff = to_int64 (microSecondsSinceEpoch high - microSecondsSinceEpoch low)
      in dbl_div_int (int_to_dbl diff) kMicroSecondsPerSecond)"

definition addTime :: "timestamp \<Rightarrow> dbl \<Rightarrow> timestamp" where
  "addTime t seconds =
     (let delta = dbl_to_int64 (dbl_mul_int seconds kMicroSecondsPerSecond)
      in Timestamp (to_int64 (microSecondsSinceEpoch t + delta)))"

section \<open>Text\<close>

definition toString :: "timestamp \<Rightarrow> string" where
  "toString t =
     (let seconds = microSecondsSinceEpoch t sdiv kMicroSecondsPerSecond;
          microseconds = microSecondsSinceEpoch t smod kMicroSecondsPerSecond
      in snprintf 31 (dec_int seconds @ ''.'' @ zero_pad 6 microseconds))"

text \<open>\<open>gmtime_r\<close> of the C library is a parameter.\<close>

record tm =
  tm_year :: int
  tm_mon :: int
  tm_mday :: int
  tm_hour :: int
  tm_min :: int
  tm_sec :: int

definition toFormattedString :: "(int \<Rightarrow> tm) \<Rightarrow> timestamp \<Rightarrow> bool \<Rightarrow> string" where
  "toFormattedString gmtime t showMicroseconds =
     (let seconds = microSecondsSinceEpoch t sdiv kMicroSecondsPerSecond;
          tm_time = gmtime seconds;
          date = blank_pad 4 (tm_year tm_time + 1900) @ zero_pad 2 (tm_mon tm_time + 1) @
                 zero_pad 2 (tm_mday tm_time) @ '' '' @ zero_pad 2 (tm_hour tm_time) @ '':'' @
                 zero_pad 2 (tm_min tm_time) @ '':'' @ zero_pad 2 (tm_sec tm_time)
      in if showMicroseconds
         then let microseconds = to_int32 (microSecondsSinceEpoch t smod kMicroSecondsPerSecond)
              in snprintf 32 (date @ ''.'' @ zero_pad 6 microseconds)
         else snprintf 32 date)"

section \<open>Lemmas\<close>

lemma kMicro [simp]: "kMicroSecondsPerSecond = 1000000"
  by (simp add: kMicroSecondsPerSecond_def)

lemma sdiv_smod_nonneg:
  assumes "0 \<le> i" "0 < k"
  shows "i sdiv k = i div k" "i smod k = i mod (k :: int)"
proof -
  have "sgn i * \<bar>i\<bar> = i" by (rule mult_sgn_abs)
  with assms show "i sdiv k = i div k" "i smod k = i mod k"
    by (cases "i = 0"; simp add: signed_divide_int_def signed_modulo_int_def sgn_if
      minus_div_mult_eq_mod [symmetric])+
qed

lemma bit_length_le: "n < 2 ^ k \<Longrightarrow> bit_length n \<le> k"
proof (induction n arbitrary: k rule: bit_length.induct)
  case (1 n)
  show ?case
  proof (cases "n = 0")
    case False
    with 1 obtain j where "k = Suc j" by (cases k) auto
    with 1 False show ?thesis by (simp add: bit_length.simps [of n] less_mult_imp_div_less mult.commute)
  qed (simp add: bit_length.simps)
qed

lemma round53_exact: "\<bar>m\<bar> < 2 ^ 53 \<Longrightarrow> round53 (Dbl m e) = Dbl m e"
  using bit_length_le [of "nat \<bar>m\<bar>" 53] by (simp add: Let_def nat_less_iff)

text \<open>Delays whose microseconds have at most 53 bits are added exactly.\<close>

lemma addTime_exact:
  assumes "\<bar>m * 1000000\<bar> < 2 ^ 53"
  shows "addTime t (Dbl m e) = Timestamp (to_int64 (microSecondsSinceEpoch t +
    to_int64 (if 0 \<le> e then m * 1000000 * 2 ^ nat e else sgn m * (\<bar>m * 1000000\<bar> div 2 ^ nat (- e)))))"
  using round53_exact [OF assms] by (simp add: addTime_def sgn_mult del: round53.simps)

lemma toString_nonneg:
  assumes "0 \<le> microSecondsSinceEpoch t" "microSecondsSinceEpoch t < 9223372036854775808"
  shows "toString t = dec_nat (nat (microSecondsSinceEpoch t div 1000000)) @ CHR ''.'' #
    zero_pad 6 (microSecondsSinceEpoch t mod 1000000)"
proof -
  let ?i = "microSecondsSinceEpoch t"
  have "?i div 1000000 < 10 ^ 13" using assms(2) by simp
  then have "nat (?i div 1000000) < 10 ^ 13" by (simp add: nat_less_iff)
  then have "length (dec_nat (nat (?i div 1000000))) \<le> 13" by (rule length_dec_nat_le) simp
  moreover have "length (zero_pad 6 (?i mod 1000000)) = 6" by (rule length_zero_pad) simp_all
  moreover have "0 \<le> ?i div 1000000" using assms(1) by (simp add: pos_imp_zdiv_nonneg_iff)
  ultimately show ?thesis
    using assms by (simp add: toString_def sdiv_smod_nonneg dec_int_def Let_def)
qed

section \<open>Properties\<close>

text \<open>C25: the text of a timestamp that is not before the epoch is its seconds, a point and
  six digits of microseconds: reading both numbers gives the timestamp back, and the array of the
  code is never too small.\<close>

theorem toString_roundtrip:
  assumes "0 \<le> microSecondsSinceEpoch t" "microSecondsSinceEpoch t < 9223372036854775808"
  shows "int (val_dec (takeWhile is_digit (toString t))) * 1000000 +
      int (val_dec (tl (dropWhile is_digit (toString t)))) = microSecondsSinceEpoch t \<and>
    length (tl (dropWhile is_digit (toString t))) = 6 \<and> length (toString t) < 31"
proof -
  let ?i = "microSecondsSinceEpoch t"
  have "nat (?i div 1000000) < 10 ^ 13" using assms(2) by (simp add: nat_less_iff)
  then have "length (dec_nat (nat (?i div 1000000))) \<le> 13" by (rule length_dec_nat_le) simp
  moreover have "length (zero_pad 6 (?i mod 1000000)) = 6" by (rule length_zero_pad) simp_all
  moreover have "0 \<le> ?i div 1000000" using assms(1) by (simp add: pos_imp_zdiv_nonneg_iff)
  ultimately show ?thesis
    using assms by (simp add: toString_nonneg takeWhile_digits dropWhile_digits val_dec_zero_pad)
qed

theorem toString_roundtrip_witness:
  "int (val_dec (takeWhile is_digit (toString (Timestamp 1500000000000042)))) * 1000000 +
     int (val_dec (tl (dropWhile is_digit (toString (Timestamp 1500000000000042))))) = 1500000000000042"
  using toString_roundtrip [of "Timestamp 1500000000000042"] by simp

end
