(* ===== verification/Channel.thy ===== *)
theory Channel
  imports Timestamp
begin

unbundle bit_operations_syntax

text \<open>
  \<open>net/Channel.h\<close> and \<open>net/Channel.cc\<close>: the state of a channel, the dispatch of its
  events and their text.  Channels live in a heap and are named by addresses (\<open>cid\<close>); a state
  of the program is a record that extends \<open>heap\<close>, so every operation here works on the state
  of each later component.  A callback is a value of the type parameter \<open>'f\<close>, and
  \<open>exec\<close> runs one in the current state.  The operations of a channel that call its loop
  (\<open>update\<close>, \<open>remove\<close> and what uses them) are in theory \<open>EventLoop\<close>.  The
  texts \<open>handleEvent\<close> prints to \<open>std::cout\<close> and \<open>std::cerr\<close> have no model.
\<close>

section \<open>Events\<close>

text \<open>The constants of \<open><poll.h>\<close>; \<open>epoll\<close> uses the same values.\<close>

definition POLLIN :: mask where "POLLIN = 1"
definition POLLPRI :: mask where "POLLPRI = 2"
definition POLLOUT :: mask where "POLLOUT = 4"
definition POLLERR :: mask where "POLLERR = 8"
definition POLLHUP :: mask where "POLLHUP = 16"
definition POLLNVAL :: mask where "POLLNVAL = 32"
definition POLLRDHUP :: mask where "POLLRDHUP = 8192"

definition kNoneEvent :: mask where
  "kNoneEvent = 0"

definition kReadEvent :: mask where
  "kReadEvent = POLLIN OR POLLPRI"

definition kWriteEvent :: mask where
  "kWriteEvent = POLLOUT"

definition has :: "mask \<Rightarrow> mask \<Rightarrow> bool" where
  "has m bits \<longleftrightarrow> m AND bits \<noteq> 0"

section \<open>The class and the heap\<close>

type_synonym cid = nat
type_synonym objid = nat

record 'f channel =
  ch_loop :: nat
  ch_fd :: int
  ch_events :: mask
  ch_revents :: mask
  ch_index :: int
  logHup :: bool
  tie_ptr :: "objid option"
  tied :: bool
  ch_eventHandling :: bool
  addedToLoop :: bool
  readCallback :: "'f option"
  writeCallback :: "'f option"
  closeCallback :: "'f option"
  errorCallback :: "'f option"

text \<open>The channels that exist, and how many \<open>shared_ptr\<close>s hold each owner object.\<close>

record 'f heap =
  chans :: "cid \<Rightarrow> 'f channel option"
  use_count :: "objid \<Rightarrow> nat"

definition new_Channel :: "nat \<Rightarrow> int \<Rightarrow> 'f channel" where
  "new_Channel loop fd =
     \<lparr> ch_loop = loop, ch_fd = fd, ch_events = 0, ch_revents = 0, ch_index = - 1, logHup = True,
       tie_ptr = None, tied = False, ch_eventHandling = False, addedToLoop = False,
       readCallback = None, writeCallback = None, closeCallback = None, errorCallback = None \<rparr>"

definition chan :: "cid \<Rightarrow> ('f, 'm) heap_scheme \<Rightarrow> 'f channel res" where
  "chan c s = (case chans s c of None \<Rightarrow> Inl Use_After_Free | Some ch \<Rightarrow> Inr ch)"

definition put_chan :: "cid \<Rightarrow> 'f channel \<Rightarrow> ('f, 'm) heap_scheme \<Rightarrow> ('f, 'm) heap_scheme" where
  "put_chan c ch s = s\<lparr>chans := (chans s)(c \<mapsto> ch)\<rparr>"

definition upd_chan ::
  "cid \<Rightarrow> ('f channel \<Rightarrow> 'f channel) \<Rightarrow> ('f, 'm) heap_scheme \<Rightarrow> ('f, 'm) heap_scheme res" where
  "upd_chan c f s = bindr (chan c s) (\<lambda>ch. Inr (put_chan c (f ch) s))"

definition isNoneEvent :: "'f channel \<Rightarrow> bool" where
  "isNoneEvent ch \<longleftrightarrow> ch_events ch = kNoneEvent"

definition isWriting :: "'f channel \<Rightarrow> bool" where
  "isWriting ch \<longleftrightarrow> has (ch_events ch) kWriteEvent"

definition isReading :: "'f channel \<Rightarrow> bool" where
  "isReading ch \<longleftrightarrow> has (ch_events ch) kReadEvent"

definition set_revents :: "mask \<Rightarrow> 'f channel \<Rightarrow> 'f channel" where
  "set_revents revt ch = ch\<lparr>ch_revents := revt\<rparr>"

definition set_index :: "int \<Rightarrow> 'f channel \<Rightarrow> 'f channel" where
  "set_index idx ch = ch\<lparr>ch_index := idx\<rparr>"

definition doNotLogHup :: "'f channel \<Rightarrow> 'f channel" where
  "doNotLogHup ch = ch\<lparr>logHup := False\<rparr>"

definition setReadCallback :: "'f option \<Rightarrow> 'f channel \<Rightarrow> 'f channel" where
  "setReadCallback cb ch = ch\<lparr>readCallback := cb\<rparr>"

definition setWriteCallback :: "'f option \<Rightarrow> 'f channel \<Rightarrow> 'f channel" where
  "setWriteCallback cb ch = ch\<lparr>writeCallback := cb\<rparr>"

definition setCloseCallback :: "'f option \<Rightarrow> 'f channel \<Rightarrow> 'f channel" where
  "setCloseCallback cb ch = ch\<lparr>closeCallback := cb\<rparr>"

definition setErrorCallback :: "'f option \<Rightarrow> 'f channel \<Rightarrow> 'f channel" where
  "setErrorCallback cb ch = ch\<lparr>errorCallback := cb\<rparr>"

definition ch_tie :: "objid \<Rightarrow> 'f channel \<Rightarrow> 'f channel" where
  "ch_tie obj ch = ch\<lparr>tie_ptr := Some obj, tied := True\<rparr>"

text \<open>The changes of the event mask; \<open>EventLoop\<close> adds the call of \<open>update()\<close>.\<close>

definition with_reading :: "'f channel \<Rightarrow> 'f channel" where
  "with_reading ch = ch\<lparr>ch_events := ch_events ch OR kReadEvent\<rparr>"

definition without_reading :: "'f channel \<Rightarrow> 'f channel" where
  "without_reading ch = ch\<lparr>ch_events := ch_events ch AND NOT kReadEvent\<rparr>"

definition with_writing :: "'f channel \<Rightarrow> 'f channel" where
  "with_writing ch = ch\<lparr>ch_events := ch_events ch OR kWriteEvent\<rparr>"

definition without_writing :: "'f channel \<Rightarrow> 'f channel" where
  "without_writing ch = ch\<lparr>ch_events := ch_events ch AND NOT kWriteEvent\<rparr>"

definition without_events :: "'f channel \<Rightarrow> 'f channel" where
  "without_events ch = ch\<lparr>ch_events := kNoneEvent\<rparr>"

section \<open>Dispatch\<close>

text \<open>
  What a channel makes the program run: a callback, a read callback with the time of the poll,
  or the destructor of an object whose last \<open>shared_ptr\<close> goes away.
\<close>

datatype 'f call = Run 'f | Run_Read 'f timestamp | Destroy objid

type_synonym ('f, 's) runner = "'f call \<Rightarrow> 's \<Rightarrow> 's res"

definition lock_ptr :: "objid \<Rightarrow> ('f, 'm) heap_scheme \<Rightarrow> ('f, 'm) heap_scheme" where
  "lock_ptr obj s = s\<lparr>use_count := (use_count s)(obj := Suc (use_count s obj))\<rparr>"

definition release_ptr ::
  "('f, ('f, 'm) heap_scheme) runner \<Rightarrow> objid \<Rightarrow> ('f, 'm) heap_scheme \<Rightarrow> ('f, 'm) heap_scheme res" where
  "release_ptr exec obj s =
     (let s' = s\<lparr>use_count := (use_count s)(obj := use_count s obj - 1)\<rparr>
      in if use_count s' obj = 0 then exec (Destroy obj) s' else Inr s')"

fun run_opt :: "('f, 's) runner \<Rightarrow> 'f call option \<Rightarrow> 's \<Rightarrow> 's res" where
  "run_opt exec None s = Inr s"
| "run_opt exec (Some k) s = exec k s"

text \<open>
  Each \<open>if\<close> of the code reads \<open>revents_\<close> and the callback from the channel as the
  callbacks before it left them.
\<close>

definition fire ::
  "('f, ('f, 'm) heap_scheme) runner \<Rightarrow> cid \<Rightarrow> (mask \<Rightarrow> bool) \<Rightarrow> ('f channel \<Rightarrow> 'f call option) \<Rightarrow>
   ('f, 'm) heap_scheme \<Rightarrow> ('f, 'm) heap_scheme res" where
  "fire exec c guard cb s =
     bindr (chan c s) (\<lambda>ch. if guard (ch_revents ch) then run_opt exec (cb ch) s else Inr s)"

definition handleEventWithGuard ::
  "('f, ('f, 'm) heap_scheme) runner \<Rightarrow> cid \<Rightarrow> timestamp \<Rightarrow> ('f, 'm) heap_scheme \<Rightarrow>
   ('f, 'm) heap_scheme res" where
  "handleEventWithGuard exec c receiveTime s =
     bindr (upd_chan c (ch_eventHandling_update (\<lambda>_. True)) s) (\<lambda>s.
     bindr (fire exec c (\<lambda>r. has r POLLHUP \<and> \<not> has r POLLIN) (\<lambda>ch. map_option Run (closeCallback ch)) s) (\<lambda>s.
     bindr (fire exec c (\<lambda>r. has r (POLLERR OR POLLNVAL)) (\<lambda>ch. map_option Run (errorCallback ch)) s) (\<lambda>s.
     bindr (fire exec c (\<lambda>r. has r (POLLIN OR POLLPRI OR POLLRDHUP))
              (\<lambda>ch. map_option (\<lambda>f. Run_Read f receiveTime) (readCallback ch)) s) (\<lambda>s.
     bindr (fire exec c (\<lambda>r. has r POLLOUT) (\<lambda>ch. map_option Run (writeCallback ch)) s) (\<lambda>s.
     upd_chan c (ch_eventHandling_update (\<lambda>_. False)) s)))))"

definition handleEvent ::
  "('f, ('f, 'm) heap_scheme) runner \<Rightarrow> cid \<Rightarrow> timestamp \<Rightarrow> ('f, 'm) heap_scheme \<Rightarrow>
   ('f, 'm) heap_scheme res" where
  "handleEvent exec c receiveTime s =
     bindr (chan c s) (\<lambda>ch.
       if tied ch
       then (case tie_ptr ch of
               None \<Rightarrow> Inr s
             | Some obj \<Rightarrow>
                 if use_count s obj = 0 then Inr s
                 else bindr (handleEventWithGuard exec c receiveTime (lock_ptr obj s))
                        (release_ptr exec obj))
       else handleEventWithGuard exec c receiveTime s)"

text \<open>
  \<open>base/WeakCallback.h\<close>: the function is called while a \<open>shared_ptr\<close> holds the object, or, when
  the object is gone, not at all.
\<close>

definition weak_callback ::
  "('f, ('f, 'm) heap_scheme) runner \<Rightarrow> objid \<Rightarrow> (('f, 'm) heap_scheme \<Rightarrow> ('f, 'm) heap_scheme res) \<Rightarrow>
   ('f, 'm) heap_scheme \<Rightarrow> ('f, 'm) heap_scheme res" where
  "weak_callback exec obj f s =
     (if use_count s obj = 0 then Inr s else bindr (f (lock_ptr obj s)) (release_ptr exec obj))"

section \<open>Text\<close>

definition flag_text :: "mask \<Rightarrow> mask \<Rightarrow> string \<Rightarrow> string" where
  "flag_text ev flag txt = (if has ev flag then txt else '''')"

definition eventsToString_of :: "int \<Rightarrow> mask \<Rightarrow> string" where
  "eventsToString_of fd ev =
     dec_int fd @ '': '' @ flag_text ev POLLIN ''IN '' @ flag_text ev POLLPRI ''PRI '' @
     flag_text ev POLLOUT ''OUT '' @ flag_text ev POLLHUP ''HUP '' @
     flag_text ev POLLRDHUP ''RDHUP '' @ flag_text ev POLLERR ''ERR '' @
     flag_text ev POLLNVAL ''NVAL ''"

definition reventsToString :: "'f channel \<Rightarrow> string" where
  "reventsToString ch = eventsToString_of (ch_fd ch) (ch_revents ch)"

definition eventsToString :: "'f channel \<Rightarrow> string" where
  "eventsToString ch = eventsToString_of (ch_fd ch) (ch_events ch)"

section \<open>Lemmas\<close>

named_theorems chan_simps \<open>reading and writing a channel of the heap\<close>

lemma has_zero [simp]: "\<not> has 0 m"
  by (simp add: has_def)

lemma chan_put [chan_simps]: "chan c (put_chan d ch s) = (if d = c then Inr ch else chan c s)"
  by (simp add: chan_def put_chan_def)

lemma chans_put [chan_simps]: "chans (put_chan d ch s) = (chans s)(d \<mapsto> ch)"
  by (simp add: put_chan_def)

lemma use_count_put [chan_simps]: "use_count (put_chan d ch s) = use_count s"
  by (simp add: put_chan_def)

lemma chan_eq_Inr [chan_simps]: "chan c s = Inr ch \<longleftrightarrow> chans s c = Some ch"
  by (auto simp: chan_def split: option.splits)

lemma chan_Some: "chans s c = Some ch \<Longrightarrow> chan c s = Inr ch"
  by (simp add: chan_def)

lemma upd_chan_Some: "chans s c = Some ch \<Longrightarrow> upd_chan c f s = Inr (put_chan c (f ch) s)"
  by (simp add: upd_chan_def chan_Some)

lemma upd_chan_eq_Inr [res_simps]:
  "upd_chan c f s = Inr s' \<longleftrightarrow> (\<exists>ch. chans s c = Some ch \<and> s' = put_chan c (f ch) s)"
  by (auto simp: upd_chan_def res_simps chan_simps)

text \<open>The mask operations and the queries.\<close>

lemmas poll_bits = POLLIN_def POLLPRI_def POLLOUT_def POLLERR_def POLLHUP_def POLLNVAL_def POLLRDHUP_def

lemma has_OR: "has m (a OR b) \<longleftrightarrow> has m a \<or> has m b"
  by (simp add: has_def bit.conj_disj_distrib or_eq_0_iff)

lemma has_exp: "has m (2 ^ n) \<longleftrightarrow> bit m n"
  by (simp add: has_def and_exp_eq_0_iff_not_bit)

lemma has_bits:
  "has m POLLIN = bit m 0" "has m POLLPRI = bit m 1" "has m POLLOUT = bit m 2" "has m POLLERR = bit m 3"
  "has m POLLHUP = bit m 4" "has m POLLNVAL = bit m 5" "has m POLLRDHUP = bit m 13"
  using has_exp [of m 0] has_exp [of m 1] has_exp [of m 2] has_exp [of m 3] has_exp [of m 4]
    has_exp [of m 5] has_exp [of m 13]
  by (simp_all add: poll_bits)

lemma bit_poll:
  "bit POLLIN n \<longleftrightarrow> n = 0" "bit POLLPRI n \<longleftrightarrow> n = 1" "bit POLLOUT n \<longleftrightarrow> n = 2" "bit POLLERR n \<longleftrightarrow> n = 3"
  "bit POLLHUP n \<longleftrightarrow> n = 4" "bit POLLNVAL n \<longleftrightarrow> n = 5"  "bit POLLRDHUP n \<longleftrightarrow> n = 13"
proof -
  have e: "bit (2 ^ k :: mask) n \<longleftrightarrow> n = k" if "k < 32" for k
    using that by (auto simp: bit_exp_iff)
  show "bit POLLIN n \<longleftrightarrow> n = 0" "bit POLLPRI n \<longleftrightarrow> n = 1" "bit POLLOUT n \<longleftrightarrow> n = 2" "bit POLLERR n \<longleftrightarrow> n = 3"
    "bit POLLHUP n \<longleftrightarrow> n = 4" "bit POLLNVAL n \<longleftrightarrow> n = 5"  "bit POLLRDHUP n \<longleftrightarrow> n = 13"
    using e [of 0] e [of 1] e [of 2] e [of 3] e [of 4] e [of 5] e [of 13]
    unfolding poll_bits by (simp_all del: bit_numeral_word_iff)
qed

lemmas mask_simps = isReading_def isWriting_def isNoneEvent_def kReadEvent_def kWriteEvent_def
  kNoneEvent_def has_bits has_OR bit_simps bit_poll

lemma interest_masks [simp]:
  "isReading (with_reading ch)" "isWriting (with_reading ch) = isWriting ch"
  "\<not> isReading (without_reading ch)" "isWriting (without_reading ch) = isWriting ch"
  "isWriting (with_writing ch)" "isReading (with_writing ch) = isReading ch"
  "\<not> isWriting (without_writing ch)" "isReading (without_writing ch) = isReading ch"
  "\<not> isReading (without_events ch)" "\<not> isWriting (without_events ch)" "isNoneEvent (without_events ch)"
  by (simp_all add: with_reading_def without_reading_def with_writing_def without_writing_def
    without_events_def mask_simps)

lemma interest_nonzero [simp]: "\<not> isNoneEvent (with_reading ch)" "\<not> isNoneEvent (with_writing ch)"
  using interest_masks(1,5) [of ch] by (auto simp: isReading_def isWriting_def isNoneEvent_def kNoneEvent_def)

text \<open>What the dispatch reads of a channel, and the calls these say.\<close>

definition hooks :: "'f channel \<Rightarrow> mask \<times> 'f option \<times> 'f option \<times> 'f option \<times> 'f option" where
  "hooks ch = (ch_revents ch, readCallback ch, writeCallback ch, closeCallback ch, errorCallback ch)"

definition guarded :: "bool \<Rightarrow> 'f call option \<Rightarrow> 'f call list" where
  "guarded b k = (if b then (case k of None \<Rightarrow> [] | Some x \<Rightarrow> [x]) else [])"

definition dispatched :: "timestamp \<Rightarrow> 'f channel \<Rightarrow> 'f call list" where
  "dispatched t ch =
     (let r = ch_revents ch in
      guarded (has r POLLHUP \<and> \<not> has r POLLIN) (map_option Run (closeCallback ch)) @
      guarded (has r POLLERR \<or> has r POLLNVAL) (map_option Run (errorCallback ch)) @
      guarded (has r POLLIN \<or> has r POLLPRI \<or> has r POLLRDHUP)
        (map_option (\<lambda>f. Run_Read f t) (readCallback ch)) @
      guarded (has r POLLOUT) (map_option Run (writeCallback ch)))"

lemma dispatched_hooks: "hooks ch = hooks ch' \<Longrightarrow> dispatched t ch = dispatched t ch'"
  by (simp add: dispatched_def hooks_def Let_def)

lemma hooks_set_handling [simp]: "hooks (ch_eventHandling_update f ch) = hooks ch"
  by (simp add: hooks_def)

text \<open>The hooks of channel \<open>c\<close> stay what they are.\<close>

definition hooks_at :: "cid \<Rightarrow> 'f channel \<Rightarrow> ('f, 'm) heap_scheme \<Rightarrow> bool" where
  "hooks_at c ch s \<longleftrightarrow> (\<exists>ch'. chans s c = Some ch' \<and> hooks ch' = hooks ch)"

lemma fire_eq:
  assumes "hooks_at c ch s"
    and "\<And>r ch'. hooks ch' = hooks ch \<Longrightarrow> guard (ch_revents ch') = g \<and> cb ch' = k"
  shows "fire exec c guard cb s = foldr_res exec (guarded g k) s"
  using assms by (auto simp: hooks_at_def fire_def chan_Some guarded_def split: option.splits)

lemma foldr_res_keeps:
  assumes "hooks_at c ch s" "foldr_res exec ks s = Inr s'"
    and "\<And>k s s'. k \<in> set ks \<Longrightarrow> hooks_at c ch s \<Longrightarrow> exec k s = Inr s' \<Longrightarrow> hooks_at c ch s'"
  shows "hooks_at c ch s'"
proof -
  have "foldr_res exec ks s = Inr s' \<longrightarrow> hooks_at c ch s'"
    using assms(1,3) by (induction ks arbitrary: s) (auto simp: res_simps)
  with assms(2) show ?thesis by simp
qed

lemma fire_barring:
  assumes "chans s c = Some ch"
    and "guard (ch_revents ch) \<Longrightarrow> barring E P (run_opt exec (cb ch) s)" and "\<not> guard (ch_revents ch) \<Longrightarrow> P s"
  shows "barring E P (fire exec c guard cb s)"
  using assms by (simp add: fire_def chan_Some)

text \<open>One \<open>if\<close> of the dispatch in front of a continuation that is already a run of calls.\<close>

lemma fire_chain:
  assumes "hooks_at c ch s"
    and "\<And>ch'. hooks ch' = hooks ch \<Longrightarrow> guard (ch_revents ch') = g \<and> cb ch' = k"
    and keeps: "\<And>x s s'. x \<in> set (guarded g k) \<Longrightarrow> hooks_at c ch s \<Longrightarrow> exec x s = Inr s' \<Longrightarrow> hooks_at c ch s'"
    and rest: "\<And>s. hooks_at c ch s \<Longrightarrow> K s = bindr (foldr_res exec ks s) E"
  shows "bindr (fire exec c guard cb s) K = bindr (foldr_res exec (guarded g k @ ks) s) E"
proof -
  have "fire exec c guard cb s = foldr_res exec (guarded g k) s"
    using assms(1,2) by (rule fire_eq)
  moreover have "hooks_at c ch s'" if "foldr_res exec (guarded g k) s = Inr s'" for s'
    using assms(1) that keeps by (rule foldr_res_keeps)
  ultimately show ?thesis
    by (cases "foldr_res exec (guarded g k) s") (simp_all add: rest)
qed

text \<open>Two texts of events: what starts with another letter cannot be confused with a flag.\<close>

definition not_first :: "char \<Rightarrow> string \<Rightarrow> bool" where
  "not_first c s = (case s of [] \<Rightarrow> True | d # _ \<Rightarrow> d \<noteq> c)"

lemma not_first_flag [simp]: "d \<noteq> c \<Longrightarrow> not_first c s \<Longrightarrow> not_first c (flag_text ev p (d # ds) @ s)"
  "d \<noteq> c \<Longrightarrow> not_first c (flag_text ev p (d # ds))"
  by (simp_all add: flag_text_def not_first_def)

lemma flag_text_cancel:
  "not_first c s \<Longrightarrow> not_first c s' \<Longrightarrow>
    flag_text ev p (c # cs) @ s = flag_text ev' p (c # cs) @ s' \<longleftrightarrow> has ev p = has ev' p \<and> s = s'"
  "flag_text ev p (c # cs) = flag_text ev' p (c # cs) \<longleftrightarrow> has ev p = has ev' p"
  by (auto simp: flag_text_def not_first_def split: list.splits)

lemma dec_int_sep:
  assumes "dec_int i @ CHR '':'' # s = dec_int j @ CHR '':'' # s'"
  shows "i = j \<and> s = s'"
proof -
  have eq: "n = m \<and> u = u'" if "dec_nat n @ CHR '':'' # u = dec_nat m @ CHR '':'' # u'" for n m u u'
    using takeWhile_digits [of "CHR '':''" n u] takeWhile_digits [of "CHR '':''" m u'] that by simp
  have nodash': "dec_nat n @ u \<noteq> CHR ''-'' # u'" for n u u'
    using dec_nat_digits [of "CHR ''-''" n] dec_nat_not_Nil [of n] by (cases "dec_nat n") auto
  consider "i < 0" "j < 0" | "i < 0" "0 \<le> j" | "0 \<le> i" "j < 0" | "0 \<le> i" "0 \<le> j" by linarith
  then show ?thesis
  proof cases
    case 1
    then show ?thesis using assms eq [of "nat (- i)" s "nat (- j)" s'] by (auto simp: dec_int_def)
  next
    case 2
    then show ?thesis using assms nodash' by (metis append_Cons dec_int_def not_le)
  next
    case 3
    then show ?thesis using assms nodash' by (metis append_Cons dec_int_def not_le)
  next
    case 4
    then show ?thesis using assms eq [of "nat i" s "nat j" s'] by (auto simp: dec_int_def)
  qed
qed

lemma eventsToString_inject:
  "eventsToString_of fd ev = eventsToString_of fd' ev' \<longleftrightarrow>
    fd = fd' \<and> (\<forall>p \<in> {POLLIN, POLLPRI, POLLOUT, POLLHUP, POLLRDHUP, POLLERR, POLLNVAL}. has ev p = has ev' p)"
proof
  assume "eventsToString_of fd ev = eventsToString_of fd' ev'"
  from dec_int_sep [OF this [unfolded eventsToString_of_def append_Cons]]
  show "fd = fd' \<and> (\<forall>p \<in> {POLLIN, POLLPRI, POLLOUT, POLLHUP, POLLRDHUP, POLLERR, POLLNVAL}. has ev p = has ev' p)"
    by (simp add: flag_text_cancel)
qed (simp add: eventsToString_of_def flag_text_def)

section \<open>Properties\<close>

text \<open>\<open>handleEventWithGuard\<close> runs, in this order, the close callback (on a hang-up without
  readable data), the error callback, the read callback with the time of the poll and the write
  callback, each when its event is reported and it is set, and stops at the first one that
  faults; the flag \<open>eventHandling_\<close> is set exactly while they run.\<close>

theorem dispatch_order:
  fixes s :: "('f, 'm) heap_scheme"
  assumes "chans s c = Some ch"
    and keeps: "\<And>k s s'. k \<in> set (dispatched t ch) \<Longrightarrow> hooks_at c ch s \<Longrightarrow> exec k s = Inr s' \<Longrightarrow> hooks_at c ch s'"
  shows "handleEventWithGuard exec c t s =
    bindr (foldr_res exec (dispatched t ch) (put_chan c (ch\<lparr>ch_eventHandling := True\<rparr>) s))
      (upd_chan c (ch_eventHandling_update (\<lambda>_. False)))"
proof -
  let ?r = "ch_revents ch"
  let ?fin = "upd_chan c (ch_eventHandling_update (\<lambda>_. False)) :: ('f, 'm) heap_scheme \<Rightarrow> _"
  let ?wr = "guarded (has ?r POLLOUT) (map_option Run (writeCallback ch))"
  let ?rd = "guarded (has ?r POLLIN \<or> has ?r POLLPRI \<or> has ?r POLLRDHUP)
    (map_option (\<lambda>f. Run_Read f t) (readCallback ch))"
  let ?err = "guarded (has ?r POLLERR \<or> has ?r POLLNVAL) (map_option Run (errorCallback ch))"
  let ?close = "guarded (has ?r POLLHUP \<and> \<not> has ?r POLLIN) (map_option Run (closeCallback ch))"
  have d: "dispatched t ch = ?close @ ?err @ ?rd @ ?wr @ []" by (simp add: dispatched_def Let_def)
  have s1: "hooks_at c ch (put_chan c (ch\<lparr>ch_eventHandling := True\<rparr>) s)"
    by (simp add: hooks_at_def chan_simps)
  have last: "?fin s = bindr (foldr_res exec [] s) ?fin" for s by simp
  note chain = fire_chain [where c = c and ch = ch and exec = exec and E = ?fin]
  note k = keeps [unfolded d]
  show ?thesis
    unfolding handleEventWithGuard_def upd_chan_Some [OF assms(1)] bindr.simps d
    apply (rule chain [OF s1])
    subgoal by (simp add: hooks_def)
    subgoal by (erule (1) k [rotated]) auto
    apply (rule chain, assumption)
    subgoal by (simp add: hooks_def has_OR)
    subgoal by (erule (1) k [rotated]) auto
    apply (rule chain, assumption)
    subgoal by (simp add: hooks_def has_OR)
    subgoal by (erule (1) k [rotated]) auto
    apply (rule chain, assumption)
    subgoal by (simp add: hooks_def)
    subgoal by (erule (1) k [rotated]) auto
    by (rule last)
qed

definition sample_channel :: "nat channel" where
  "sample_channel = (new_Channel 0 5)\<lparr>ch_revents := POLLIN OR POLLERR OR POLLOUT, readCallback := Some 1,
     writeCallback := Some 2, closeCallback := Some 3, errorCallback := Some 4\<rparr>"

definition sample_heap :: "(nat, nat call list) heap_scheme" where
  "sample_heap = \<lparr>chans = [7 \<mapsto> sample_channel], use_count = \<lambda>_. 0, \<dots> = []\<rparr>"

lemma dispatched_sample: "dispatched t sample_channel = [Run 4, Run_Read 1 t, Run 2]"
  by (simp add: dispatched_def sample_channel_def new_Channel_def guarded_def has_OR has_bits bit_simps
    bit_poll Let_def)

theorem dispatch_order_witness:
  "map_sum id heap.more (handleEventWithGuard (\<lambda>k s. Inr (heap.more_update (\<lambda>l. l @ [k]) s)) 7 (Timestamp 9) sample_heap) =
     Inr [Run 4, Run_Read 1 (Timestamp 9), Run 2]"
proof -
  let ?exec = "\<lambda>k s. Inr (heap.more_update (\<lambda>l. l @ [k]) s)"
  have "handleEventWithGuard ?exec 7 (Timestamp 9) sample_heap =
    bindr (foldr_res ?exec [Run 4, Run_Read 1 (Timestamp 9), Run 2]
       (put_chan 7 (sample_channel\<lparr>ch_eventHandling := True\<rparr>) sample_heap))
      (upd_chan 7 (ch_eventHandling_update (\<lambda>_. False)))"
    by (rule dispatch_order [of sample_heap 7 sample_channel "Timestamp 9", unfolded dispatched_sample])
      (auto simp: hooks_at_def sample_heap_def)
  then show ?thesis
    by (simp add: upd_chan_def chan_def put_chan_def sample_heap_def)
qed

end
