(* ===== verification/EPollPoller.thy ===== *)
theory EPollPoller
  imports Channel
begin

text \<open>
  \<open>net/Poller.h\<close>, \<open>net/Poller.cc\<close> and \<open>net/EPollPoller.cc\<close>: the map from file descriptors to
  channels, the state machine of a channel's index (new, added, deleted) and the calls of
  \<open>epoll_ctl\<close>.  The kernel is outside the code: the calls are recorded in
  \<open>ctl_log\<close>, and \<open>kernel_replay\<close> says what the manual page promises of them.  What
  \<open>epoll_wait\<close> answers is an argument of \<open>poll\<close>.  \<open>PollPoller\<close>, which
  \<open>newDefaultPoller\<close> can also choose, is not among the sources.
\<close>

section \<open>The class\<close>

definition kNew :: int where "kNew = - 1"
definition kAdded :: int where "kAdded = 1"
definition kDeleted :: int where "kDeleted = 2"

definition EPOLL_CTL_ADD :: int where "EPOLL_CTL_ADD = 1"
definition EPOLL_CTL_DEL :: int where "EPOLL_CTL_DEL = 2"
definition EPOLL_CTL_MOD :: int where "EPOLL_CTL_MOD = 3"

text \<open>One call of \<open>epoll_ctl\<close>: operation, descriptor, events and \<open>data.ptr\<close>.\<close>

type_synonym ctl = "int \<times> int \<times> mask \<times> cid"

record 'f poller = "'f heap" +
  pl_channels :: "int \<Rightarrow> cid option"
  event_capacity :: nat
  ctl_log :: "ctl list"

definition kInitEventListSize :: nat where
  "kInitEventListSize = 16"

definition new_EPollPoller :: "'f poller" where
  "new_EPollPoller =
     \<lparr> chans = Map.empty, use_count = \<lambda>_. 0, pl_channels = Map.empty,
       event_capacity = kInitEventListSize, ctl_log = [] \<rparr>"

definition operationToString :: "int \<Rightarrow> string res" where
  "operationToString op =
     (if op = EPOLL_CTL_ADD then Inr ''ADD''
      else if op = EPOLL_CTL_DEL then Inr ''DEL''
      else if op = EPOLL_CTL_MOD then Inr ''MOD''
      else Inl (Assert_Failed ''operationToString''))"

text \<open>The result of \<open>epoll_ctl\<close> only decides what is printed.\<close>

definition ep_update :: "int \<Rightarrow> cid \<Rightarrow> ('f, 'm) poller_scheme \<Rightarrow> ('f, 'm) poller_scheme res" where
  "ep_update operation c s =
     bindr (chan c s) (\<lambda>ch.
     bindr (operationToString operation) (\<lambda>_.
       Inr (s\<lparr>ctl_log := ctl_log s @ [(operation, ch_fd ch, ch_events ch, c)]\<rparr>)))"

definition ep_updateChannel :: "cid \<Rightarrow> ('f, 'm) poller_scheme \<Rightarrow> ('f, 'm) poller_scheme res" where
  "ep_updateChannel c s =
     bindr (chan c s) (\<lambda>ch.
       let index = ch_index ch; fd = ch_fd ch in
       if index = kNew \<or> index = kDeleted
       then bindr (if index = kNew
                   then ensure ''updateChannel: new'' (pl_channels s fd = None)
                          (Inr (s\<lparr>pl_channels := (pl_channels s)(fd \<mapsto> c)\<rparr>))
                   else ensure ''updateChannel: known'' (pl_channels s fd \<noteq> None)
                          (ensure ''updateChannel: same'' (pl_channels s fd = Some c) (Inr s)))
              (\<lambda>s. bindr (upd_chan c (set_index kAdded) s) (ep_update EPOLL_CTL_ADD c))
       else ensure ''updateChannel: known'' (pl_channels s fd \<noteq> None)
              (ensure ''updateChannel: same'' (pl_channels s fd = Some c)
                (ensure ''updateChannel: added'' (index = kAdded)
                  (if isNoneEvent ch
                   then bindr (ep_update EPOLL_CTL_DEL c s) (upd_chan c (set_index kDeleted))
                   else ep_update EPOLL_CTL_MOD c s))))"

definition ep_removeChannel :: "cid \<Rightarrow> ('f, 'm) poller_scheme \<Rightarrow> ('f, 'm) poller_scheme res" where
  "ep_removeChannel c s =
     bindr (chan c s) (\<lambda>ch.
       let fd = ch_fd ch; index = ch_index ch in
       ensure ''removeChannel: known'' (pl_channels s fd \<noteq> None)
        (ensure ''removeChannel: same'' (pl_channels s fd = Some c)
        (ensure ''removeChannel: none'' (isNoneEvent ch)
        (ensure ''removeChannel: index'' (index = kAdded \<or> index = kDeleted)
          (let s = s\<lparr>pl_channels := (pl_channels s)(fd := None)\<rparr>
           in bindr (if index = kAdded then ep_update EPOLL_CTL_DEL c s else Inr s)
                (upd_chan c (set_index kNew)))))))"

definition hasChannel :: "cid \<Rightarrow> ('f, 'm) poller_scheme \<Rightarrow> bool res" where
  "hasChannel c s = bindr (chan c s) (\<lambda>ch. Inr (pl_channels s (ch_fd ch) = Some c))"

text \<open>The answer of \<open>epoll_wait\<close>: the ready events with their \<open>data.ptr\<close>, or \<open>errno\<close>.\<close>

datatype wait_answer = Ready "(mask \<times> cid) list" | Wait_Error int

fun fill_loop ::
  "(mask \<times> cid) list \<Rightarrow> cid list \<Rightarrow> ('f, 'm) poller_scheme \<Rightarrow> (cid list \<times> ('f, 'm) poller_scheme) res" where
  "fill_loop [] active s = Inr (active, s)"
| "fill_loop ((ev, c) # evs) active s =
     bindr (chan c s) (\<lambda>ch.
       ensure ''fillActiveChannels: known'' (pl_channels s (ch_fd ch) \<noteq> None)
        (ensure ''fillActiveChannels: same'' (pl_channels s (ch_fd ch) = Some c)
          (bindr (upd_chan c (set_revents ev) s) (fill_loop evs (active @ [c])))))"

definition fillActiveChannels ::
  "(mask \<times> cid) list \<Rightarrow> cid list \<Rightarrow> ('f, 'm) poller_scheme \<Rightarrow> (cid list \<times> ('f, 'm) poller_scheme) res" where
  "fillActiveChannels evs active s =
     ensure ''fillActiveChannels'' (length evs \<le> event_capacity s) (fill_loop evs active s)"

definition ep_poll ::
  "timestamp \<Rightarrow> wait_answer \<Rightarrow> cid list \<Rightarrow> ('f, 'm) poller_scheme \<Rightarrow>
   (timestamp \<times> cid list \<times> ('f, 'm) poller_scheme) res" where
  "ep_poll now answer active s =
     (case answer of
        Ready evs \<Rightarrow>
          if evs \<noteq> []
          then bindr (fillActiveChannels evs active s) (\<lambda>(active, s).
                 Inr (now, active,
                      if length evs = event_capacity s then s\<lparr>event_capacity := event_capacity s * 2\<rparr> else s))
          else Inr (now, active, s)
      | Wait_Error e \<Rightarrow> Inr (now, active, s))"

section \<open>The kernel's side\<close>

text \<open>
  \<open>epoll_ctl(2)\<close>: adding a registered descriptor fails with \<open>EEXIST\<close>, changing or
  deleting one that is not registered with \<open>ENOENT\<close>; \<open>None\<close> is a failed call.
\<close>

type_synonym interest = "int \<Rightarrow> (mask \<times> cid) option"

fun kernel_ctl :: "ctl \<Rightarrow> interest \<Rightarrow> interest option" where
  "kernel_ctl (op, fd, ev, c) k =
     (if op = EPOLL_CTL_ADD then if k fd = None then Some (k(fd \<mapsto> (ev, c))) else None
      else if op = EPOLL_CTL_MOD then if k fd = None then None else Some (k(fd \<mapsto> (ev, c)))
      else if op = EPOLL_CTL_DEL then if k fd = None then None else Some (k(fd := None))
      else None)"

fun kernel_replay :: "ctl list \<Rightarrow> interest \<Rightarrow> interest option" where
  "kernel_replay [] k = Some k"
| "kernel_replay (x # xs) k = (case kernel_ctl x k of None \<Rightarrow> None | Some k' \<Rightarrow> kernel_replay xs k')"

lemma kernel_replay_snoc:
  "kernel_replay (xs @ [x]) k = (case kernel_replay xs k of None \<Rightarrow> None | Some k' \<Rightarrow> kernel_ctl x k')"
  by (induction xs arbitrary: k) (auto split: option.splits)

text \<open>What the poller believes the kernel watches.\<close>

definition watched :: "('f, 'm) poller_scheme \<Rightarrow> interest" where
  "watched s fd =
     (case pl_channels s fd of
        None \<Rightarrow> None
      | Some c \<Rightarrow> (case chans s c of
                    None \<Rightarrow> None
                  | Some ch \<Rightarrow> if ch_index ch = kAdded then Some (ch_events ch, c) else None))"

lemma watched_cong: "pl_channels s = pl_channels s' \<Longrightarrow> chans s = chans s' \<Longrightarrow> watched s = watched s'"
  by (rule ext) (simp only: watched_def)

text \<open>
  The invariant: every entry of the map is a live channel with that descriptor that is added, or
  deleted with no events; a live channel that is not in the map is new; every call of
  \<open>epoll_ctl\<close> so far succeeded and the kernel watches what the poller believes.
\<close>

definition entry_ok :: "int \<Rightarrow> 'f channel option \<Rightarrow> bool" where
  "entry_ok fd ch \<longleftrightarrow> (\<exists>x. ch = Some x \<and> ch_fd x = fd \<and>
     (ch_index x = kAdded \<or> ch_index x = kDeleted \<and> isNoneEvent x))"

definition poller_ok :: "('f, 'm) poller_scheme \<Rightarrow> bool" where
  "poller_ok s \<longleftrightarrow>
     (\<forall>fd c. pl_channels s fd = Some c \<longrightarrow> entry_ok fd (chans s c)) \<and>
     (\<forall>c ch. chans s c = Some ch \<longrightarrow> pl_channels s (ch_fd ch) = Some c \<or> ch_index ch = kNew) \<and>
     kernel_replay (ctl_log s) Map.empty = Some (watched s) \<and>
     0 < event_capacity s"

section \<open>Lemmas\<close>

lemmas index_defs = kNew_def kAdded_def kDeleted_def
lemmas ctl_defs = EPOLL_CTL_ADD_def EPOLL_CTL_DEL_def EPOLL_CTL_MOD_def

lemma index_distinct [simp]:
  "kNew \<noteq> kAdded" "kAdded \<noteq> kNew" "kNew \<noteq> kDeleted" "kDeleted \<noteq> kNew" "kAdded \<noteq> kDeleted" "kDeleted \<noteq> kAdded"
  by (simp_all add: index_defs)

lemma operationToString_known [simp]:
  "operationToString EPOLL_CTL_ADD = Inr ''ADD''" "operationToString EPOLL_CTL_DEL = Inr ''DEL''"
  "operationToString EPOLL_CTL_MOD = Inr ''MOD''"
  by (simp_all add: operationToString_def ctl_defs)

lemma kernel_ctl_simps [simp]:
  "kernel_ctl (EPOLL_CTL_ADD, fd, ev, c) k = (if k fd = None then Some (k(fd \<mapsto> (ev, c))) else None)"
  "kernel_ctl (EPOLL_CTL_MOD, fd, ev, c) k = (if k fd = None then None else Some (k(fd \<mapsto> (ev, c))))"
  "kernel_ctl (EPOLL_CTL_DEL, fd, ev, c) k = (if k fd = None then None else Some (k(fd := None)))"
  by (simp_all add: ctl_defs)

declare kernel_ctl.simps [simp del]

lemma poller_okD:
  assumes "poller_ok s"
  shows "pl_channels s fd = Some c \<Longrightarrow> entry_ok fd (chans s c)"
    and "chans s c = Some ch \<Longrightarrow> pl_channels s (ch_fd ch) = Some c \<or> ch_index ch = kNew"
    and "kernel_replay (ctl_log s) Map.empty = Some (watched s)"
    and "0 < event_capacity s"
  using assms by (auto simp: poller_ok_def)

lemma poller_ok_index:
  assumes "poller_ok s" "chans s c = Some ch"
  shows "ch_index ch = kNew \<and> pl_channels s (ch_fd ch) \<noteq> Some c \<or>
    ch_index ch = kAdded \<and> pl_channels s (ch_fd ch) = Some c \<or>
    ch_index ch = kDeleted \<and> pl_channels s (ch_fd ch) = Some c \<and> isNoneEvent ch"
  using poller_okD(1) [OF assms(1), of "ch_fd ch" c] poller_okD(2) [OF assms] assms(2)
  by (auto simp: entry_ok_def)

text \<open>The state after \<open>updateChannel\<close>, in one piece.\<close>

definition update_call :: "'f channel \<Rightarrow> int" where
  "update_call ch = (if ch_index ch = kAdded then if isNoneEvent ch then EPOLL_CTL_DEL else EPOLL_CTL_MOD
     else EPOLL_CTL_ADD)"

definition updated :: "cid \<Rightarrow> 'f channel \<Rightarrow> ('f, 'm) poller_scheme \<Rightarrow> ('f, 'm) poller_scheme" where
  "updated c ch s = s\<lparr>
     chans := (chans s)(c \<mapsto> set_index (if ch_index ch = kAdded \<and> isNoneEvent ch then kDeleted else kAdded) ch),
     pl_channels := (pl_channels s)(ch_fd ch \<mapsto> c),
     ctl_log := ctl_log s @ [(update_call ch, ch_fd ch, ch_events ch, c)]\<rparr>"

lemma ep_updateChannel_eq:
  assumes "chans s c = Some ch"
    and "ch_index ch = kNew \<and> pl_channels s (ch_fd ch) = None \<or>
      (ch_index ch = kAdded \<or> ch_index ch = kDeleted) \<and> pl_channels s (ch_fd ch) = Some c"
  shows "ep_updateChannel c s = Inr (updated c ch s)"
proof -
  have triv: "(pl_channels s)(ch_fd ch \<mapsto> c) = pl_channels s" if "pl_channels s (ch_fd ch) = Some c"
    using that by (rule fun_upd_idem)
  have same: "(chans s)(c \<mapsto> ch\<lparr>ch_index := kAdded\<rparr>) = chans s" if "ch_index ch = kAdded"
    using assms(1) that by (intro fun_upd_idem) (cases ch, auto)
  show ?thesis
    using assms
    by (auto simp: ep_updateChannel_def updated_def update_call_def ep_update_def chan_simps chan_Some
      upd_chan_Some put_chan_def triv same Let_def set_index_def isNoneEvent_def)
qed

text \<open>
  A channel whose mask was just changed: the state is right up to that mask.  The descriptor and
  the index are those the poller knows.
\<close>

lemma update_ok:
  assumes ok: "poller_ok s" and ch: "chans s c = Some ch"
    and same: "ch_fd ch' = ch_fd ch" "ch_index ch' = ch_index ch"
    and free: "ch_index ch = kNew \<Longrightarrow> pl_channels s (ch_fd ch) = None"
  shows "ep_updateChannel c (put_chan c ch' s) = Inr (updated c ch' (put_chan c ch' s))"
    and "poller_ok (updated c ch' (put_chan c ch' s))"
proof -
  let ?s = "put_chan c ch' s" and ?fd = "ch_fd ch"
  let ?new = "set_index (if ch_index ch = kAdded \<and> isNoneEvent ch' then kDeleted else kAdded) ch'"
  note idx = poller_ok_index [OF ok ch]
  have reg: "pl_channels s ?fd = None \<or> pl_channels s ?fd = Some c"
    using idx free by auto
  show "ep_updateChannel c ?s = Inr (updated c ch' ?s)"
    using idx free same by (intro ep_updateChannel_eq) (auto simp: put_chan_def)
  have chans': "chans (updated c ch' ?s) = (chans s)(c \<mapsto> ?new)"
    and chs': "pl_channels (updated c ch' ?s) = (pl_channels s)(?fd \<mapsto> c)"
    and log': "ctl_log (updated c ch' ?s) = ctl_log s @ [(update_call ch', ?fd, ch_events ch', c)]"
    and cap': "event_capacity (updated c ch' ?s) = event_capacity s"
    by (simp_all add: updated_def put_chan_def same)
  have other: "pl_channels s fd \<noteq> Some c" if "fd \<noteq> ?fd" for fd
    using poller_okD(1) [OF ok, of fd c] ch that by (auto simp: entry_ok_def)
  have entries: "entry_ok fd (chans (updated c ch' ?s) c')" if "pl_channels (updated c ch' ?s) fd = Some c'" for fd c'
    using that poller_okD(1) [OF ok, of fd c'] other [of fd] same(1)
    by (auto simp: chans' chs' entry_ok_def set_index_def isNoneEvent_def split: if_splits)
  have lives: "pl_channels (updated c ch' ?s) (ch_fd x) = Some c' \<or> ch_index x = kNew"
    if "chans (updated c ch' ?s) c' = Some x" for c' x
    using that poller_okD(2) [OF ok, of c' x] reg same(1)
    by (auto simp: chans' chs' set_index_def split: if_splits)
  have w: "watched s ?fd = (if ch_index ch = kAdded then Some (ch_events ch, c) else None)"
    using idx reg ch free by (auto simp: watched_def)
  have "watched (updated c ch' ?s) =
      (watched s)(?fd := if ch_index ch = kAdded \<and> isNoneEvent ch' then None else Some (ch_events ch', c))"
    using other same(1) by (auto simp: fun_eq_iff watched_def chans' chs' set_index_def split: option.splits)
  then have "kernel_replay (ctl_log (updated c ch' ?s)) Map.empty = Some (watched (updated c ch' ?s))"
    using poller_okD(3) [OF ok] w by (simp add: log' kernel_replay_snoc update_call_def same(2))
  then show "poller_ok (updated c ch' ?s)"
    using entries lives poller_okD(4) [OF ok] by (simp add: poller_ok_def cap')
qed

text \<open>\<open>removeChannel\<close> on a channel in the map.\<close>

definition removed :: "cid \<Rightarrow> 'f channel \<Rightarrow> ('f, 'm) poller_scheme \<Rightarrow> ('f, 'm) poller_scheme" where
  "removed c ch s = s\<lparr>
     chans := (chans s)(c \<mapsto> set_index kNew ch),
     pl_channels := (pl_channels s)(ch_fd ch := None),
     ctl_log := ctl_log s @
       (if ch_index ch = kAdded then [(EPOLL_CTL_DEL, ch_fd ch, ch_events ch, c)] else [])\<rparr>"

lemma remove_ok:
  assumes ok: "poller_ok s" and ch: "chans s c = Some ch"
    and reg: "pl_channels s (ch_fd ch) = Some c" and none: "isNoneEvent ch"
    and same: "ch_fd ch' = ch_fd ch" "ch_index ch' = ch_index ch" "ch_events ch' = ch_events ch"
  shows "ep_removeChannel c (put_chan c ch' s) = Inr (removed c ch' (put_chan c ch' s))"
    and "poller_ok (removed c ch' (put_chan c ch' s))"
proof -
  let ?s = "put_chan c ch' s" and ?fd = "ch_fd ch"
  note idx = poller_ok_index [OF ok ch]
  have none': "isNoneEvent ch'" using none same by (simp add: isNoneEvent_def)
  show "ep_removeChannel c ?s = Inr (removed c ch' ?s)"
    using idx reg none' same
    by (auto simp: ep_removeChannel_def removed_def ep_update_def chan_Some chan_def upd_chan_def
      put_chan_def Let_def)
  have chans': "chans (removed c ch' ?s) = (chans s)(c \<mapsto> set_index kNew ch')"
    and chs': "pl_channels (removed c ch' ?s) = (pl_channels s)(?fd := None)"
    and log': "ctl_log (removed c ch' ?s) = ctl_log s @
      (if ch_index ch = kAdded then [(EPOLL_CTL_DEL, ?fd, ch_events ch, c)] else [])"
    and cap': "event_capacity (removed c ch' ?s) = event_capacity s"
    by (simp_all add: removed_def put_chan_def same)
  have other: "pl_channels s fd \<noteq> Some c" if "fd \<noteq> ?fd" for fd
    using poller_okD(1) [OF ok, of fd c] ch that by (auto simp: entry_ok_def)
  have entries: "entry_ok fd (chans (removed c ch' ?s) c')" if "pl_channels (removed c ch' ?s) fd = Some c'" for fd c'
    using that poller_okD(1) [OF ok, of fd c'] other [of fd]
    by (auto simp: chans' chs' split: if_splits)
  have lives: "pl_channels (removed c ch' ?s) (ch_fd x) = Some c' \<or> ch_index x = kNew"
    if "chans (removed c ch' ?s) c' = Some x" for c' x
    using that poller_okD(2) [OF ok, of c' x] reg
    by (auto simp: chans' chs' set_index_def split: if_splits)
  have w: "watched s ?fd = (if ch_index ch = kAdded then Some (ch_events ch, c) else None)"
    using reg ch by (auto simp: watched_def)
  have "watched (removed c ch' ?s) = (watched s)(?fd := None)"
    using other by (auto simp: fun_eq_iff watched_def chans' chs' split: option.splits)
  then have "kernel_replay (ctl_log (removed c ch' ?s)) Map.empty = Some (watched (removed c ch' ?s))"
    using poller_okD(3) [OF ok] w idx reg
    by (auto simp: log' kernel_replay_snoc fun_upd_idem)
  then show "poller_ok (removed c ch' ?s)"
    using entries lives poller_okD(4) [OF ok] by (simp add: poller_ok_def cap')
qed

text \<open>Both operations change only channels, map and log.\<close>

definition poller_change :: "('f, 'm) poller_scheme \<Rightarrow> ('f, 'm) poller_scheme \<Rightarrow> bool" where
  "poller_change s s' \<longleftrightarrow> s' = s\<lparr>chans := chans s', pl_channels := pl_channels s', ctl_log := ctl_log s'\<rparr>"

lemma poller_changeD:
  assumes "poller_change s s'"
  shows "use_count s' = use_count s" "event_capacity s' = event_capacity s" "poller.more s' = poller.more s"
  by (subst assms [unfolded poller_change_def], simp)+

lemma poller_change_iff:
  "poller_change s s' \<longleftrightarrow> use_count s' = use_count s \<and> event_capacity s' = event_capacity s \<and>
    poller.more s' = poller.more s"
  by (cases s; cases s') (auto simp: poller_change_def)

lemma poller_change_refl [intro, simp]: "poller_change s s"
  by (simp add: poller_change_iff)

lemma poller_change_trans [trans]: "poller_change s t \<Longrightarrow> poller_change t u \<Longrightarrow> poller_change s u"
  by (simp add: poller_change_iff)

lemma poller_change_updated: "poller_change s (updated c ch (put_chan c ch' s))"
  by (simp add: poller_change_iff updated_def put_chan_def)

lemma poller_change_removed: "poller_change s (removed c ch (put_chan c ch' s))"
  by (simp add: poller_change_iff removed_def put_chan_def)

text \<open>Changes of a channel that the poller does not see: callbacks, flags, \<open>revents\<close>.\<close>

lemma put_chan_ok:
  assumes ok: "poller_ok s" and ch: "chans s c = Some ch"
    and same: "ch_fd ch' = ch_fd ch" "ch_index ch' = ch_index ch" "ch_events ch' = ch_events ch"
  shows "poller_ok (put_chan c ch' s)" and "watched (put_chan c ch' s) = watched s"
proof -
  show w: "watched (put_chan c ch' s) = watched s"
    using ch same by (auto simp: fun_eq_iff watched_def put_chan_def split: option.splits)
  have "entry_ok fd (chans (put_chan c ch' s) c')" if "pl_channels s fd = Some c'" for fd c'
    using poller_okD(1) [OF ok that] ch same by (auto simp: put_chan_def entry_ok_def isNoneEvent_def)
  moreover have "pl_channels s (ch_fd x) = Some c' \<or> ch_index x = kNew"
    if "chans (put_chan c ch' s) c' = Some x" for c' x
    using that poller_okD(2) [OF ok] ch same by (auto simp: put_chan_def split: if_splits)
  ultimately show "poller_ok (put_chan c ch' s)"
    using poller_okD(3,4) [OF ok] by (simp add: poller_ok_def w) (simp add: put_chan_def)
qed

lemma ep_fields_put [simp]:
  "pl_channels (put_chan c ch s) = pl_channels s" "event_capacity (put_chan c ch s) = event_capacity s"
  "ctl_log (put_chan c ch s) = ctl_log s"
  by (simp_all add: put_chan_def)

text \<open>What \<open>epoll_wait\<close> promises: at most as many events as asked for, of watched channels.\<close>

definition kernel_answers :: "('f, 'm) poller_scheme \<Rightarrow> (mask \<times> cid) list \<Rightarrow> bool" where
  "kernel_answers s evs \<longleftrightarrow>
     length evs \<le> event_capacity s \<and> distinct (map snd evs) \<and>
     (\<forall>c \<in> set (map snd evs). \<exists>fd m. watched s fd = Some (m, c))"

lemma watched_live:
  "watched s fd = Some (m, c) \<Longrightarrow> poller_ok s \<Longrightarrow>
    \<exists>ch. chans s c = Some ch \<and> ch_fd ch = fd \<and> pl_channels s fd = Some c \<and> ch_events ch = m"
  using poller_okD(1) [of s fd c]
  by (auto simp: watched_def entry_ok_def split: option.splits if_splits)

lemma fill_loop_ok:
  assumes "poller_ok s" and "\<forall>c \<in> set (map snd evs). \<exists>fd m. watched s fd = Some (m, c)"
    and "distinct (map snd evs)"
  shows "\<exists>s'. fill_loop evs active s = Inr (active @ map snd evs, s') \<and> poller_ok s' \<and>
    watched s' = watched s \<and> ctl_log s' = ctl_log s \<and> event_capacity s' = event_capacity s \<and>
    pl_channels s' = pl_channels s \<and>
    (\<forall>c. c \<notin> set (map snd evs) \<longrightarrow> chans s' c = chans s c) \<and>
    (\<forall>(ev, c) \<in> set evs. chans s' c = map_option (set_revents ev) (chans s c))"
  using assms
proof (induction evs arbitrary: active s)
  case Nil
  then show ?case by simp
next
  case (Cons e evs)
  obtain ev c where e: "e = (ev, c)" by (cases e)
  with Cons.prems obtain fd m ch where ch: "chans s c = Some ch" "pl_channels s (ch_fd ch) = Some c"
    using watched_live [OF _ Cons.prems(1)] by fastforce
  let ?s = "put_chan c (set_revents ev ch) s"
  have ok: "poller_ok ?s" "watched ?s = watched s"
    using put_chan_ok [OF Cons.prems(1) ch(1)] by (simp_all add: set_revents_def)
  obtain s' where "fill_loop evs (active @ [c]) ?s = Inr (active @ c # map snd evs, s')" "poller_ok s'"
    "watched s' = watched s" "ctl_log s' = ctl_log s" "event_capacity s' = event_capacity s"
    "pl_channels s' = pl_channels s"
    "\<forall>c. c \<notin> set (map snd evs) \<longrightarrow> chans s' c = chans ?s c"
    "\<forall>(ev, c) \<in> set evs. chans s' c = map_option (set_revents ev) (chans ?s c)"
    using Cons.IH [of ?s "active @ [c]"] Cons.prems(2,3) ok by auto
  then show ?case
    using Cons.prems(3) ch by (force simp: e chan_Some upd_chan_Some chans_put)
qed

section \<open>Properties\<close>

lemma ep_poll_ready:
  assumes "poller_ok s" "kernel_answers s evs"
  shows "\<exists>s'. ep_poll now (Ready evs) active s = Inr (now, active @ map snd evs, s') \<and> poller_ok s' \<and>
    watched s' = watched s \<and> ctl_log s' = ctl_log s \<and>
    event_capacity s' = (if length evs = event_capacity s then 2 else 1) * event_capacity s \<and>
    (\<forall>c. chans s' c = (case map_of (map prod.swap evs) c of
        None \<Rightarrow> chans s c | Some ev \<Rightarrow> map_option (set_revents ev) (chans s c)))"
proof (cases "evs = []")
  case True
  then show ?thesis using assms poller_okD(4) [OF assms(1)] by (auto simp: ep_poll_def)
next
  case False
  obtain s' where s': "fill_loop evs active s = Inr (active @ map snd evs, s')" "poller_ok s'"
    "watched s' = watched s" "ctl_log s' = ctl_log s" "event_capacity s' = event_capacity s"
    "pl_channels s' = pl_channels s"
    "\<forall>c. c \<notin> set (map snd evs) \<longrightarrow> chans s' c = chans s c"
    "\<forall>(ev, c) \<in> set evs. chans s' c = map_option (set_revents ev) (chans s c)"
    using fill_loop_ok [of s evs active] assms by (auto simp: kernel_answers_def)
  have revents: "chans s' c = (case map_of (map prod.swap evs) c of
      None \<Rightarrow> chans s c | Some ev \<Rightarrow> map_option (set_revents ev) (chans s c))" for c
  proof (cases "map_of (map prod.swap evs) c")
    case None
    then have "c \<notin> set (map snd evs)" by (force simp: map_of_eq_None_iff)
    with None s'(7) show ?thesis by simp
  next
    case (Some ev)
    then have "(ev, c) \<in> set evs" by (auto dest!: map_of_SomeD)
    with Some s'(8) show ?thesis by auto
  qed
  let ?t = "if length evs = event_capacity s then s'\<lparr>event_capacity := event_capacity s' * 2\<rparr> else s'"
  have t: "poller_ok ?t" "watched ?t = watched s"
    using s'(2,3) by (auto simp: poller_ok_def watched_cong [of "s'\<lparr>event_capacity := _\<rparr>" s'])
  have "ep_poll now (Ready evs) active s = Inr (now, active @ map snd evs, ?t)"
    using False s'(1,5) assms(2) by (simp add: ep_poll_def fillActiveChannels_def kernel_answers_def)
  then show ?thesis
    using t s'(4,5) by (intro exI [of _ ?t]) (simp add: revents)
qed

text \<open>C19: \<open>poll\<close> appends exactly the channels the kernel reported, in its order, to the active
  channels, stores what happened in each of them and leaves every other channel alone; none of the
  assertions of \<open>fillActiveChannels\<close> fails, no interest changes, and the array of events
  doubles exactly when it was filled.\<close>

theorem poll_delivers:
  assumes "poller_ok s" "kernel_answers s evs"
  shows "\<exists>s'. ep_poll now (Ready evs) active s = Inr (now, active @ map snd evs, s') \<and> poller_ok s' \<and>
    watched s' = watched s \<and> ctl_log s' = ctl_log s \<and>
    event_capacity s' = (if length evs = event_capacity s then 2 else 1) * event_capacity s \<and>
    (\<forall>c. chans s' c = (case map_of (map prod.swap evs) c of
        None \<Rightarrow> chans s c | Some ev \<Rightarrow> map_option (set_revents ev) (chans s c)))"
  using assms by (rule ep_poll_ready)

text \<open>A poller with one channel, added for reading.\<close>

definition sample_poller :: "nat poller" where
  "sample_poller =
     (let ch = (new_Channel 0 5)\<lparr>ch_events := kReadEvent\<rparr>
      in updated 7 ch (new_EPollPoller\<lparr>chans := [7 \<mapsto> ch]\<rparr>))"

lemma new_EPollPoller_ok: "poller_ok new_EPollPoller"
  by (simp add: poller_ok_def new_EPollPoller_def kInitEventListSize_def watched_def fun_eq_iff)

lemma sample_poller_ok:
  "poller_ok sample_poller" "watched sample_poller = [5 \<mapsto> (kReadEvent, 7)]" "event_capacity sample_poller = 16"
proof -
  let ?ch = "(new_Channel 0 5 :: nat channel)"
  let ?s = "new_EPollPoller\<lparr>chans := [7 \<mapsto> ?ch]\<rparr>"
  have "poller_ok ?s"
    by (simp add: poller_ok_def new_EPollPoller_def kInitEventListSize_def watched_def fun_eq_iff
      new_Channel_def kNew_def)
  then have "poller_ok (updated 7 (?ch\<lparr>ch_events := kReadEvent\<rparr>) (put_chan 7 (?ch\<lparr>ch_events := kReadEvent\<rparr>) ?s))"
    by (rule update_ok(2)) (simp_all add: new_EPollPoller_def)
  moreover have "put_chan 7 (?ch\<lparr>ch_events := kReadEvent\<rparr>) ?s =
      new_EPollPoller\<lparr>chans := [7 \<mapsto> ?ch\<lparr>ch_events := kReadEvent\<rparr>]\<rparr>"
    by (simp add: put_chan_def)
  ultimately show "poller_ok sample_poller"
    by (simp add: sample_poller_def Let_def)
  show "watched sample_poller = [5 \<mapsto> (kReadEvent, 7)]" "event_capacity sample_poller = 16"
    by (auto simp: sample_poller_def updated_def new_EPollPoller_def new_Channel_def watched_def fun_eq_iff
      set_index_def kInitEventListSize_def kAdded_def isNoneEvent_def Let_def)
qed

theorem poll_delivers_witness:
  "\<exists>s'. ep_poll (Timestamp 3) (Ready [(POLLIN, 7)]) [] sample_poller = Inr (Timestamp 3, [7], s') \<and>
     event_capacity s' = 16 \<and> chans s' 7 = map_option (set_revents POLLIN) (chans sample_poller 7)"
proof -
  have "kernel_answers sample_poller [(POLLIN, 7)]"
    by (auto simp: kernel_answers_def sample_poller_ok)
  from poll_delivers [OF sample_poller_ok(1) this, of "Timestamp 3" "[]"] show ?thesis
    by (auto simp: sample_poller_ok)
qed

end
