(* ===== verification/EventLoop.thy ===== *)
theory EventLoop
  imports EPollPoller
begin

text \<open>
  \<open>net/EventLoop.h\<close>, \<open>net/EventLoop.cc\<close> and the operations of \<open>net/Channel.cc\<close> that call
  the loop: the state of one loop extends the state of its poller, so that channel, poller and
  loop are one record, as the objects are one graph.  \<open>self\<close> is the calling thread.  The
  calls that only print when they come from another thread (\<open>assertInLoopThread\<close>) change
  no state and are not repeated here.
\<close>

section \<open>The class\<close>

record 'f loop = "'f poller" +
  loop_id :: nat
  looping :: bool
  quit_flag :: bool
  lp_eventHandling :: bool
  callingPendingFunctors :: bool
  threadId :: nat
  pollReturnTime :: timestamp
  wakeupFd :: int
  wakeupChannel :: cid
  activeChannels :: "cid list"
  currentActiveChannel :: "cid option"
  pendingFunctors :: "'f list"
  eventfd_count :: nat   \<comment> \<open>the kernel's counter behind \<open>wakeupFd_\<close>\<close>
  closed_fds :: "int list"   \<comment> \<open>what the destructors of the loop and its members have closed\<close>

definition isInLoopThread :: "nat \<Rightarrow> ('f, 'm) loop_scheme \<Rightarrow> bool" where
  "isInLoopThread self s \<longleftrightarrow> threadId s = self"

section \<open>Channels of the loop\<close>

definition loop_updateChannel :: "cid \<Rightarrow> ('f, 'm) loop_scheme \<Rightarrow> ('f, 'm) loop_scheme res" where
  "loop_updateChannel c s =
     bindr (chan c s) (\<lambda>ch.
       ensure ''updateChannel: ownerLoop'' (ch_loop ch = loop_id s) (ep_updateChannel c s))"

definition loop_removeChannel :: "cid \<Rightarrow> ('f, 'm) loop_scheme \<Rightarrow> ('f, 'm) loop_scheme res" where
  "loop_removeChannel c s =
     bindr (chan c s) (\<lambda>ch.
       ensure ''removeChannel: ownerLoop'' (ch_loop ch = loop_id s)
         (ensure ''removeChannel: active''
            (lp_eventHandling s \<longrightarrow> currentActiveChannel s = Some c \<or> c \<notin> set (activeChannels s))
            (ep_removeChannel c s)))"

definition loop_hasChannel :: "cid \<Rightarrow> ('f, 'm) loop_scheme \<Rightarrow> bool res" where
  "loop_hasChannel c s =
     bindr (chan c s) (\<lambda>ch.
       ensure ''hasChannel: ownerLoop'' (ch_loop ch = loop_id s) (hasChannel c s))"

definition ch_update :: "cid \<Rightarrow> ('f, 'm) loop_scheme \<Rightarrow> ('f, 'm) loop_scheme res" where
  "ch_update c s = bindr (upd_chan c (addedToLoop_update (\<lambda>_. True)) s) (loop_updateChannel c)"

definition enableReading :: "cid \<Rightarrow> ('f, 'm) loop_scheme \<Rightarrow> ('f, 'm) loop_scheme res" where
  "enableReading c s = bindr (upd_chan c with_reading s) (ch_update c)"

definition disableReading :: "cid \<Rightarrow> ('f, 'm) loop_scheme \<Rightarrow> ('f, 'm) loop_scheme res" where
  "disableReading c s = bindr (upd_chan c without_reading s) (ch_update c)"

definition enableWriting :: "cid \<Rightarrow> ('f, 'm) loop_scheme \<Rightarrow> ('f, 'm) loop_scheme res" where
  "enableWriting c s = bindr (upd_chan c with_writing s) (ch_update c)"

definition disableWriting :: "cid \<Rightarrow> ('f, 'm) loop_scheme \<Rightarrow> ('f, 'm) loop_scheme res" where
  "disableWriting c s = bindr (upd_chan c without_writing s) (ch_update c)"

definition disableAll :: "cid \<Rightarrow> ('f, 'm) loop_scheme \<Rightarrow> ('f, 'm) loop_scheme res" where
  "disableAll c s = bindr (upd_chan c without_events s) (ch_update c)"

definition ch_remove :: "cid \<Rightarrow> ('f, 'm) loop_scheme \<Rightarrow> ('f, 'm) loop_scheme res" where
  "ch_remove c s =
     bindr (chan c s) (\<lambda>ch.
       ensure ''remove: isNoneEvent'' (isNoneEvent ch)
         (bindr (upd_chan c (addedToLoop_update (\<lambda>_. False)) s) (loop_removeChannel c)))"

text \<open>\<open>new Channel(loop, fd)\<close> at a fresh address, and \<open>~Channel\<close>.\<close>

definition create_Channel :: "cid \<Rightarrow> int \<Rightarrow> ('f, 'm) loop_scheme \<Rightarrow> ('f, 'm) loop_scheme" where
  "create_Channel c fd s = put_chan c (new_Channel (loop_id s) fd) s"

definition delete_Channel :: "nat \<Rightarrow> cid \<Rightarrow> ('f, 'm) loop_scheme \<Rightarrow> ('f, 'm) loop_scheme res" where
  "delete_Channel self c s =
     bindr (chan c s) (\<lambda>ch.
       ensure ''~Channel: eventHandling'' (\<not> ch_eventHandling ch)
        (ensure ''~Channel: addedToLoop'' (\<not> addedToLoop ch)
          (bindr (if isInLoopThread self s
                  then bindr (loop_hasChannel c s) (\<lambda>b. ensure ''~Channel: hasChannel'' (\<not> b) (Inr s))
                  else Inr s)
             (\<lambda>s. Inr (s\<lparr>chans := (chans s)(c := None)\<rparr>)))))"

section \<open>Functors and wakeups\<close>

text \<open>
  \<open>eventfd(2)\<close>: writing 1 adds to the counter, reading takes it to 0.  A write that would
  overflow the 64-bit counter and a read at 0 fail with \<open>EAGAIN\<close>, which the code only
  prints.
\<close>

definition wakeup :: "('f, 'm) loop_scheme \<Rightarrow> ('f, 'm) loop_scheme" where
  "wakeup s = (if eventfd_count s < 2 ^ 64 - 2 then s\<lparr>eventfd_count := eventfd_count s + 1\<rparr> else s)"

definition loop_handleRead :: "('f, 'm) loop_scheme \<Rightarrow> ('f, 'm) loop_scheme" where
  "loop_handleRead s = s\<lparr>eventfd_count := 0\<rparr>"

text \<open>The two halves of \<open>queueInLoop\<close>: under the mutex, and after it.\<close>

definition queue_push :: "'f \<Rightarrow> ('f, 'm) loop_scheme \<Rightarrow> ('f, 'm) loop_scheme" where
  "queue_push cb s = s\<lparr>pendingFunctors := pendingFunctors s @ [cb]\<rparr>"

definition queue_wakeup :: "nat \<Rightarrow> ('f, 'm) loop_scheme \<Rightarrow> ('f, 'm) loop_scheme" where
  "queue_wakeup self s =
     (if \<not> isInLoopThread self s \<or> callingPendingFunctors s then wakeup s else s)"

definition queueInLoop :: "nat \<Rightarrow> 'f \<Rightarrow> ('f, 'm) loop_scheme \<Rightarrow> ('f, 'm) loop_scheme" where
  "queueInLoop self cb s = queue_wakeup self (queue_push cb s)"

definition queueSize :: "('f, 'm) loop_scheme \<Rightarrow> nat" where
  "queueSize s = length (pendingFunctors s)"

definition runInLoop ::
  "('f, ('f, 'm) loop_scheme) runner \<Rightarrow> nat \<Rightarrow> 'f \<Rightarrow> ('f, 'm) loop_scheme \<Rightarrow> ('f, 'm) loop_scheme res" where
  "runInLoop exec self cb s =
     (if isInLoopThread self s then exec (Run cb) s else Inr (queueInLoop self cb s))"

definition quit_wakeup :: "nat \<Rightarrow> ('f, 'm) loop_scheme \<Rightarrow> ('f, 'm) loop_scheme" where
  "quit_wakeup self s = (if \<not> isInLoopThread self s then wakeup s else s)"

definition quit :: "nat \<Rightarrow> ('f, 'm) loop_scheme \<Rightarrow> ('f, 'm) loop_scheme" where
  "quit self s = quit_wakeup self (s\<lparr>quit_flag := True\<rparr>)"

definition doPendingFunctors ::
  "('f, ('f, 'm) loop_scheme) runner \<Rightarrow> ('f, 'm) loop_scheme \<Rightarrow> ('f, 'm) loop_scheme res" where
  "doPendingFunctors exec s =
     (let s = s\<lparr>callingPendingFunctors := True\<rparr>;
          functors = pendingFunctors s;
          s = s\<lparr>pendingFunctors := []\<rparr>
      in bindr (foldr_res (\<lambda>f. exec (Run f)) functors s)
           (\<lambda>s. Inr (s\<lparr>callingPendingFunctors := False\<rparr>)))"

section \<open>The loop\<close>

definition handle_active ::
  "('f, ('f, 'm) loop_scheme) runner \<Rightarrow> cid \<Rightarrow> ('f, 'm) loop_scheme \<Rightarrow> ('f, 'm) loop_scheme res" where
  "handle_active exec c s =
     (let s = s\<lparr>currentActiveChannel := Some c\<rparr> in handleEvent exec c (pollReturnTime s) s)"

definition loop_once ::
  "('f, ('f, 'm) loop_scheme) runner \<Rightarrow> timestamp \<times> wait_answer \<Rightarrow> ('f, 'm) loop_scheme \<Rightarrow>
   ('f, 'm) loop_scheme res" where
  "loop_once exec answer s =
     bindr (ep_poll (fst answer) (snd answer) [] s) (\<lambda>(now, active, s).
       let s = s\<lparr>pollReturnTime := now, activeChannels := active, lp_eventHandling := True\<rparr>
       in bindr (foldr_res (handle_active exec) active s) (\<lambda>s.
            doPendingFunctors exec (s\<lparr>currentActiveChannel := None, lp_eventHandling := False\<rparr>)))"

text \<open>
  The loop for a given sequence of poll results: \<open>True\<close> when it has returned, \<open>False\<close> when the
  results are used up and it waits in \<open>poll\<close>.
\<close>

fun loop_while ::
  "('f, ('f, 'm) loop_scheme) runner \<Rightarrow> (timestamp \<times> wait_answer) list \<Rightarrow> ('f, 'm) loop_scheme \<Rightarrow>
   (bool \<times> ('f, 'm) loop_scheme) res" where
  "loop_while exec answers s =
     (if quit_flag s then Inr (True, s)
      else case answers of
             [] \<Rightarrow> Inr (False, s\<lparr>activeChannels := []\<rparr>)
           | a # as \<Rightarrow> bindr (loop_once exec a (s\<lparr>activeChannels := []\<rparr>)) (loop_while exec as))"

declare loop_while.simps [simp del]

definition loop_run ::
  "('f, ('f, 'm) loop_scheme) runner \<Rightarrow> (timestamp \<times> wait_answer) list \<Rightarrow> ('f, 'm) loop_scheme \<Rightarrow>
   (bool \<times> ('f, 'm) loop_scheme) res" where
  "loop_run exec answers s =
     ensure ''loop: looping'' (\<not> looping s)
       (bindr (loop_while exec answers (s\<lparr>looping := True, quit_flag := False\<rparr>))
          (\<lambda>(returned, s). Inr (returned, if returned then s\<lparr>looping := False\<rparr> else s)))"

text \<open>
  The constructor, for a \<open>wakeupFd_\<close> from \<open>createEventfd\<close> and a fresh address for its
  channel; \<open>read_cb\<close> is \<open>std::bind(&EventLoop::handleRead, this)\<close>.
\<close>

definition new_EventLoop :: "nat \<Rightarrow> nat \<Rightarrow> int \<Rightarrow> cid \<Rightarrow> 'f \<Rightarrow> 'f loop res" where
  "new_EventLoop this self fd c read_cb =
     (let p = new_EPollPoller :: 'f poller;
          s = \<lparr> chans = chans p, use_count = use_count p,
                pl_channels = pl_channels p, event_capacity = event_capacity p,
                ctl_log = ctl_log p,
                loop_id = this, looping = False, quit_flag = False, lp_eventHandling = False,
                callingPendingFunctors = False, threadId = self, pollReturnTime = ts_default,
                wakeupFd = fd, wakeupChannel = c, activeChannels = [], currentActiveChannel = None,
                pendingFunctors = [], eventfd_count = 0, closed_fds = [] \<rparr>;
          s = create_Channel c fd s
      in bindr (upd_chan c (setReadCallback (Some read_cb)) s) (enableReading c))"

definition close_fd :: "int \<Rightarrow> ('f, 'm) loop_scheme \<Rightarrow> ('f, 'm) loop_scheme" where
  "close_fd fd s = s\<lparr>closed_fds := closed_fds s @ [fd]\<rparr>"

definition delete_EPollPoller :: "int \<Rightarrow> ('f, 'm) loop_scheme \<Rightarrow> ('f, 'm) loop_scheme" where
  "delete_EPollPoller epollfd s = close_fd epollfd (s\<lparr>pl_channels := Map.empty\<rparr>)"

text \<open>
  The destructor, in thread \<open>self\<close>: its body, and then the members, the last one first: the
  functors, the wakeup channel, the timer queue (whose destructor \<open>delete_timers\<close> is in theory
  \<open>TimerQueue\<close>) and the poller, whose descriptor is \<open>epollfd\<close>.  The body's last line, on the
  pointer of the thread, is \<open>destroy_EventLoop\<close> of theory \<open>ThreadLocals\<close>.
\<close>

definition delete_EventLoop ::
  "nat \<Rightarrow> (('f, 'm) loop_scheme \<Rightarrow> ('f, 'm) loop_scheme res) \<Rightarrow> int \<Rightarrow> ('f, 'm) loop_scheme \<Rightarrow> ('f, 'm) loop_scheme res" where
  "delete_EventLoop self delete_timers epollfd s =
     bindr (disableAll (wakeupChannel s) s) (\<lambda>s.
     bindr (ch_remove (wakeupChannel s) s) (\<lambda>s.
       let s = close_fd (wakeupFd s) s;
           s = s\<lparr>pendingFunctors := [], activeChannels := []\<rparr>
       in bindr (delete_Channel self (wakeupChannel s) s) (\<lambda>s.
          bindr (delete_timers s) (\<lambda>s.
            Inr (delete_EPollPoller epollfd s)))))"

section \<open>The protocol of channels\<close>

text \<open>
  What an owner of channels may do, without the poller: a channel is registered by its first
  change of interest, if no other channel has its descriptor; it is removed when it is registered,
  watches nothing and is not waiting in the active list; it is destroyed when it is not
  registered and not in its own \<open>handleEvent\<close>.  \<open>None\<close> is a use that breaks the protocol.
\<close>

record chan_view =
  cv_fd :: int
  cv_events :: mask
  cv_registered :: bool
  cv_handling :: bool
  cv_waiting :: bool

type_synonym chan_views = "cid \<Rightarrow> chan_view option"

datatype chan_op =
    Interest "mask \<Rightarrow> mask" cid
  | Remove_Channel cid
  | Delete_Channel cid

definition fd_taken :: "int \<Rightarrow> chan_views \<Rightarrow> bool" where
  "fd_taken fd a \<longleftrightarrow> (\<exists>c v. a c = Some v \<and> cv_registered v \<and> cv_fd v = fd)"

fun chan_spec :: "chan_op \<Rightarrow> chan_views \<Rightarrow> chan_views option" where
  "chan_spec (Interest f c) a =
     (case a c of None \<Rightarrow> None
      | Some v \<Rightarrow> if cv_registered v \<or> \<not> fd_taken (cv_fd v) a
                  then Some (a(c \<mapsto> v\<lparr>cv_events := f (cv_events v), cv_registered := True\<rparr>)) else None)"
| "chan_spec (Remove_Channel c) a =
     (case a c of None \<Rightarrow> None
      | Some v \<Rightarrow> if cv_registered v \<and> cv_events v = kNoneEvent \<and> \<not> cv_waiting v
                  then Some (a(c \<mapsto> v\<lparr>cv_registered := False\<rparr>)) else None)"
| "chan_spec (Delete_Channel c) a =
     (case a c of None \<Rightarrow> None
      | Some v \<Rightarrow> if cv_registered v \<or> cv_handling v then None else Some (a(c := None)))"

text \<open>The operations of the code; the five changes of interest are instances of the first.\<close>

definition set_interest :: "(mask \<Rightarrow> mask) \<Rightarrow> cid \<Rightarrow> ('f, 'm) loop_scheme \<Rightarrow> ('f, 'm) loop_scheme res" where
  "set_interest f c s = bindr (upd_chan c (ch_events_update f) s) (ch_update c)"

fun chan_step :: "nat \<Rightarrow> chan_op \<Rightarrow> ('f, 'm) loop_scheme \<Rightarrow> ('f, 'm) loop_scheme res" where
  "chan_step self (Interest f c) s = set_interest f c s"
| "chan_step self (Remove_Channel c) s = ch_remove c s"
| "chan_step self (Delete_Channel c) s = delete_Channel self c s"

lemma loop_fields_change:
  assumes "poller_change s s'"
  shows "loop_id s' = loop_id s" "looping s' = looping s" "quit_flag s' = quit_flag s"
    "lp_eventHandling s' = lp_eventHandling s" "callingPendingFunctors s' = callingPendingFunctors s"
    "threadId s' = threadId s" "pollReturnTime s' = pollReturnTime s" "wakeupFd s' = wakeupFd s"
    "wakeupChannel s' = wakeupChannel s" "activeChannels s' = activeChannels s"
    "currentActiveChannel s' = currentActiveChannel s" "pendingFunctors s' = pendingFunctors s"
    "eventfd_count s' = eventfd_count s" "loop.more s' = loop.more s"
  by (subst assms [unfolded poller_change_def], simp)+

lemma interest_eqs:
  "with_reading = ch_events_update (\<lambda>m. m OR kReadEvent)"
  "without_reading = ch_events_update (\<lambda>m. m AND NOT kReadEvent)"
  "with_writing = ch_events_update (\<lambda>m. m OR kWriteEvent)"
  "without_writing = ch_events_update (\<lambda>m. m AND NOT kWriteEvent)"
  "without_events = ch_events_update (\<lambda>_. kNoneEvent)"
  by (simp_all add: fun_eq_iff with_reading_def without_reading_def with_writing_def without_writing_def
    without_events_def)

lemma interest_ops:
  "enableReading c = set_interest (\<lambda>m. m OR kReadEvent) c"
  "disableReading c = set_interest (\<lambda>m. m AND NOT kReadEvent) c"
  "enableWriting c = set_interest (\<lambda>m. m OR kWriteEvent) c"
  "disableWriting c = set_interest (\<lambda>m. m AND NOT kWriteEvent) c"
  "disableAll c = set_interest (\<lambda>_. kNoneEvent) c"
  by (simp_all only: fun_eq_iff set_interest_def enableReading_def disableReading_def
    enableWriting_def disableWriting_def disableAll_def interest_eqs) simp_all

definition view_channel :: "('f, 'm) loop_scheme \<Rightarrow> cid \<Rightarrow> 'f channel \<Rightarrow> chan_view" where
  "view_channel s c ch =
     \<lparr> cv_fd = ch_fd ch, cv_events = ch_events ch, cv_registered = (pl_channels s (ch_fd ch) = Some c),
       cv_handling = ch_eventHandling ch,
       cv_waiting = (lp_eventHandling s \<and> currentActiveChannel s \<noteq> Some c \<and> c \<in> set (activeChannels s)) \<rparr>"

definition views :: "('f, 'm) loop_scheme \<Rightarrow> chan_views" where
  "views s c = map_option (view_channel s c) (chans s c)"

definition loop_ok :: "('f, 'm) loop_scheme \<Rightarrow> bool" where
  "loop_ok s \<longleftrightarrow> poller_ok s \<and>
     (\<forall>c ch. chans s c = Some ch \<longrightarrow>
        ch_loop ch = loop_id s \<and> addedToLoop ch = (pl_channels s (ch_fd ch) = Some c))"

lemma loop_okD:
  assumes "loop_ok s"
  shows "poller_ok s" and "chans s c = Some ch \<Longrightarrow> ch_loop ch = loop_id s"
    and "chans s c = Some ch \<Longrightarrow> addedToLoop ch = (pl_channels s (ch_fd ch) = Some c)"
  using assms by (auto simp: loop_ok_def)

lemma fd_taken_iff:
  assumes "poller_ok s"
  shows "fd_taken fd (views s) \<longleftrightarrow> pl_channels s fd \<noteq> None"
  using poller_okD(1) [OF assms, of fd]
  by (fastforce simp: fd_taken_def views_def view_channel_def entry_ok_def)

text \<open>In the map no descriptor but its own leads to a channel.\<close>

lemma registered_fd:
  "poller_ok s \<Longrightarrow> chans s c = Some ch \<Longrightarrow> pl_channels s fd = Some c \<Longrightarrow> fd = ch_fd ch"
  using poller_okD(1) [of s fd c] by (auto simp: entry_ok_def)

lemma events_update_eq:
  "addedToLoop_update (\<lambda>_. b) (ch_events_update f ch) = ch\<lparr>ch_events := f (ch_events ch), addedToLoop := b\<rparr>"
  by (cases ch) simp

lemma view_channel_chans [simp]: "view_channel (s\<lparr>chans := h\<rparr>) = view_channel s"
  by (simp add: fun_eq_iff view_channel_def)

lemma view_channel_put [simp]:
  "view_channel (put_chan c ch s) = view_channel s" "view_channel (create_Channel c fd s) = view_channel s"
  by (simp_all add: create_Channel_def put_chan_def)

lemma set_interest_eq:
  assumes ok: "loop_ok s" and ch: "chans s c = Some ch"
    and free: "pl_channels s (ch_fd ch) = Some c \<or> pl_channels s (ch_fd ch) = None"
  shows "set_interest f c s = Inr (updated c (ch\<lparr>ch_events := f (ch_events ch), addedToLoop := True\<rparr>)
    (put_chan c (ch\<lparr>ch_events := f (ch_events ch), addedToLoop := True\<rparr>) s))"
proof -
  let ?ch = "ch\<lparr>ch_events := f (ch_events ch), addedToLoop := True\<rparr>"
  note pok = loop_okD(1) [OF ok]
  have "pl_channels s (ch_fd ch) = None" if "ch_index ch = kNew"
    using poller_ok_index [OF pok ch] free that by auto
  note upd = update_ok [OF pok ch, of ?ch, simplified, OF this, simplified]
  show ?thesis
    using upd(1) loop_okD(2) [OF ok ch]
    by (simp add: events_update_eq [of _ f ch] set_interest_def ch_update_def upd_chan_def chan_def ch
      put_chan_def loop_updateChannel_def)
qed

lemma set_interest_ok:
  assumes ok: "loop_ok s" and ch: "chans s c = Some ch"
    and free: "pl_channels s (ch_fd ch) = Some c \<or> pl_channels s (ch_fd ch) = None"
  shows "\<exists>s'. set_interest f c s = Inr s' \<and> loop_ok s' \<and> poller_change s s' \<and>
    views s' = (views s)(c \<mapsto> (view_channel s c ch)\<lparr>cv_events := f (ch_events ch), cv_registered := True\<rparr>)"
proof -
  let ?ch = "ch\<lparr>ch_events := f (ch_events ch), addedToLoop := True\<rparr>"
  let ?s = "put_chan c ?ch s"
  note pok = loop_okD(1) [OF ok]
  have "pl_channels s (ch_fd ch) = None" if "ch_index ch = kNew"
    using poller_ok_index [OF pok ch] free that by auto
  note upd = update_ok [OF pok ch, of ?ch, simplified, OF this, simplified]
  obtain i where chans': "chans (updated c ?ch ?s) = (chans s)(c \<mapsto> ?ch\<lparr>ch_index := i\<rparr>)"
    by (simp add: updated_def put_chan_def set_index_def)
  have pl': "pl_channels (updated c ?ch ?s) = (pl_channels s)(ch_fd ch \<mapsto> c)"
    and id': "loop_id (updated c ?ch ?s) = loop_id s"
    and act': "lp_eventHandling (updated c ?ch ?s) = lp_eventHandling s"
      "currentActiveChannel (updated c ?ch ?s) = currentActiveChannel s"
      "activeChannels (updated c ?ch ?s) = activeChannels s"
    by (simp_all add: updated_def put_chan_def)
  have reg': "((pl_channels s)(ch_fd ch \<mapsto> c)) (ch_fd x) = Some c' \<longleftrightarrow> pl_channels s (ch_fd x) = Some c'"
    if "chans s c' = Some x" "c' \<noteq> c" for c' x
    using that free by auto
  have "loop_ok (updated c ?ch ?s)"
    unfolding loop_ok_def
  proof (intro conjI allI impI)
    show "poller_ok (updated c ?ch ?s)" by (rule upd(2))
  next
    fix c' x assume x: "chans (updated c ?ch ?s) c' = Some x"
    show "ch_loop x = loop_id (updated c ?ch ?s)"
      using x loop_okD(2) [OF ok] ch by (cases "c' = c") (auto simp: chans' id')
    show "addedToLoop x = (pl_channels (updated c ?ch ?s) (ch_fd x) = Some c')"
    proof (cases "c' = c")
      case True
      then show ?thesis using x by (auto simp: chans' pl')
    next
      case False
      then have "chans s c' = Some x" using x by (simp add: chans')
      with False show ?thesis by (simp add: pl' reg' loop_okD(3) [OF ok] del: fun_upd_apply)
    qed
  qed
  moreover have "set_interest f c s = Inr (updated c ?ch ?s)"
    by (rule set_interest_eq [OF ok ch free])
  moreover have "views (updated c ?ch ?s) =
      (views s)(c \<mapsto> (view_channel s c ch)\<lparr>cv_events := f (ch_events ch), cv_registered := True\<rparr>)"
  proof (rule ext)
    fix c'
    show "views (updated c ?ch ?s) c' =
      ((views s)(c \<mapsto> (view_channel s c ch)\<lparr>cv_events := f (ch_events ch), cv_registered := True\<rparr>)) c'"
    proof (cases "c' = c")
      case True
      then show ?thesis by (simp add: views_def view_channel_def chans' pl' act')
    next
      case False
      then show ?thesis
        by (cases "chans s c'") (simp_all add: views_def view_channel_def chans' pl' act' reg' del: fun_upd_apply
          add: fun_upd_other)
    qed
  qed
  ultimately show ?thesis
    using poller_change_updated poller_change_removed by blast
qed

lemma set_interest_refused:
  assumes ok: "loop_ok s" and ch: "chans s c = Some ch"
    and taken: "pl_channels s (ch_fd ch) = Some d" "d \<noteq> c"
  shows "\<exists>e. set_interest f c s = Inl e"
proof -
  have "ch_index ch = kNew"
    using poller_ok_index [OF loop_okD(1) [OF ok] ch] taken by auto
  then show ?thesis
    using taken loop_okD(2) [OF ok ch]
    by (simp add: set_interest_def ch_update_def upd_chan_def chan_def ch put_chan_def loop_updateChannel_def
      ep_updateChannel_def Let_def)
qed

lemma ch_remove_ok:
  assumes ok: "loop_ok s" and ch: "chans s c = Some ch"
    and reg: "pl_channels s (ch_fd ch) = Some c" and none: "isNoneEvent ch"
    and idle: "\<not> cv_waiting (view_channel s c ch)"
  shows "\<exists>s'. ch_remove c s = Inr s' \<and> loop_ok s' \<and> poller_change s s' \<and>
    views s' = (views s)(c \<mapsto> (view_channel s c ch)\<lparr>cv_registered := False\<rparr>)"
proof -
  let ?ch = "ch\<lparr>addedToLoop := False\<rparr>"
  let ?s = "put_chan c ?ch s"
  let ?t = "removed c ?ch ?s"
  note pok = loop_okD(1) [OF ok]
  note rem = remove_ok [OF pok ch reg none, of ?ch, simplified]
  have chans': "chans ?t = (chans s)(c \<mapsto> ?ch\<lparr>ch_index := kNew\<rparr>)"
    and pl': "pl_channels ?t = (pl_channels s)(ch_fd ch := None)"
    and id': "loop_id ?t = loop_id s" "lp_eventHandling ?t = lp_eventHandling s"
      "currentActiveChannel ?t = currentActiveChannel s" "activeChannels ?t = activeChannels s"
    by (simp_all add: removed_def put_chan_def set_index_def)
  have reg': "((pl_channels s)(ch_fd ch := None)) (ch_fd x) = Some c' \<longleftrightarrow> pl_channels s (ch_fd x) = Some c'"
    if "chans s c' = Some x" "c' \<noteq> c" for c' x
    using that reg by auto
  have "loop_ok ?t"
    unfolding loop_ok_def
  proof (intro conjI allI impI)
    show "poller_ok ?t" by (rule rem(2))
  next
    fix c' x assume x: "chans ?t c' = Some x"
    show "ch_loop x = loop_id ?t"
      using x loop_okD(2) [OF ok] ch by (cases "c' = c") (auto simp: chans' id')
    show "addedToLoop x = (pl_channels ?t (ch_fd x) = Some c')"
    proof (cases "c' = c")
      case True
      then show ?thesis using x by (auto simp: chans' pl')
    next
      case False
      then have "chans s c' = Some x" using x by (simp add: chans')
      with False show ?thesis by (simp add: pl' reg' loop_okD(3) [OF ok] del: fun_upd_apply)
    qed
  qed
  moreover have "ch_remove c s = Inr ?t"
    using rem(1) loop_okD(2) [OF ok ch] none idle
    by (simp add: ch_remove_def upd_chan_def chan_def ch put_chan_def loop_removeChannel_def view_channel_def)
  moreover have "views ?t = (views s)(c \<mapsto> (view_channel s c ch)\<lparr>cv_registered := False\<rparr>)"
  proof (rule ext)
    fix c'
    show "views ?t c' = ((views s)(c \<mapsto> (view_channel s c ch)\<lparr>cv_registered := False\<rparr>)) c'"
    proof (cases "c' = c")
      case True
      then show ?thesis by (simp add: views_def view_channel_def chans' pl' id')
    next
      case False
      then show ?thesis
        by (cases "chans s c'") (simp_all add: views_def view_channel_def chans' pl' id' reg' del: fun_upd_apply
          add: fun_upd_other)
    qed
  qed
  ultimately show ?thesis
    using poller_change_updated poller_change_removed by blast
qed

lemma ch_remove_refused:
  assumes ok: "loop_ok s" and ch: "chans s c = Some ch"
    and "\<not> (pl_channels s (ch_fd ch) = Some c \<and> isNoneEvent ch \<and> \<not> cv_waiting (view_channel s c ch))"
  shows "\<exists>e. ch_remove c s = Inl e"
  using assms(3) loop_okD(2) [OF ok ch]
  by (auto simp: ch_remove_def upd_chan_def chan_def ch put_chan_def loop_removeChannel_def view_channel_def
    ensure_def ep_removeChannel_def isNoneEvent_def Let_def)

lemma delete_Channel_eq:
  assumes ok: "loop_ok s" and ch: "chans s c = Some ch"
  shows "delete_Channel self c s =
    (if ch_eventHandling ch then Inl (Assert_Failed ''~Channel: eventHandling'')
     else if pl_channels s (ch_fd ch) = Some c then Inl (Assert_Failed ''~Channel: addedToLoop'')
     else Inr (s\<lparr>chans := (chans s)(c := None)\<rparr>))"
  using loop_okD(2,3) [OF ok ch]
  by (simp add: delete_Channel_def chan_def ch loop_hasChannel_def hasChannel_def ensure_def)

lemma delete_Channel_ok:
  assumes ok: "loop_ok s" and ch: "chans s c = Some ch" and unreg: "pl_channels s (ch_fd ch) \<noteq> Some c"
  shows "loop_ok (s\<lparr>chans := (chans s)(c := None)\<rparr>)"
    and "views (s\<lparr>chans := (chans s)(c := None)\<rparr>) = (views s)(c := None)"
proof -
  let ?t = "s\<lparr>chans := (chans s)(c := None)\<rparr>"
  note pok = loop_okD(1) [OF ok]
  have other: "pl_channels s fd \<noteq> Some c" for fd
    using registered_fd [OF pok ch] unreg by metis
  have "watched ?t = watched s"
    using other by (auto simp: fun_eq_iff watched_def split: option.splits)
  then have "poller_ok ?t"
    using pok other by (auto simp: poller_ok_def)
  then show "loop_ok ?t"
    using ok by (auto simp: loop_ok_def)
  show "views ?t = (views s)(c := None)"
    by (auto simp: fun_eq_iff views_def)
qed

lemma chan_step_refines:
  assumes ok: "loop_ok s"
  shows "refines loop_ok views (chan_step self op s) (chan_spec op (views s))"
proof (cases op)
  case (Interest f c)
  show ?thesis
  proof (cases "chans s c")
    case None
    then show ?thesis by (simp add: Interest views_def set_interest_def upd_chan_def chan_def)
  next
    case (Some ch)
    show ?thesis
    proof (cases "pl_channels s (ch_fd ch) = Some c \<or> pl_channels s (ch_fd ch) = None")
      case True
      then show ?thesis
        using set_interest_ok [OF ok Some True, of f] Some
        by (auto simp: Interest views_def [of s c] view_channel_def fd_taken_iff [OF loop_okD(1) [OF ok]])
    next
      case False
      then obtain d where "pl_channels s (ch_fd ch) = Some d" "d \<noteq> c" by auto
      with set_interest_refused [OF ok Some this, of f] False Some show ?thesis
        by (auto simp: Interest views_def [of s c] view_channel_def fd_taken_iff [OF loop_okD(1) [OF ok]])
    qed
  qed
next
  case (Remove_Channel c)
  show ?thesis
  proof (cases "chans s c")
    case None
    then show ?thesis by (simp add: Remove_Channel views_def ch_remove_def chan_def)
  next
    case (Some ch)
    then show ?thesis
      using ch_remove_ok [OF ok Some] ch_remove_refused [OF ok Some]
      by (cases "pl_channels s (ch_fd ch) = Some c \<and> isNoneEvent ch \<and> \<not> cv_waiting (view_channel s c ch)")
        (auto simp: Remove_Channel views_def [of s c] view_channel_def isNoneEvent_def)
  qed
next
  case (Delete_Channel c)
  show ?thesis
  proof (cases "chans s c")
    case None
    then show ?thesis by (simp add: Delete_Channel views_def delete_Channel_def chan_def)
  next
    case (Some ch)
    then show ?thesis
      using delete_Channel_ok [OF ok Some]
      by (auto simp: Delete_Channel delete_Channel_eq [OF ok Some] views_def [of s c] view_channel_def)
  qed
qed

interpretation channels: exact_refinement loop_ok views "chan_step self" chan_spec for self
  by unfold_locales (rule chan_step_refines)

lemma put_chan_loop_ok:
  assumes ok: "loop_ok s" and ch: "chans s c = Some ch"
    and same: "ch_fd ch' = ch_fd ch" "ch_index ch' = ch_index ch" "ch_events ch' = ch_events ch"
      "ch_loop ch' = ch_loop ch" "addedToLoop ch' = addedToLoop ch"
  shows "loop_ok (put_chan c ch' s)"
  using put_chan_ok(1) [OF loop_okD(1) [OF ok] ch same(1-3)] loop_okD(2,3) [OF ok] ch same
  by (auto simp: loop_ok_def put_chan_def split: if_splits)

text \<open>A change of interest, seen from the channel.\<close>

lemma interest_change:
  assumes ok: "loop_ok s" and ch: "chans s c = Some ch"
    and free: "pl_channels s (ch_fd ch) = Some c \<or> pl_channels s (ch_fd ch) = None"
  shows "\<exists>s'. set_interest f c s = Inr s' \<and> loop_ok s' \<and> poller_change s s' \<and>
    chans s' = (chans s)(c \<mapsto> ch\<lparr>ch_events := f (ch_events ch), addedToLoop := True,
       ch_index := if ch_index ch = kAdded \<and> f (ch_events ch) = kNoneEvent then kDeleted else kAdded\<rparr>) \<and>
    pl_channels s' = (pl_channels s)(ch_fd ch \<mapsto> c)"
  using set_interest_eq [OF assms, of f] set_interest_ok [OF assms, of f]
  by (auto simp: updated_def put_chan_def set_index_def isNoneEvent_def)

lemma ch_remove_chans:
  "ch_remove c s = Inr s' \<Longrightarrow> chans s c = Some ch \<Longrightarrow>
    chans s' = (chans s)(c \<mapsto> ch\<lparr>addedToLoop := False, ch_index := kNew\<rparr>)"
  by (auto simp: ch_remove_def upd_chan_def chan_def put_chan_def loop_removeChannel_def ep_removeChannel_def
    ensure_def ep_update_def set_index_def Let_def split: if_splits option.splits)

lemma ch_remove_pl:
  "ch_remove c s = Inr s' \<Longrightarrow> chans s c = Some ch \<Longrightarrow> pl_channels s' = (pl_channels s)(ch_fd ch := None)"
  by (auto simp: ch_remove_def upd_chan_def chan_def put_chan_def loop_removeChannel_def ep_removeChannel_def
    ensure_def ep_update_def set_index_def Let_def split: if_splits option.splits)

text \<open>A channel taken off the loop for good, as destructors do.\<close>

lemma retire_channel:
  assumes ok: "loop_ok s" and ch: "chans s c = Some ch" "pl_channels s (ch_fd ch) = Some c"
    and idle: "\<not> lp_eventHandling s" "\<not> ch_eventHandling ch"
  shows "\<exists>s1 s2 ch'. disableAll c s = Inr s1 \<and> ch_remove c s1 = Inr s2 \<and> poller_change s s1 \<and> loop_ok s2 \<and> poller_change s s2 \<and>
    chans s2 = (chans s)(c \<mapsto> ch') \<and> ch_fd ch' = ch_fd ch \<and> \<not> addedToLoop ch' \<and> \<not> ch_eventHandling ch' \<and>
    pl_channels s2 = (pl_channels s)(ch_fd ch := None)"
proof -
  let ?ch1 = "ch\<lparr>ch_events := kNoneEvent, addedToLoop := True,
      ch_index := if ch_index ch = kAdded \<and> kNoneEvent = kNoneEvent then kDeleted else kAdded\<rparr>"
  obtain s1 where s1: "set_interest (\<lambda>_. kNoneEvent) c s = Inr s1" "loop_ok s1" "poller_change s s1"
      "chans s1 = (chans s)(c \<mapsto> ?ch1)" "pl_channels s1 = (pl_channels s)(ch_fd ch \<mapsto> c)"
    using interest_change [OF ok ch(1), of "\<lambda>_. kNoneEvent"] ch(2) by auto
  have c1: "chans s1 c = Some ?ch1" using s1(4) by simp
  obtain s2 where s2: "ch_remove c s1 = Inr s2" "loop_ok s2" "poller_change s1 s2"
    using ch_remove_ok [OF s1(2) c1] s1(5) idle(1) loop_fields_change(4) [OF s1(3)]
    by (auto simp: isNoneEvent_def view_channel_def)
  have "poller_change s s2" using s1(3) s2(3) by (simp add: poller_change_iff)
  moreover have "chans s2 = (chans s)(c \<mapsto> ch\<lparr>ch_events := kNoneEvent, addedToLoop := False, ch_index := kNew\<rparr>)"
    using ch_remove_chans [OF s2(1) c1] s1(4) by simp
  moreover have "pl_channels s2 = (pl_channels s)(ch_fd ch := None)"
    using ch_remove_pl [OF s2(1) c1] s1(5) by simp
  ultimately show ?thesis
    using s1(1,3) s2(1,2) idle(2)
    by (intro exI [of _ s1] exI [of _ s2]
        exI [of _ "ch\<lparr>ch_events := kNoneEvent, addedToLoop := False, ch_index := kNew\<rparr>"])
      (simp add: interest_ops)
qed

lemma loop_ok_cong:
  assumes "chans s = chans s'" "pl_channels s = pl_channels s'" "ctl_log s = ctl_log s'"
    "event_capacity s = event_capacity s'" "loop_id s = loop_id s'"
  shows "loop_ok s = loop_ok s'"
  using assms watched_cong [of s s'] by (simp add: loop_ok_def poller_ok_def)

lemma loop_ok_frame [simp]:
  "loop_ok (s\<lparr>pendingFunctors := x1\<rparr>) = loop_ok s" "loop_ok (s\<lparr>eventfd_count := x2\<rparr>) = loop_ok s"
  "loop_ok (s\<lparr>use_count := x3\<rparr>) = loop_ok s" "loop_ok (s\<lparr>callingPendingFunctors := b\<rparr>) = loop_ok s"
  by (rule loop_ok_cong; simp)+

lemma create_Channel_ok:
  assumes ok: "loop_ok s" and fresh: "chans s c = None"
  shows "loop_ok (create_Channel c fd s)"
    and "views (create_Channel c fd s) = (views s)(c \<mapsto> view_channel s c (new_Channel (loop_id s) fd))"
    and "pl_channels s d \<noteq> Some c"
proof -
  note pok = loop_okD(1) [OF ok]
  show other: "pl_channels s d \<noteq> Some c" for d
    using poller_okD(1) [OF pok, of d c] fresh by (auto simp: entry_ok_def)
  let ?t = "create_Channel c fd s"
  have "watched ?t = watched s"
    using other by (auto simp: fun_eq_iff watched_def create_Channel_def put_chan_def split: option.splits)
  then have "poller_ok ?t"
    using pok other by (auto simp: poller_ok_def create_Channel_def put_chan_def new_Channel_def kNew_def)
  then show "loop_ok ?t"
    using ok other by (auto simp: loop_ok_def create_Channel_def put_chan_def new_Channel_def)
  show "views ?t = (views s)(c \<mapsto> view_channel s c (new_Channel (loop_id s) fd))"
    by (auto simp: fun_eq_iff views_def create_Channel_def put_chan_def)
qed

lemma new_EventLoop_ok:
  fixes cb :: 'f
  shows "\<exists>s. new_EventLoop this self fd c cb = Inr s \<and> loop_ok s \<and> wakeupChannel s = c \<and>
     pendingFunctors s = [] \<and> \<not> quit_flag s \<and> \<not> callingPendingFunctors s \<and> threadId s = self \<and>
     eventfd_count s = 0 \<and> \<not> looping s \<and> activeChannels s = [] \<and> \<not> lp_eventHandling s \<and>
     views s = [c \<mapsto> \<lparr>cv_fd = fd, cv_events = kReadEvent, cv_registered = True,
       cv_handling = False, cv_waiting = False\<rparr>]"
proof -
  define p where "p = (new_EPollPoller :: 'f poller)"
  define s0 :: "'f loop" where "s0 = \<lparr> chans = chans p, use_count = use_count p,
                pl_channels = pl_channels p, event_capacity = event_capacity p, ctl_log = ctl_log p,
                loop_id = this, looping = False, quit_flag = False, lp_eventHandling = False,
                callingPendingFunctors = False, threadId = self, pollReturnTime = ts_default,
                wakeupFd = fd, wakeupChannel = c, activeChannels = [], currentActiveChannel = None,
                pendingFunctors = [], eventfd_count = 0, closed_fds = [] \<rparr>"
  have "loop_ok s0"
    by (simp add: s0_def p_def loop_ok_def poller_ok_def new_EPollPoller_def kInitEventListSize_def watched_def fun_eq_iff)
  then have ok1: "loop_ok (create_Channel c fd s0)"
    by (rule create_Channel_ok) (simp add: s0_def p_def new_EPollPoller_def)
  let ?ch = "(new_Channel (loop_id s0) fd)\<lparr>readCallback := Some cb\<rparr>"
  let ?s = "put_chan c ?ch (create_Channel c fd s0)"
  have ok2: "loop_ok ?s"
    using ok1 by (rule put_chan_loop_ok) (simp_all add: create_Channel_def put_chan_def)
  have ch: "chans ?s c = Some ?ch" by (simp add: put_chan_def)
  have "new_EventLoop this self fd c cb = enableReading c ?s"
    unfolding new_EventLoop_def s0_def [symmetric] p_def [symmetric] Let_def
    by (simp add: upd_chan_def chan_def create_Channel_def put_chan_def setReadCallback_def)
  moreover obtain s' where s': "set_interest (\<lambda>m. m OR kReadEvent) c ?s = Inr s'" "loop_ok s'"
    "poller_change ?s s'" "views s' = (views ?s)(c \<mapsto> (view_channel ?s c ?ch)\<lparr>cv_events := 0 OR kReadEvent, cv_registered := True\<rparr>)"
    using set_interest_ok [OF ok2 ch, of "\<lambda>m. m OR kReadEvent"]
    by (auto simp: s0_def p_def put_chan_def new_EPollPoller_def create_Channel_def new_Channel_def)
  moreover have "wakeupChannel s' = c" "pendingFunctors s' = []" "\<not> quit_flag s'"
      "\<not> callingPendingFunctors s'" "threadId s' = self" "eventfd_count s' = 0" "\<not> looping s'"
      "activeChannels s' = []" "\<not> lp_eventHandling s'"
    by (simp_all add: loop_fields_change [OF s'(3)] put_chan_def create_Channel_def s0_def)
  moreover have "views ?s = [c \<mapsto> view_channel ?s c ?ch]"
    by (simp add: fun_eq_iff views_def put_chan_def create_Channel_def s0_def p_def new_EPollPoller_def)
  moreover have "view_channel s0 c ?ch = \<lparr>cv_fd = fd, cv_events = 0, cv_registered = False,
       cv_handling = False, cv_waiting = False\<rparr>"
    by (simp add: view_channel_def s0_def p_def new_EPollPoller_def new_Channel_def)
  ultimately show ?thesis
    by (simp add: interest_ops)
qed

text \<open>The kernel's interest, seen from the owners of channels.\<close>

lemma watched_views:
  assumes ok: "loop_ok s"
  shows "views s c = Some v \<Longrightarrow> cv_registered v \<Longrightarrow> cv_events v \<noteq> kNoneEvent \<Longrightarrow>
      watched s (cv_fd v) = Some (cv_events v, c)"
    and "watched s fd = Some (m, c) \<Longrightarrow>
      \<exists>v. views s c = Some v \<and> cv_registered v \<and> cv_fd v = fd \<and> cv_events v = m"
proof -
  note pok = loop_okD(1) [OF ok]
  show "watched s (cv_fd v) = Some (cv_events v, c)"
    if "views s c = Some v" "cv_registered v" "cv_events v \<noteq> kNoneEvent"
  proof -
    from that(1) obtain ch where "chans s c = Some ch" "v = view_channel s c ch"
      by (auto simp: views_def)
    with that poller_ok_index [OF pok this(1)] show ?thesis
      by (auto simp: watched_def view_channel_def isNoneEvent_def)
  qed
  show "\<exists>v. views s c = Some v \<and> cv_registered v \<and> cv_fd v = fd \<and> cv_events v = m"
    if "watched s fd = Some (m, c)"
    using watched_live [OF that pok] by (auto simp: views_def view_channel_def)
qed

section \<open>Properties\<close>

text \<open>C4: owners that keep the protocol of channels (register a descriptor once, remove a channel
  only when it watches nothing, destroy it only when it is removed) never fail an assertion of
  \<open>Channel\<close>, \<open>EventLoop\<close> or \<open>EPollPoller\<close>, whatever the order of their operations;
  every call of \<open>epoll_ctl\<close> succeeds and the kernel then watches exactly what the registered
  channels ask for.  The first use that breaks the protocol fails an assertion.\<close>

theorem channel_protocol:
  assumes "loop_ok s"
  shows "case spec_run chan_spec ops (views s) of
      None \<Rightarrow> \<exists>e. foldr_res (chan_step self) ops s = Inl e
    | Some a \<Rightarrow> \<exists>s' k. foldr_res (chan_step self) ops s = Inr s' \<and> views s' = a \<and>
        kernel_replay (ctl_log s') Map.empty = Some k \<and>
        (\<forall>c v. a c = Some v \<and> cv_registered v \<and> cv_events v \<noteq> kNoneEvent \<longrightarrow>
           k (cv_fd v) = Some (cv_events v, c)) \<and>
        (\<forall>fd m c. k fd = Some (m, c) \<longrightarrow>
           (\<exists>v. a c = Some v \<and> cv_registered v \<and> cv_fd v = fd \<and> cv_events v = m))"
proof (cases "foldr_res (chan_step self) ops s")
  case (Inl e)
  then show ?thesis using channels.run_refines [OF assms, of self ops] by simp
next
  case (Inr s')
  then have r: "loop_ok s'" "spec_run chan_spec ops (views s) = Some (views s')"
    using channels.run_refines [OF assms, of self ops] by simp_all
  then show ?thesis
    using Inr poller_okD(3) [OF loop_okD(1) [OF r(1)]] watched_views [OF r(1)] by auto
qed

text \<open>A loop with its wakeup channel at address 3, descriptor 9.\<close>

definition sample_loop :: "nat loop" where
  "sample_loop = (case new_EventLoop 0 1 9 3 (0 :: nat) of Inl _ \<Rightarrow> undefined | Inr s \<Rightarrow> s)"

lemma sample_loop:
  "new_EventLoop 0 1 9 3 (0 :: nat) = Inr sample_loop" "loop_ok sample_loop"
  "pendingFunctors sample_loop = []" "\<not> quit_flag sample_loop" "\<not> callingPendingFunctors sample_loop"
  "threadId sample_loop = 1" "eventfd_count sample_loop = 0" "\<not> looping sample_loop"
  "views sample_loop = [3 \<mapsto> \<lparr>cv_fd = 9, cv_events = kReadEvent, cv_registered = True,
       cv_handling = False, cv_waiting = False\<rparr>]"
  using new_EventLoop_ok [of 0 1 9 3 "0 :: nat"] by (auto simp: sample_loop_def)

theorem channel_protocol_witness:
  "\<exists>s' k. foldr_res (chan_step 1) [Interest (\<lambda>m. m OR kWriteEvent) 3] sample_loop = Inr s' \<and>
     kernel_replay (ctl_log s') Map.empty = Some k \<and> k 9 = Some (kReadEvent OR kWriteEvent, 3)"
proof -
  let ?ops = "[Interest (\<lambda>m. m OR kWriteEvent) 3]"
  have "spec_run chan_spec ?ops (views sample_loop) = Some [3 \<mapsto> \<lparr>cv_fd = 9,
      cv_events = kReadEvent OR kWriteEvent, cv_registered = True, cv_handling = False, cv_waiting = False\<rparr>]"
    by (simp add: sample_loop(9))
  moreover have "kReadEvent OR kWriteEvent \<noteq> kNoneEvent"
    by (simp add: kNoneEvent_def kReadEvent_def kWriteEvent_def poll_bits)
  ultimately show ?thesis
    using channel_protocol [OF sample_loop(2), where ops = ?ops and self = 1] by fastforce
qed

text \<open>A second \<open>disableAll\<close> registers the descriptor again: the channel of a registered
  connection that is switched off twice is added to \<open>epoll\<close> with an empty event mask, so that
  the kernel goes on reporting errors and hang-ups for it.\<close>

theorem disableAll_twice:
  assumes "loop_ok s" "chans s c = Some ch" "pl_channels s (ch_fd ch) = Some c" "ch_index ch = kAdded"
    and "\<not> isNoneEvent ch"
  shows "\<exists>s1 s2. disableAll c s = Inr s1 \<and> watched s1 (ch_fd ch) = None \<and>
    disableAll c s1 = Inr s2 \<and> watched s2 (ch_fd ch) = Some (kNoneEvent, c)"
proof -
  let ?c1 = "ch\<lparr>ch_events := kNoneEvent, addedToLoop := True\<rparr>"
  let ?s1 = "updated c ?c1 (put_chan c ?c1 s)"
  have s1: "disableAll c s = Inr ?s1"
    unfolding interest_ops using assms by (intro set_interest_eq) simp_all
  have ok1: "loop_ok ?s1"
    using set_interest_ok [OF assms(1,2), of "\<lambda>_. kNoneEvent"] assms(3) s1
    by (simp add: interest_ops)
  define d where "d = ?c1\<lparr>ch_index := kDeleted\<rparr>"
  have d: "d\<lparr>ch_events := kNoneEvent, addedToLoop := True\<rparr> = d" "ch_fd d = ch_fd ch"
      "ch_index d = kDeleted" "ch_events d = kNoneEvent"
    by (cases ch; simp add: d_def)+
  have c1: "chans ?s1 c = Some d" "pl_channels ?s1 (ch_fd ch) = Some c"
    using assms(4) by (simp_all add: d_def updated_def put_chan_def set_index_def isNoneEvent_def)
  have s2: "disableAll c ?s1 = Inr (updated c d (put_chan c d ?s1))" (is "_ = Inr ?s2")
    unfolding interest_ops using set_interest_eq [OF ok1 c1(1), of "\<lambda>_. kNoneEvent"] c1(2) d by simp
  moreover have "watched ?s1 (ch_fd ch) = None"
    using c1 by (simp add: watched_def d)
  moreover have "watched ?s2 (ch_fd ch) = Some (kNoneEvent, c)"
    by (simp add: watched_def updated_def put_chan_def set_index_def d)
  ultimately show ?thesis using s1 by blast
qed

theorem disableAll_twice_witness:
  "\<exists>s1 s2. disableAll 3 sample_loop = Inr s1 \<and> watched s1 9 = None \<and>
    disableAll 3 s1 = Inr s2 \<and> watched s2 9 = Some (kNoneEvent, 3)"
proof -
  have "views sample_loop 3 = Some \<lparr>cv_fd = 9, cv_events = kReadEvent, cv_registered = True,
       cv_handling = False, cv_waiting = False\<rparr>"
    by (simp add: sample_loop(9))
  then obtain ch where ch: "chans sample_loop 3 = Some ch" "ch_fd ch = 9" "ch_events ch = kReadEvent"
      "pl_channels sample_loop 9 = Some 3"
    by (auto simp: views_def view_channel_def)
  moreover have none: "\<not> isNoneEvent ch"
    using ch(3) by (simp add: isNoneEvent_def kNoneEvent_def kReadEvent_def poll_bits)
  moreover have "ch_index ch = kAdded"
    using poller_ok_index [OF loop_okD(1) [OF sample_loop(2)] ch(1)] ch none by auto
  ultimately show ?thesis
    using disableAll_twice [OF sample_loop(2) ch(1)] by simp
qed

end
