(* ===== verification/LoopThreads.thy ===== *)
theory LoopThreads
  imports EventLoop
begin

text \<open>
  The loop and the threads that call \<open>queueInLoop\<close> and \<open>quit\<close> from outside: an interleaving
  of atomic steps over the state of theory \<open>EventLoop\<close>.  A step of another thread is one of
  the two halves of these functions: the push under the mutex (or \<open>quit_ = true\<close>), and what
  follows it, where the thread decides whether to wake the loop up.  The loop thread goes through
  \<open>while (!quit_)\<close>, \<open>poll\<close>, the handlers (with \<open>EventLoop::handleRead\<close> when the wakeup
  channel is reported) and \<open>doPendingFunctors\<close>; its callbacks call the same functions.  The poll may
  always return, by another event or its timeout; the theorems say when it need not wait for either.
\<close>

section \<open>The system\<close>

datatype 'f loop_pc =
    At_Test              \<comment> \<open>before the condition of \<open>while (!quit_)\<close>\<close>
  | In_Poll              \<comment> \<open>in \<open>poller_->poll\<close>\<close>
  | Handling bool        \<comment> \<open>in the handlers; is the wakeup channel still to be handled\<close>
  | Running "'f list"    \<comment> \<open>in \<open>doPendingFunctors\<close>; what is left of \<open>functors\<close>\<close>
  | Loop_Done            \<comment> \<open>behind the loop\<close>

datatype loop_call = In_QueueInLoop | In_Quit

record 'f system =
  lp :: "'f loop"
  lpc :: "'f loop_pc"
  owes :: "nat \<Rightarrow> loop_call option"   \<comment> \<open>threads between the two halves of a call\<close>
  queued :: "'f list"        \<comment> \<open>all functors passed to \<open>queueInLoop\<close>, in the order of the mutex\<close>
  executed :: "'f list"      \<comment> \<open>all functors called by \<open>doPendingFunctors\<close>, in order\<close>

definition in_callback :: "'f system \<Rightarrow> bool" where
  "in_callback s \<longleftrightarrow> (case lpc s of Handling _ \<Rightarrow> True | Running _ \<Rightarrow> True | _ \<Rightarrow> False)"

text \<open>The thread may call a function of the loop now.\<close>

definition may_call :: "nat \<Rightarrow> 'f system \<Rightarrow> bool" where
  "may_call t s \<longleftrightarrow> owes s t = None \<and> (isInLoopThread t (lp s) \<longrightarrow> in_callback s)"

definition loop_thread_free :: "'f system \<Rightarrow> bool" where
  "loop_thread_free s \<longleftrightarrow> owes s (threadId (lp s)) = None"

inductive sys_step :: "'f system \<Rightarrow> 'f system \<Rightarrow> bool" where
  Push: "may_call t s \<Longrightarrow>
    sys_step s (s\<lparr>lp := queue_push f (lp s), queued := queued s @ [f], owes := (owes s)(t \<mapsto> In_QueueInLoop)\<rparr>)"
| Push_Wake: "owes s t = Some In_QueueInLoop \<Longrightarrow>
    sys_step s (s\<lparr>lp := queue_wakeup t (lp s), owes := (owes s)(t := None)\<rparr>)"
| Quit: "may_call t s \<Longrightarrow>
    sys_step s (s\<lparr>lp := (lp s)\<lparr>quit_flag := True\<rparr>, owes := (owes s)(t \<mapsto> In_Quit)\<rparr>)"
| Quit_Wake: "owes s t = Some In_Quit \<Longrightarrow>
    sys_step s (s\<lparr>lp := quit_wakeup t (lp s), owes := (owes s)(t := None)\<rparr>)"
| Test_Quit: "lpc s = At_Test \<Longrightarrow> quit_flag (lp s) \<Longrightarrow> sys_step s (s\<lparr>lpc := Loop_Done\<rparr>)"
| Test_Go: "lpc s = At_Test \<Longrightarrow> \<not> quit_flag (lp s) \<Longrightarrow> sys_step s (s\<lparr>lpc := In_Poll\<rparr>)"
| Poll: "lpc s = In_Poll \<Longrightarrow> sys_step s (s\<lparr>lpc := Handling (eventfd_count (lp s) > 0)\<rparr>)"
| Read: "lpc s = Handling True \<Longrightarrow> loop_thread_free s \<Longrightarrow>
    sys_step s (s\<lparr>lp := loop_handleRead (lp s), lpc := Handling False\<rparr>)"
| Swap: "lpc s = Handling False \<Longrightarrow> loop_thread_free s \<Longrightarrow>
    sys_step s (s\<lparr>lp := (lp s)\<lparr>callingPendingFunctors := True, pendingFunctors := []\<rparr>,
      lpc := Running (pendingFunctors (lp s))\<rparr>)"
| Call: "lpc s = Running (f # fs) \<Longrightarrow> loop_thread_free s \<Longrightarrow>
    sys_step s (s\<lparr>lpc := Running fs, executed := executed s @ [f]\<rparr>)"
| Finish: "lpc s = Running [] \<Longrightarrow> loop_thread_free s \<Longrightarrow>
    sys_step s (s\<lparr>lp := (lp s)\<lparr>callingPendingFunctors := False\<rparr>, lpc := At_Test\<rparr>)"

text \<open>
  Where \<open>loop()\<close> starts: it has just reset \<open>quit_\<close>; functors may already be queued if their
  threads have woken the loop, or still will.
\<close>

definition someone_wakes :: "'f system \<Rightarrow> bool" where
  "someone_wakes s \<longleftrightarrow> eventfd_count (lp s) > 0 \<or> (\<exists>t. owes s t \<noteq> None \<and> t \<noteq> threadId (lp s))"

definition loop_start :: "'f system \<Rightarrow> bool" where
  "loop_start s \<longleftrightarrow>
     lpc s = At_Test \<and> \<not> quit_flag (lp s) \<and> \<not> callingPendingFunctors (lp s) \<and>
     executed s = [] \<and> queued s = pendingFunctors (lp s) \<and> loop_thread_free s \<and>
     (pendingFunctors (lp s) \<noteq> [] \<longrightarrow> someone_wakes s)"

inductive sys_reach :: "'f system \<Rightarrow> bool" where
  Start: "loop_start s \<Longrightarrow> sys_reach s"
| Step: "sys_reach s \<Longrightarrow> sys_step s s' \<Longrightarrow> sys_reach s'"

section \<open>The invariant\<close>

definition left_to_call :: "'f system \<Rightarrow> 'f list" where
  "left_to_call s = (case lpc s of Running fs \<Rightarrow> fs | _ \<Rightarrow> [])"

text \<open>
  The loop thread is inside a call only in its callbacks.  While it calls functors a call of its own
  counts, too: it will find \<open>callingPendingFunctors_\<close> set.
\<close>

definition will_be_woken :: "'f system \<Rightarrow> bool" where
  "will_be_woken s \<longleftrightarrow> someone_wakes s \<or>
     ((\<exists>fs. lpc s = Running fs) \<and> owes s (threadId (lp s)) = Some In_QueueInLoop)"

definition sys_inv :: "'f system \<Rightarrow> bool" where
  "sys_inv s \<longleftrightarrow>
     (callingPendingFunctors (lp s) = (\<exists>fs. lpc s = Running fs)) \<and>
     queued s = executed s @ left_to_call s @ pendingFunctors (lp s) \<and>
     (\<not> loop_thread_free s \<longrightarrow> in_callback s) \<and>
     ((\<forall>b. lpc s \<noteq> Handling b) \<longrightarrow> lpc s \<noteq> Loop_Done \<longrightarrow> pendingFunctors (lp s) \<noteq> [] \<longrightarrow> will_be_woken s) \<and>
     (lpc s = In_Poll \<longrightarrow> quit_flag (lp s) \<longrightarrow> someone_wakes s)"

lemma eventfd_wakeup: "eventfd_count (wakeup s) > 0"
  by (auto simp: wakeup_def)

lemma wakeup_fields [simp]:
  "pendingFunctors (wakeup s) = pendingFunctors s" "quit_flag (wakeup s) = quit_flag s"
  "callingPendingFunctors (wakeup s) = callingPendingFunctors s" "threadId (wakeup s) = threadId s"
  by (simp_all add: wakeup_def)

lemma start_inv: "loop_start s \<Longrightarrow> sys_inv s"
  by (auto simp: loop_start_def sys_inv_def left_to_call_def will_be_woken_def)

lemmas sys_defs = sys_inv_def someone_wakes_def will_be_woken_def left_to_call_def may_call_def in_callback_def
  loop_thread_free_def isInLoopThread_def

lemma step_inv:
  assumes "sys_step s s'" "sys_inv s"
  shows "sys_inv s'"
  using assms
proof (cases rule: sys_step.cases)
  case (Push t f)
  then show ?thesis using assms(2) by (auto simp: sys_defs queue_push_def split: loop_pc.splits)
next
  case (Push_Wake t)
  show ?thesis
  proof (cases "isInLoopThread t (lp s) \<and> \<not> callingPendingFunctors (lp s)")
    case True
    then show ?thesis using Push_Wake assms(2)
      by (auto simp: sys_defs queue_wakeup_def split: loop_pc.splits)
  next
    case False
    then have "queue_wakeup t (lp s) = wakeup (lp s)" by (auto simp: queue_wakeup_def)
    then show ?thesis using Push_Wake assms(2) eventfd_wakeup [of "lp s"]
      by (auto simp: sys_defs split: loop_pc.splits)
  qed
next
  case (Quit t)
  then show ?thesis using assms(2) by (auto simp: sys_defs split: loop_pc.splits)
next
  case (Quit_Wake t)
  show ?thesis
  proof (cases "isInLoopThread t (lp s)")
    case True
    then show ?thesis using Quit_Wake assms(2) by (auto simp: sys_defs quit_wakeup_def split: loop_pc.splits)
  next
    case False
    then have "quit_wakeup t (lp s) = wakeup (lp s)" by (simp add: quit_wakeup_def)
    then show ?thesis using Quit_Wake assms(2) eventfd_wakeup [of "lp s"]
      by (auto simp: sys_defs split: loop_pc.splits)
  qed
qed (use assms(2) in \<open>auto simp: sys_defs loop_handleRead_def split: loop_pc.splits\<close>)

lemma reach_inv: "sys_reach s \<Longrightarrow> sys_inv s"
  by (induction rule: sys_reach.induct) (auto intro: start_inv step_inv)

section \<open>The code of the loop's thread\<close>

text \<open>
  The steps of the loop's thread are those of \<open>doPendingFunctors\<close> and \<open>loop_once\<close>, taken one at a time.
  A functor may queue others and call \<open>quit\<close>: \<open>does f\<close> is what \<open>f\<close> does, in order.  For the comparison
  the state of theory \<open>EventLoop\<close> carries the two logs of the system.
\<close>

datatype 'f act = Queue_Functor 'f | Ask_Quit

type_synonym 'f logged_loop = "('f, 'f list \<times> 'f list) loop_scheme"

definition with_logs :: "'f system \<Rightarrow> 'f logged_loop" where
  "with_logs s = loop.extend (lp s) (queued s, executed s)"

fun perform :: "nat \<Rightarrow> 'f act \<Rightarrow> 'f logged_loop \<Rightarrow> 'f logged_loop" where
  "perform self (Queue_Functor f) s = queueInLoop self f (loop.more_update (\<lambda>(q, x). (q @ [f], x)) s)"
| "perform self Ask_Quit s = quit self s"

fun logging :: "('f \<Rightarrow> 'f act list) \<Rightarrow> nat \<Rightarrow> 'f call \<Rightarrow> 'f logged_loop \<Rightarrow> 'f logged_loop res" where
  "logging does self (Run f) s =
     Inr (fold (perform self) (does f) (loop.more_update (\<lambda>(q, x). (q, x @ [f])) s))"
| "logging does self (Run_Read f t) s = Inr (loop_handleRead s)"
| "logging does self k s = Inr s"

fun sys_perform :: "'f act \<Rightarrow> 'f system \<Rightarrow> 'f system" where
  "sys_perform (Queue_Functor f) s = s\<lparr>lp := queueInLoop (threadId (lp s)) f (lp s), queued := queued s @ [f]\<rparr>"
| "sys_perform Ask_Quit s = s\<lparr>lp := quit (threadId (lp s)) (lp s)\<rparr>"

fun queues :: "'f act \<Rightarrow> 'f list" where
  "queues (Queue_Functor f) = [f]"
| "queues Ask_Quit = []"

lemma loop_extend_fields [simp]:
  "pendingFunctors (loop.extend l m) = pendingFunctors l" "threadId (loop.extend l m) = threadId l"
  "callingPendingFunctors (loop.extend l m) = callingPendingFunctors l" "quit_flag (loop.extend l m) = quit_flag l"
  "eventfd_count (loop.extend l m) = eventfd_count l"
  by (simp_all add: loop.defs)

lemma queueInLoop_threadId [simp]: "threadId (queueInLoop self f s) = threadId s" "threadId (quit self s) = threadId s"
  by (simp_all add: queueInLoop_def queue_push_def queue_wakeup_def wakeup_def quit_def quit_wakeup_def)

lemma extend_ops:
  "queueInLoop self f (loop.extend l m) = loop.extend (queueInLoop self f l) m"
  "quit self (loop.extend l m) = loop.extend (quit self l) m"
  "loop.more_update g (loop.extend l m) = loop.extend l (g m)"
  by (simp_all add: loop.defs queueInLoop_def queue_push_def queue_wakeup_def wakeup_def quit_def quit_wakeup_def
      isInLoopThread_def)

text \<open>What a functor does are steps of the system.\<close>

lemma act_steps:
  assumes "lpc s = Running fs" "loop_thread_free s"
  shows "sys_step\<^sup>*\<^sup>* s (sys_perform a s)" "with_logs (sys_perform a s) = perform (threadId (lp s)) a (with_logs s)"
    "lpc (sys_perform a s) = Running fs" "loop_thread_free (sys_perform a s)" "threadId (lp (sys_perform a s)) = threadId (lp s)"
    "executed (sys_perform a s) = executed s"
    "pendingFunctors (lp (sys_perform a s)) = pendingFunctors (lp s) @ queues a"
proof -
  let ?t = "threadId (lp s)"
  have free: "owes s ?t = None" using assms(2) by (simp add: loop_thread_free_def)
  have may: "may_call ?t s" using free assms(1) by (simp add: may_call_def in_callback_def)
  show "sys_step\<^sup>*\<^sup>* s (sys_perform a s)"
  proof (cases a)
    case (Queue_Functor f)
    let ?s1 = "s\<lparr>lp := queue_push f (lp s), queued := queued s @ [f], owes := (owes s)(?t \<mapsto> In_QueueInLoop)\<rparr>"
    have 1: "sys_step s ?s1" by (rule sys_step.Push [OF may])
    have 2: "sys_step ?s1 (?s1\<lparr>lp := queue_wakeup ?t (lp ?s1), owes := (owes ?s1)(?t := None)\<rparr>)"
      by (rule sys_step.Push_Wake) simp
    have "?s1\<lparr>lp := queue_wakeup ?t (lp ?s1), owes := (owes ?s1)(?t := None)\<rparr> = sys_perform a s"
      using free by (simp add: Queue_Functor queueInLoop_def fun_upd_idem)
    then show ?thesis using 1 2 by (metis converse_rtranclp_into_rtranclp rtranclp.rtrancl_refl)
  next
    case Ask_Quit
    let ?s1 = "s\<lparr>lp := (lp s)\<lparr>quit_flag := True\<rparr>, owes := (owes s)(?t \<mapsto> In_Quit)\<rparr>"
    have 1: "sys_step s ?s1" by (rule sys_step.Quit [OF may])
    have 2: "sys_step ?s1 (?s1\<lparr>lp := quit_wakeup ?t (lp ?s1), owes := (owes ?s1)(?t := None)\<rparr>)"
      by (rule sys_step.Quit_Wake) simp
    have "?s1\<lparr>lp := quit_wakeup ?t (lp ?s1), owes := (owes ?s1)(?t := None)\<rparr> = sys_perform a s"
      using free by (simp add: Ask_Quit quit_def fun_upd_idem)
    then show ?thesis using 1 2 by (metis converse_rtranclp_into_rtranclp rtranclp.rtrancl_refl)
  qed
  show "with_logs (sys_perform a s) = perform ?t a (with_logs s)"
    by (cases a) (simp_all add: with_logs_def extend_ops)
  show "pendingFunctors (lp (sys_perform a s)) = pendingFunctors (lp s) @ queues a"
    by (cases a) (simp_all add: queueInLoop_def queue_push_def queue_wakeup_def quit_def quit_wakeup_def)
qed (cases a; use assms in \<open>simp add: loop_thread_free_def\<close>)+

lemma acts_steps:
  assumes "lpc s = Running fs" "loop_thread_free s"
  shows "\<exists>s'. sys_step\<^sup>*\<^sup>* s s' \<and> with_logs s' = fold (perform (threadId (lp s))) as (with_logs s) \<and>
    lpc s' = Running fs \<and> loop_thread_free s' \<and> threadId (lp s') = threadId (lp s) \<and> executed s' = executed s \<and>
    pendingFunctors (lp s') = pendingFunctors (lp s) @ concat (map queues as)"
  using assms
proof (induction as arbitrary: s)
  case (Cons a as)
  note a = act_steps [OF Cons.prems, of a]
  from Cons.IH [OF a(3,4)] obtain s' where "sys_step\<^sup>*\<^sup>* (sys_perform a s) s'"
      "with_logs s' = fold (perform (threadId (lp s))) (a # as) (with_logs s)" "lpc s' = Running fs" "loop_thread_free s'"
      "threadId (lp s') = threadId (lp s)" "executed s' = executed s"
      "pendingFunctors (lp s') = pendingFunctors (lp s) @ concat (map queues (a # as))"
    using a(2,5-7) by auto
  then show ?case using a(1) by (meson rtranclp_trans)
qed auto

text \<open>The functors of a batch, one after the other.\<close>

lemma functors_steps:
  assumes "lpc s = Running fs" "loop_thread_free s"
  shows "\<exists>s'. sys_step\<^sup>*\<^sup>* s s' \<and>
    foldr_res (\<lambda>f. logging does (threadId (lp s)) (Run f)) fs (with_logs s) = Inr (with_logs s') \<and>
    lpc s' = Running [] \<and> loop_thread_free s' \<and> threadId (lp s') = threadId (lp s) \<and> executed s' = executed s @ fs \<and>
    pendingFunctors (lp s') = pendingFunctors (lp s) @ concat (map (\<lambda>f. concat (map queues (does f))) fs)"
  using assms
proof (induction fs arbitrary: s)
  case (Cons f fs)
  let ?s1 = "s\<lparr>lpc := Running fs, executed := executed s @ [f]\<rparr>"
  have 1: "sys_step s ?s1" by (rule sys_step.Call [OF Cons.prems])
  obtain s2 where s2: "sys_step\<^sup>*\<^sup>* ?s1 s2" "with_logs s2 = fold (perform (threadId (lp s))) (does f) (with_logs ?s1)"
      "lpc s2 = Running fs" "loop_thread_free s2" "threadId (lp s2) = threadId (lp s)" "executed s2 = executed s @ [f]"
      "pendingFunctors (lp s2) = pendingFunctors (lp s) @ concat (map queues (does f))"
    using acts_steps [of ?s1 fs "does f"] Cons.prems(2) by (auto simp: loop_thread_free_def)
  have "with_logs ?s1 = loop.more_update (\<lambda>(q, x). (q, x @ [f])) (with_logs s)" by (simp add: with_logs_def extend_ops)
  then have run: "logging does (threadId (lp s)) (Run f) (with_logs s) = Inr (with_logs s2)" using s2(2) by simp
  from Cons.IH [OF s2(3,4)] obtain s' where s': "sys_step\<^sup>*\<^sup>* s2 s'"
      "foldr_res (\<lambda>f. logging does (threadId (lp s)) (Run f)) fs (with_logs s2) = Inr (with_logs s')"
      "lpc s' = Running []" "loop_thread_free s'" "threadId (lp s') = threadId (lp s)" "executed s' = executed s @ f # fs"
      "pendingFunctors (lp s') = pendingFunctors (lp s) @ concat (map (\<lambda>f. concat (map queues (does f))) (f # fs))"
    using s2(5-7) by (auto simp del: logging.simps)
  have "sys_step\<^sup>*\<^sup>* s s'" using 1 s2(1) s'(1) by (meson converse_rtranclp_into_rtranclp rtranclp_trans)
  moreover have "foldr_res (\<lambda>f. logging does (threadId (lp s)) (Run f)) (f # fs) (with_logs s) = Inr (with_logs s')"
    unfolding foldr_res.simps run bindr.simps by (rule s'(2))
  ultimately show ?case using s'(3-7) by blast
qed auto

lemma batch_steps:
  assumes "lpc s = Handling False" "loop_thread_free s"
  shows "\<exists>s'. sys_step\<^sup>*\<^sup>* s s' \<and> doPendingFunctors (logging does (threadId (lp s))) (with_logs s) = Inr (with_logs s') \<and>
    lpc s' = At_Test \<and> loop_thread_free s' \<and> executed s' = executed s @ pendingFunctors (lp s) \<and>
    pendingFunctors (lp s') = concat (map (\<lambda>f. concat (map queues (does f))) (pendingFunctors (lp s)))"
proof -
  let ?s1 = "s\<lparr>lp := (lp s)\<lparr>callingPendingFunctors := True, pendingFunctors := []\<rparr>, lpc := Running (pendingFunctors (lp s))\<rparr>"
  have 1: "sys_step s ?s1" by (rule sys_step.Swap [OF assms])
  have logs1: "with_logs ?s1 = (with_logs s)\<lparr>callingPendingFunctors := True, pendingFunctors := []\<rparr>"
    by (simp add: with_logs_def loop.defs)
  obtain s2 where s2: "sys_step\<^sup>*\<^sup>* ?s1 s2"
      "foldr_res (\<lambda>f. logging does (threadId (lp s)) (Run f)) (pendingFunctors (lp s)) (with_logs ?s1) = Inr (with_logs s2)"
      "lpc s2 = Running []" "loop_thread_free s2" "executed s2 = executed s @ pendingFunctors (lp s)"
      "pendingFunctors (lp s2) = concat (map (\<lambda>f. concat (map queues (does f))) (pendingFunctors (lp s)))"
    using functors_steps [of ?s1 "pendingFunctors (lp s)" does] assms(2) by (auto simp: loop_thread_free_def)
  let ?s3 = "s2\<lparr>lp := (lp s2)\<lparr>callingPendingFunctors := False\<rparr>, lpc := At_Test\<rparr>"
  have 3: "sys_step s2 ?s3" by (rule sys_step.Finish [OF s2(3,4)])
  have "with_logs ?s3 = (with_logs s2)\<lparr>callingPendingFunctors := False\<rparr>" by (simp add: with_logs_def loop.defs)
  moreover have "pendingFunctors (with_logs s) = pendingFunctors (lp s)" by (simp add: with_logs_def)
  ultimately have "doPendingFunctors (logging does (threadId (lp s))) (with_logs s) = Inr (with_logs ?s3)"
    using s2(2) unfolding logs1 by (simp add: doPendingFunctors_def Let_def)
  moreover have "sys_step\<^sup>*\<^sup>* s ?s3"
    using 1 s2(1) 3 by (meson converse_rtranclp_into_rtranclp rtranclp.rtrancl_into_rtrancl)
  ultimately show ?thesis using s2(4-6) by (intro exI [of _ ?s3]) (simp add: loop_thread_free_def)
qed

text \<open>What the steps of the system see of the loop.\<close>

definition loop_core :: "'f logged_loop \<Rightarrow> 'f list \<times> bool \<times> bool \<times> nat \<times> int \<times> 'f list \<times> 'f list" where
  "loop_core s = (pendingFunctors s, quit_flag s, callingPendingFunctors s, threadId s, int (eventfd_count s), loop.more s)"

lemma perform_core: "loop_core s = loop_core t \<Longrightarrow> loop_core (perform self a s) = loop_core (perform self a t)"
  by (cases a) (auto simp: loop_core_def queueInLoop_def queue_push_def queue_wakeup_def wakeup_def quit_def quit_wakeup_def
      isInLoopThread_def)

lemma performs_core:
  "loop_core s = loop_core t \<Longrightarrow> loop_core (fold (perform self) as s) = loop_core (fold (perform self) as t)"
proof (induction as arbitrary: s t)
  case (Cons a as)
  show ?case unfolding fold.simps comp_apply by (rule Cons.IH [OF perform_core [OF Cons.prems]])
qed simp

lemma batch_core:
  assumes "loop_core s = loop_core t" "doPendingFunctors (logging does self) t = Inr t'"
  shows "\<exists>s'. doPendingFunctors (logging does self) s = Inr s' \<and> loop_core s' = loop_core t'"
proof -
  have fs: "loop_core s = loop_core t \<Longrightarrow> foldr_res (\<lambda>f. logging does self (Run f)) fs t = Inr t' \<Longrightarrow>
      \<exists>s'. foldr_res (\<lambda>f. logging does self (Run f)) fs s = Inr s' \<and> loop_core s' = loop_core t'" for fs s t t'
  proof (induction fs arbitrary: s t)
    case (Cons f fs)
    have "loop_core (loop.more_update (\<lambda>(q, x). (q, x @ [f])) s) = loop_core (loop.more_update (\<lambda>(q, x). (q, x @ [f])) t)"
      using Cons.prems(1) by (simp add: loop_core_def)
    note one = performs_core [OF this, of self "does f"]
    from Cons.prems(2) have "foldr_res (\<lambda>f. logging does self (Run f)) fs
        (fold (perform self) (does f) (loop.more_update (\<lambda>(q, x). (q, x @ [f])) t)) = Inr t'"
      unfolding foldr_res.simps logging.simps bindr.simps .
    from Cons.IH [OF one this] show ?case unfolding foldr_res.simps logging.simps bindr.simps .
  qed simp
  let ?b = "\<lambda>s :: 'a logged_loop. s\<lparr>callingPendingFunctors := True, pendingFunctors := []\<rparr>"
  have same: "loop_core (?b s) = loop_core (?b t)" "pendingFunctors s = pendingFunctors t"
    using assms(1) by (simp_all add: loop_core_def)
  obtain t1 where t1: "foldr_res (\<lambda>f. logging does self (Run f)) (pendingFunctors t) (?b t) = Inr t1"
      "t' = t1\<lparr>callingPendingFunctors := False\<rparr>"
    using assms(2) by (auto simp: doPendingFunctors_def Let_def res_simps)
  obtain s1 where "foldr_res (\<lambda>f. logging does self (Run f)) (pendingFunctors t) (?b s) = Inr s1" "loop_core s1 = loop_core t1"
    using fs [OF same(1) t1(1)] by blast
  then show ?thesis using t1(2) same(2) by (simp add: doPendingFunctors_def loop_core_def)
qed

text \<open>A whole round of \<open>loop()\<close> in which \<open>poll\<close> reports the wakeup channel, or nothing, is a run of the system.\<close>

lemma round_steps:
  assumes pc: "lpc s = In_Poll" "loop_thread_free s"
    and evs: "evs = (if eventfd_count (lp s) > 0 then [(POLLIN, wakeupChannel (lp s))] else [])"
    and kernel: "poller_ok (with_logs s)" "kernel_answers (with_logs s) evs"
    and ch: "chans (lp s) (wakeupChannel (lp s)) = Some ch" "\<not> tied ch" "readCallback ch = Some rd"
  shows "\<exists>s' l. sys_step\<^sup>*\<^sup>* s s' \<and> lpc s' = At_Test \<and>
    loop_once (logging does (threadId (lp s))) (now, Ready evs) (with_logs s) = Inr l \<and> loop_core l = loop_core (with_logs s') \<and>
    executed s' = executed s @ pendingFunctors (lp s)"
proof -
  let ?exec = "logging does (threadId (lp s))" and ?c = "wakeupChannel (lp s)"
  let ?s0 = "s\<lparr>lpc := Handling (eventfd_count (lp s) > 0)\<rparr>"
  let ?s1 = "s\<lparr>lp := loop_handleRead (lp s), lpc := Handling False\<rparr>"
  have s1: "sys_step\<^sup>*\<^sup>* s ?s1"
  proof (cases "eventfd_count (lp s) > 0")
    case True
    have "sys_step s ?s0" by (rule sys_step.Poll [OF pc(1)])
    moreover have "sys_step ?s0 (?s0\<lparr>lp := loop_handleRead (lp ?s0), lpc := Handling False\<rparr>)"
      by (rule sys_step.Read) (use True pc(2) in \<open>simp_all add: loop_thread_free_def\<close>)
    ultimately show ?thesis by (simp add: converse_rtranclp_into_rtranclp)
  next
    case False
    then have "loop_handleRead (lp s) = lp s" by (simp add: loop_handleRead_def)
    then have "?s1 = ?s0" using False by simp
    then show ?thesis using sys_step.Poll [OF pc(1)] by simp
  qed
  have free1: "loop_thread_free ?s1" using pc(2) by (simp add: loop_thread_free_def loop_handleRead_def)
  have same1: "threadId (lp ?s1) = threadId (lp s)" "executed ?s1 = executed s"
      "pendingFunctors (lp ?s1) = pendingFunctors (lp s)"
    by (simp_all add: loop_handleRead_def)
  obtain s' where s': "sys_step\<^sup>*\<^sup>* ?s1 s'" "doPendingFunctors ?exec (with_logs ?s1) = Inr (with_logs s')"
      "lpc s' = At_Test" "executed s' = executed s @ pendingFunctors (lp s)"
    using batch_steps [of ?s1 does] free1 unfolding same1 by auto
  obtain p where p: "ep_poll now (Ready evs) [] (with_logs s) = Inr (now, map snd evs, p)"
    using ep_poll_ready [OF kernel, of now "[]"] by auto
  let ?q = "p\<lparr>pollReturnTime := now, activeChannels := map snd evs, lp_eventHandling := True\<rparr>"
  have handled: "\<exists>q. foldr_res (handle_active ?exec) (map snd evs) ?q = Inr q \<and>
      loop_core (q\<lparr>currentActiveChannel := None, lp_eventHandling := False\<rparr>) = loop_core (with_logs ?s1)"
  proof (cases "eventfd_count (lp s) > 0")
    case False
    then have "loop_core ?q = loop_core (with_logs ?s1)"
      using p evs by (auto simp: ep_poll_def loop_core_def with_logs_def loop.defs loop_handleRead_def)
    then show ?thesis using False evs by (simp add: loop_core_def)
  next
    case True
    then have evs1: "evs = [(POLLIN, ?c)]" using evs by simp
    have c: "chans (with_logs s) ?c = Some ch" using ch(1) by (simp add: with_logs_def loop.defs)
    let ?p = "put_chan ?c (set_revents POLLIN ch) (with_logs s)"
    have "p = (if Suc 0 = event_capacity ?p then ?p\<lparr>event_capacity := event_capacity ?p * 2\<rparr> else ?p)"
      using p c by (auto simp: evs1 ep_poll_def fillActiveChannels_def chan_Some upd_chan_Some ensure_def split: if_splits)
    then have p': "chans p ?c = Some (set_revents POLLIN ch)" "loop_core p = loop_core (with_logs s)"
      by (auto simp: put_chan_def loop_core_def)
    define r where "r = ?q\<lparr>currentActiveChannel := Some ?c\<rparr>"
    have r: "chans r ?c = Some (set_revents POLLIN ch)" "pollReturnTime r = now" "loop_core r = loop_core (with_logs s)"
      using p' by (simp_all add: r_def loop_core_def)
    have masks: "has POLLIN POLLIN" "\<not> has POLLIN POLLHUP" "\<not> has POLLIN (POLLERR OR POLLNVAL)"
        "has POLLIN (POLLIN OR POLLPRI OR POLLRDHUP)" "\<not> has POLLIN POLLOUT"
      by (simp_all add: mask_simps has_OR has_bits)
    let ?ch = "ch_eventHandling_update (\<lambda>_. True) (set_revents POLLIN ch)"
    have "handleEvent ?exec ?c now r = Inr (put_chan ?c (ch_eventHandling_update (\<lambda>_. False) ?ch) (loop_handleRead (put_chan ?c ?ch r)))"
      using ch(2,3) masks
      by (simp add: handleEvent_def handleEventWithGuard_def fire_def chan_def r(1)
        upd_chan_def put_chan_def set_revents_def loop_handleRead_def)
    then have "foldr_res (handle_active ?exec) (map snd evs) ?q =
        Inr (put_chan ?c (ch_eventHandling_update (\<lambda>_. False) ?ch) (loop_handleRead (put_chan ?c ?ch r)))"
      using r(2) by (simp add: evs1 handle_active_def r_def)
    then show ?thesis
      using r(3) by (simp add: loop_core_def put_chan_def loop_handleRead_def with_logs_def loop.defs)
  qed
  then obtain q where q: "foldr_res (handle_active ?exec) (map snd evs) ?q = Inr q"
      "loop_core (q\<lparr>currentActiveChannel := None, lp_eventHandling := False\<rparr>) = loop_core (with_logs ?s1)"
    by blast
  obtain l where l: "doPendingFunctors ?exec (q\<lparr>currentActiveChannel := None, lp_eventHandling := False\<rparr>) = Inr l"
      "loop_core l = loop_core (with_logs s')"
    using batch_core [OF q(2) s'(2)] by blast
  have "loop_once ?exec (now, Ready evs) (with_logs s) = Inr l"
    using p q(1) l(1) by (simp add: loop_once_def)
  then show ?thesis using s1 s'(1,3,4) l(2) by (meson rtranclp_trans)
qed

section \<open>Properties\<close>

text \<open>C5: no wakeup is lost.  Whenever the loop waits in \<open>poll\<close> (or is about to) while a functor
  is queued or \<open>quit\<close> was called, the wakeup descriptor is readable or some thread is about to
  write it, so that the poll need not time out; this holds for every interleaving.\<close>

theorem no_lost_wakeup:
  assumes "sys_reach s" "lpc s = In_Poll" "pendingFunctors (lp s) \<noteq> [] \<or> quit_flag (lp s)"
  shows "eventfd_count (lp s) > 0 \<or> (\<exists>t. owes s t \<noteq> None \<and> t \<noteq> threadId (lp s))"
  using reach_inv [OF assms(1)] assms(2,3) by (auto simp: sys_inv_def someone_wakes_def will_be_woken_def)

text \<open>C18: the functors are called exactly once each and in the order in which their threads took
  the mutex: what was called, what \<open>doPendingFunctors\<close> still has to call and what is pending
  make up what was queued, in every interleaving.  When no batch is under way nothing else is left over.
  \<open>doPendingFunctors\<close> itself, whatever the functors queue or whether they quit, is a run of the system:
  it calls all that was pending, in order, and leaves exactly what they queued for the next round.\<close>

theorem functors_in_order:
  assumes "sys_reach s"
  shows "queued s = executed s @ left_to_call s @ pendingFunctors (lp s) \<and>
    (callingPendingFunctors (lp s) \<longleftrightarrow> (\<exists>fs. lpc s = Running fs)) \<and>
    (lpc s = Handling False \<and> loop_thread_free s \<longrightarrow>
      (\<exists>s'. sys_step\<^sup>*\<^sup>* s s' \<and> lpc s' = At_Test \<and>
         doPendingFunctors (logging does (threadId (lp s))) (with_logs s) = Inr (with_logs s') \<and>
         executed s' = executed s @ pendingFunctors (lp s) \<and>
         pendingFunctors (lp s') = concat (map (\<lambda>f. concat (map queues (does f))) (pendingFunctors (lp s)))))"
  using reach_inv [OF assms] batch_steps [of s does] by (auto simp: sys_inv_def)

text \<open>A run of two threads: thread 2 queues a functor while the loop polls.\<close>

definition sys0 :: "nat system" where
  "sys0 = \<lparr>lp = sample_loop, lpc = At_Test, owes = Map.empty, queued = [], executed = []\<rparr>"

lemma sys0_polls: "sys_reach (sys0\<lparr>lpc := In_Poll\<rparr>)"
proof -
  have "sys_reach sys0"
    by (rule sys_reach.Start) (simp add: sys0_def loop_start_def loop_thread_free_def sample_loop)
  moreover have "sys_step sys0 (sys0\<lparr>lpc := In_Poll\<rparr>)"
    by (rule sys_step.Test_Go) (simp_all add: sys0_def sample_loop)
  ultimately show ?thesis by (rule sys_reach.Step)
qed

definition sys1 :: "nat system" where
  "sys1 = sys0\<lparr>lpc := In_Poll, lp := queue_push 8 sample_loop, queued := [8], owes := [2 \<mapsto> In_QueueInLoop]\<rparr>"

lemma sys1_reach: "sys_reach sys1"
proof -
  let ?s = "sys0\<lparr>lpc := In_Poll\<rparr>"
  have "sys_step ?s (?s\<lparr>lp := queue_push 8 (lp ?s), queued := queued ?s @ [8],
      owes := (owes ?s)(2 \<mapsto> In_QueueInLoop)\<rparr>)"
    by (rule sys_step.Push) (simp add: may_call_def sys0_def isInLoopThread_def sample_loop)
  with sys0_polls have "sys_reach (?s\<lparr>lp := queue_push 8 (lp ?s), queued := queued ?s @ [8],
      owes := (owes ?s)(2 \<mapsto> In_QueueInLoop)\<rparr>)"
    by (rule sys_reach.Step)
  then show ?thesis
    by (simp add: sys1_def sys0_def isInLoopThread_def sample_loop)
qed

theorem no_lost_wakeup_witness:
  "pendingFunctors (lp sys1) = [8] \<and> (eventfd_count (lp sys1) > 0 \<or> (\<exists>t. owes sys1 t \<noteq> None \<and> t \<noteq> threadId (lp sys1)))"
  using no_lost_wakeup [OF sys1_reach] by (simp add: sys1_def queue_push_def sample_loop)

theorem functors_in_order_witness:
  "queued sys1 = [8] \<and> queued sys1 = executed sys1 @ left_to_call sys1 @ pendingFunctors (lp sys1)"
  using functors_in_order [OF sys1_reach] by (simp add: sys1_def)

text \<open>A \<open>quit\<close> before \<open>loop()\<close> is forgotten: the loop resets \<open>quit_\<close> when it starts,
  and runs as if only the wakeup had happened.\<close>

theorem quit_before_loop_lost:
  "loop_run exec answers (quit self s) = loop_run exec answers (if isInLoopThread self s then s else wakeup s)"
  by (simp add: loop_run_def quit_def quit_wakeup_def wakeup_def isInLoopThread_def Let_def)

text \<open>A functor that the loop's own thread queues before \<open>loop()\<close> wakes nobody: the loop
  reaches \<open>poll\<close> with the functor pending, the wakeup descriptor not readable and no thread
  about to write it, so that it is called only after the poll times out or another event comes.\<close>

theorem queue_before_loop_waits:
  "\<exists>s s'. lp s = queueInLoop 1 f sample_loop \<and> lpc s = At_Test \<and> (\<forall>t. owes s t = None) \<and> sys_step s s' \<and>
     lpc s' = In_Poll \<and> pendingFunctors (lp s') = [f] \<and> eventfd_count (lp s') = 0 \<and> (\<forall>t. owes s' t = None)"
proof -
  let ?s = "sys0\<lparr>lp := queueInLoop 1 f sample_loop\<rparr>"
  have "queueInLoop 1 f sample_loop = queue_push f sample_loop"
    by (simp add: queueInLoop_def queue_wakeup_def isInLoopThread_def sample_loop queue_push_def)
  note lp = this [unfolded One_nat_def]
  have "sys_step ?s (?s\<lparr>lpc := In_Poll\<rparr>)"
    by (rule sys_step.Test_Go) (simp_all add: sys0_def lp sample_loop queue_push_def)
  then show ?thesis
    by (intro exI [of _ ?s] exI [of _ "?s\<lparr>lpc := In_Poll\<rparr>"])
      (simp add: sys0_def lp sample_loop queue_push_def)
qed

end
