(* ===== verification/TimerQueue.thy ===== *)
theory TimerQueue
  imports EventLoop "HOL-Library.Product_Lexorder"
begin

text \<open>
  \<open>net/Timer.h\<close>, \<open>net/Timer.cc\<close>, \<open>net/TimerId.h\<close>, \<open>net/TimerQueue.cc\<close> and the timer
  functions of \<open>EventLoop\<close>.  The state extends the state of the loop by the \<open>Timer\<close> objects
  (named by addresses) and the members of the queue.  The two \<open>std::set\<close>s ordered by address
  are a sorted list without repetitions (iterated from the front) and a set.  The clock
  (\<open>Timestamp::now\<close>) and the allocator are arguments: \<open>alloc\<close> gives a free address, or
  nothing when \<open>new\<close> throws.  The timer descriptor is its last setting, \<open>armed\<close>.
\<close>

section \<open>Timers\<close>

type_synonym taddr = nat

text \<open>A \<open>TimerId\<close>, and equally an \<open>ActiveTimer\<close>: address and sequence number.\<close>

type_synonym timer_id = "taddr \<times> int"

record 'f timer =
  tm_callback :: 'f
  tm_expiration :: timestamp
  tm_interval :: dbl
  tm_repeat :: bool
  tm_sequence :: int

definition new_Timer :: "'f \<Rightarrow> timestamp \<Rightarrow> dbl \<Rightarrow> int \<Rightarrow> 'f timer" where
  "new_Timer cb when interval seq =
     \<lparr> tm_callback = cb, tm_expiration = when, tm_interval = interval, tm_repeat = dbl_pos interval,
       tm_sequence = seq \<rparr>"

definition restart :: "timestamp \<Rightarrow> 'f timer \<Rightarrow> 'f timer" where
  "restart now t =
     (if tm_repeat t then t\<lparr>tm_expiration := addTime now (tm_interval t)\<rparr>
      else t\<lparr>tm_expiration := ts_invalid\<rparr>)"

definition new_TimerId :: timer_id where
  "new_TimerId = (0, 0)"

section \<open>The queue\<close>

record timespec =
  tv_sec :: int
  tv_nsec :: int

type_synonym entry = "timestamp \<times> taddr"

record 'f tqueue = "'f loop" +
  tq_heap :: "taddr \<Rightarrow> 'f timer option"
  numCreated :: int
  timers :: "entry list"
  activeTimers :: "timer_id set"
  callingExpiredTimers :: bool
  cancelingTimers :: "timer_id set"
  timerfdChannel :: cid
  armed :: "(timestamp \<times> timespec) option"   \<comment> \<open>what the timer descriptor was last set for\<close>

definition timer_at :: "taddr \<Rightarrow> ('f, 'm) tqueue_scheme \<Rightarrow> 'f timer res" where
  "timer_at a s = (case tq_heap s a of None \<Rightarrow> Inl Use_After_Free | Some t \<Rightarrow> Inr t)"

definition delete_Timer :: "taddr \<Rightarrow> ('f, 'm) tqueue_scheme \<Rightarrow> ('f, 'm) tqueue_scheme" where
  "delete_Timer a s = s\<lparr>tq_heap := (tq_heap s)(a := None)\<rparr>"

definition UINTPTR_MAX :: taddr where
  "UINTPTR_MAX = 2 ^ 64 - 1"

definition howMuchTimeFromNow :: "timestamp \<Rightarrow> timestamp \<Rightarrow> timespec" where
  "howMuchTimeFromNow clock when =
     (let microseconds = to_int64 (microSecondsSinceEpoch when - microSecondsSinceEpoch clock);
          microseconds = (if microseconds < 100 then 100 else microseconds)
      in \<lparr> tv_sec = microseconds sdiv kMicroSecondsPerSecond,
           tv_nsec = (microseconds smod kMicroSecondsPerSecond) * 1000 \<rparr>)"

definition resetTimerfd :: "timestamp \<Rightarrow> timestamp \<Rightarrow> ('f, 'm) tqueue_scheme \<Rightarrow> ('f, 'm) tqueue_scheme" where
  "resetTimerfd clock expiration s = s\<lparr>armed := Some (expiration, howMuchTimeFromNow clock expiration)\<rparr>"

text \<open>The descriptor is readable when its one setting has expired; then nothing is armed.\<close>

definition readTimerfd :: "('f, 'm) tqueue_scheme \<Rightarrow> ('f, 'm) tqueue_scheme" where
  "readTimerfd s = s\<lparr>armed := None\<rparr>"

definition sizes_agree :: "('f, 'm) tqueue_scheme \<Rightarrow> bool" where
  "sizes_agree s \<longleftrightarrow> length (timers s) = card (activeTimers s)"

definition tq_insert :: "taddr \<Rightarrow> ('f, 'm) tqueue_scheme \<Rightarrow> (bool \<times> ('f, 'm) tqueue_scheme) res" where
  "tq_insert a s =
     ensure ''insert: sizes'' (sizes_agree s)
       (bindr (timer_at a s) (\<lambda>t.
          let when = tm_expiration t;
              earliestChanged = (timers s = [] \<or> when < fst (hd (timers s)))
          in ensure ''insert: timers'' ((when, a) \<notin> set (timers s))
               (let s = s\<lparr>timers := insort (when, a) (timers s)\<rparr>
                in ensure ''insert: active'' ((a, tm_sequence t) \<notin> activeTimers s)
                     (let s = s\<lparr>activeTimers := insert (a, tm_sequence t) (activeTimers s)\<rparr>
                      in ensure ''insert: sizes'' (sizes_agree s) (Inr (earliestChanged, s))))))"

definition addTimerInLoop ::
  "timestamp \<Rightarrow> taddr \<Rightarrow> ('f, 'm) tqueue_scheme \<Rightarrow> ('f, 'm) tqueue_scheme res" where
  "addTimerInLoop clock a s =
     bindr (tq_insert a s) (\<lambda>(earliestChanged, s).
       if earliestChanged
       then bindr (timer_at a s) (\<lambda>t. Inr (resetTimerfd clock (tm_expiration t) s))
       else Inr s)"

definition cancelInLoop :: "timer_id \<Rightarrow> ('f, 'm) tqueue_scheme \<Rightarrow> ('f, 'm) tqueue_scheme res" where
  "cancelInLoop timer s =
     ensure ''cancelInLoop: sizes'' (sizes_agree s)
       (bindr (if timer \<in> activeTimers s
               then bindr (timer_at (fst timer) s) (\<lambda>t.
                      let e = (tm_expiration t, fst timer)
                      in ensure ''cancelInLoop: erase'' (e \<in> set (timers s))
                           (let s = s\<lparr>timers := remove1 e (timers s)\<rparr>;
                                s = delete_Timer (fst timer) s
                            in Inr (s\<lparr>activeTimers := activeTimers s - {timer}\<rparr>)))
               else if callingExpiredTimers s
               then Inr (s\<lparr>cancelingTimers := insert timer (cancelingTimers s)\<rparr>)
               else Inr s)
          (\<lambda>s. ensure ''cancelInLoop: sizes'' (sizes_agree s) (Inr s)))"

definition deactivate :: "entry \<Rightarrow> ('f, 'm) tqueue_scheme \<Rightarrow> ('f, 'm) tqueue_scheme res" where
  "deactivate e s =
     bindr (timer_at (snd e) s) (\<lambda>t.
       let timer = (snd e, tm_sequence t)
       in ensure ''getExpired: erase'' (timer \<in> activeTimers s)
            (Inr (s\<lparr>activeTimers := activeTimers s - {timer}\<rparr>)))"

definition getExpired ::
  "timestamp \<Rightarrow> ('f, 'm) tqueue_scheme \<Rightarrow> (entry list \<times> ('f, 'm) tqueue_scheme) res" where
  "getExpired now s =
     ensure ''getExpired: sizes'' (sizes_agree s)
       (let sentry = (now, UINTPTR_MAX);
            expired = takeWhile (\<lambda>e. e < sentry) (timers s);
            rest = dropWhile (\<lambda>e. e < sentry) (timers s)
        in ensure ''getExpired: end'' (rest = [] \<or> now < fst (hd rest))
             (bindr (foldr_res deactivate expired (s\<lparr>timers := rest\<rparr>)) (\<lambda>s.
                ensure ''getExpired: sizes'' (sizes_agree s) (Inr (expired, s)))))"

definition reset_one :: "timestamp \<Rightarrow> entry \<Rightarrow> ('f, 'm) tqueue_scheme \<Rightarrow> ('f, 'm) tqueue_scheme res" where
  "reset_one now e s =
     bindr (timer_at (snd e) s) (\<lambda>t.
       if tm_repeat t \<and> (snd e, tm_sequence t) \<notin> cancelingTimers s
       then bindr (tq_insert (snd e) (s\<lparr>tq_heap := (tq_heap s)(snd e \<mapsto> restart now t)\<rparr>)) (\<lambda>(_, s). Inr s)
       else Inr (delete_Timer (snd e) s))"

definition reset ::
  "timestamp \<Rightarrow> entry list \<Rightarrow> timestamp \<Rightarrow> ('f, 'm) tqueue_scheme \<Rightarrow> ('f, 'm) tqueue_scheme res" where
  "reset clock expired now s =
     bindr (foldr_res (reset_one now) expired s) (\<lambda>s.
     bindr (if timers s \<noteq> [] then bindr (timer_at (snd (hd (timers s))) s) (\<lambda>t. Inr (tm_expiration t))
            else Inr ts_default) (\<lambda>nextExpire.
       Inr (if ts_valid nextExpire then resetTimerfd clock nextExpire s else s)))"

definition run_timer ::
  "('f, ('f, 'm) tqueue_scheme) runner \<Rightarrow> entry \<Rightarrow> ('f, 'm) tqueue_scheme \<Rightarrow> ('f, 'm) tqueue_scheme res" where
  "run_timer exec e s = bindr (timer_at (snd e) s) (\<lambda>t. exec (Run (tm_callback t)) s)"

text \<open>\<open>now\<close> is the clock when \<open>handleRead\<close> starts, \<open>clock\<close> when \<open>reset\<close> sets the descriptor.\<close>

definition tq_handleRead ::
  "('f, ('f, 'm) tqueue_scheme) runner \<Rightarrow> timestamp \<Rightarrow> timestamp \<Rightarrow> ('f, 'm) tqueue_scheme \<Rightarrow>
   ('f, 'm) tqueue_scheme res" where
  "tq_handleRead exec now clock s =
     bindr (getExpired now (readTimerfd s)) (\<lambda>(expired, s).
       let s = s\<lparr>callingExpiredTimers := True, cancelingTimers := {}\<rparr>
       in bindr (foldr_res (run_timer exec) expired s) (\<lambda>s.
            reset clock expired now (s\<lparr>callingExpiredTimers := False\<rparr>)))"

section \<open>Calls from the application\<close>

definition create_Timer ::
  "(('f, 'm) tqueue_scheme \<Rightarrow> taddr option) \<Rightarrow> 'f \<Rightarrow> timestamp \<Rightarrow> dbl \<Rightarrow> ('f, 'm) tqueue_scheme \<Rightarrow>
   (taddr \<times> ('f, 'm) tqueue_scheme) res" where
  "create_Timer alloc cb when interval s =
     (case alloc s of
        None \<Rightarrow> Inl Bad_Alloc
      | Some a \<Rightarrow> Inr (a, s\<lparr>numCreated := numCreated s + 1,
                          tq_heap := (tq_heap s)(a \<mapsto> new_Timer cb when interval (numCreated s + 1))\<rparr>))"

text \<open>
  \<open>add\<close> and \<open>cancel\<close> are the functors that \<open>bind\<close> builds.  \<open>meanwhile\<close> is what the loop's thread
  does after the timer was handed over and before the caller, in another thread, reads its sequence
  number: \<open>Inr\<close> if it does nothing, or if the caller is the loop's thread.
\<close>

definition addTimer ::
  "('f, ('f, 'm) tqueue_scheme) runner \<Rightarrow> (('f, 'm) tqueue_scheme \<Rightarrow> taddr option) \<Rightarrow> (taddr \<Rightarrow> 'f) \<Rightarrow>
   nat \<Rightarrow> (('f, 'm) tqueue_scheme \<Rightarrow> ('f, 'm) tqueue_scheme res) \<Rightarrow> 'f \<Rightarrow> timestamp \<Rightarrow> dbl \<Rightarrow>
   ('f, 'm) tqueue_scheme \<Rightarrow> (timer_id \<times> ('f, 'm) tqueue_scheme) res" where
  "addTimer exec alloc add self meanwhile cb when interval s =
     bindr (create_Timer alloc cb when interval s) (\<lambda>(a, s).
     bindr (runInLoop exec self (add a) s) (\<lambda>s.
     bindr (meanwhile s) (\<lambda>s.
     bindr (timer_at a s) (\<lambda>t. Inr ((a, tm_sequence t), s)))))"

definition tq_cancel ::
  "('f, ('f, 'm) tqueue_scheme) runner \<Rightarrow> (timer_id \<Rightarrow> 'f) \<Rightarrow> nat \<Rightarrow> timer_id \<Rightarrow>
   ('f, 'm) tqueue_scheme \<Rightarrow> ('f, 'm) tqueue_scheme res" where
  "tq_cancel exec cancel self timer s = runInLoop exec self (cancel timer) s"

definition runAt where
  "runAt exec alloc add self time cb s = addTimer exec alloc add self Inr cb time (Dbl 0 0) s"

definition runAfter where
  "runAfter exec alloc add self clock delay cb s =
     runAt exec alloc add self (addTime clock delay) cb s"

definition runEvery where
  "runEvery exec alloc add self clock interval cb s =
     addTimer exec alloc add self Inr cb (addTime clock interval) interval s"

text \<open>
  The constructor on a state whose loop part exists; \<open>created\<close> is
  \<open>Timer::s_numCreated_\<close>, which is older than the queue.
\<close>

definition new_TimerQueue ::
  "int \<Rightarrow> cid \<Rightarrow> int \<Rightarrow> 'f \<Rightarrow> ('f, 'm) tqueue_scheme \<Rightarrow> ('f, 'm) tqueue_scheme res" where
  "new_TimerQueue created c timerfd read_cb s =
     (let s = create_Channel c timerfd (s\<lparr>tq_heap := Map.empty, numCreated := created, timers := [],
            activeTimers := {}, callingExpiredTimers := False, cancelingTimers := {},
            timerfdChannel := c, armed := None\<rparr>)
      in bindr (upd_chan c (setReadCallback (Some read_cb)) s) (enableReading c))"

text \<open>
  The body of the destructor, and the members of the queue, the last one first.  The constructor made
  \<open>timerfd_\<close> the descriptor of the channel.
\<close>

definition delete_TimerQueue :: "nat \<Rightarrow> ('f, 'm) tqueue_scheme \<Rightarrow> ('f, 'm) tqueue_scheme res" where
  "delete_TimerQueue self s =
     bindr (disableAll (timerfdChannel s) s) (\<lambda>s.
     bindr (ch_remove (timerfdChannel s) s) (\<lambda>s.
     bindr (chan (timerfdChannel s) s) (\<lambda>ch.
     bindr (foldr_res (\<lambda>e s. bindr (timer_at (snd e) s) (\<lambda>_. Inr (delete_Timer (snd e) s))) (timers s)
              (close_fd (ch_fd ch) s)) (\<lambda>s.
       delete_Channel self (timerfdChannel s) (s\<lparr>cancelingTimers := {}, activeTimers := {}, timers := []\<rparr>)))))"

section \<open>The invariant\<close>

text \<open>
  \<open>X\<close> is the set of \<open>Timer\<close> objects that exist outside the queue: created and not yet inserted,
  or expired and not yet put back or deleted.
\<close>

definition seq_of :: "('f, 'm) tqueue_scheme \<Rightarrow> taddr \<Rightarrow> int" where
  "seq_of s a = (case tq_heap s a of None \<Rightarrow> 0 | Some t \<Rightarrow> tm_sequence t)"

definition tq_ok :: "taddr set \<Rightarrow> ('f, 'm) tqueue_scheme \<Rightarrow> bool" where
  "tq_ok X s \<longleftrightarrow>
     sorted_wrt (<) (timers s) \<and>
     (\<forall>w a. (w, a) \<in> set (timers s) \<longrightarrow> (\<exists>t. tq_heap s a = Some t \<and> tm_expiration t = w)) \<and>
     activeTimers s = (\<lambda>e. (snd e, seq_of s (snd e))) ` set (timers s) \<and>
     dom (tq_heap s) = snd ` set (timers s) \<union> X \<and> snd ` set (timers s) \<inter> X = {} \<and>
     (\<forall>a t. tq_heap s a = Some t \<longrightarrow> 0 < tm_sequence t \<and> tm_sequence t \<le> numCreated s \<and> a < UINTPTR_MAX) \<and>
     (\<forall>a b t u. tq_heap s a = Some t \<longrightarrow> tq_heap s b = Some u \<longrightarrow> tm_sequence t = tm_sequence u \<longrightarrow> a = b)"

lemma tq_okD:
  assumes "tq_ok X s"
  shows "sorted_wrt (<) (timers s)"
    and "(w, a) \<in> set (timers s) \<Longrightarrow> \<exists>t. tq_heap s a = Some t \<and> tm_expiration t = w"
    and "activeTimers s = (\<lambda>e. (snd e, seq_of s (snd e))) ` set (timers s)"
    and "dom (tq_heap s) = snd ` set (timers s) \<union> X" and "snd ` set (timers s) \<inter> X = {}"
    and "tq_heap s a = Some t \<Longrightarrow> 0 < tm_sequence t \<and> tm_sequence t \<le> numCreated s \<and> a < UINTPTR_MAX"
    and "tq_heap s a = Some t \<Longrightarrow> tq_heap s b = Some u \<Longrightarrow> tm_sequence t = tm_sequence u \<Longrightarrow> a = b"
  using assms by (auto simp: tq_ok_def)

lemma tq_ok_distinct: "tq_ok X s \<Longrightarrow> distinct (timers s)"
  using tq_okD(1) strict_sorted_iff by blast

lemma tq_ok_inj:
  assumes "tq_ok X s"
  shows "inj_on snd (set (timers s))"
proof (rule inj_onI)
  fix e f assume "e \<in> set (timers s)" "f \<in> set (timers s)" "snd e = snd f"
  then show "e = f"
    using tq_okD(2) [OF assms, of "fst e" "snd e"] tq_okD(2) [OF assms, of "fst f" "snd f"]
    by (cases e; cases f) auto
qed

lemma active_inj:
  assumes "tq_ok X s"
  shows "inj_on (\<lambda>e. (snd e, seq_of s (snd e))) (set (timers s))"
  using tq_ok_inj [OF assms] by (auto simp: inj_on_def)

lemma tq_ok_sizes:
  assumes "tq_ok X s"
  shows "sizes_agree s"
  unfolding sizes_agree_def tq_okD(3) [OF assms]
  using distinct_card [OF tq_ok_distinct [OF assms]] active_inj [OF assms] by (simp add: card_image)

lemma active_iff:
  assumes "tq_ok X s"
  shows "(a, q) \<in> activeTimers s \<longleftrightarrow>
    (\<exists>t. tq_heap s a = Some t \<and> tm_sequence t = q \<and> (tm_expiration t, a) \<in> set (timers s))"
proof
  assume "(a, q) \<in> activeTimers s"
  then obtain w where "(w, a) \<in> set (timers s)" "q = seq_of s a"
    by (auto simp: tq_okD(3) [OF assms])
  with tq_okD(2) [OF assms] show "\<exists>t. tq_heap s a = Some t \<and> tm_sequence t = q \<and> (tm_expiration t, a) \<in> set (timers s)"
    by (fastforce simp: seq_of_def)
qed (force simp: tq_okD(3) [OF assms] seq_of_def)

text \<open>What the operations change of the queue, in one piece.\<close>

definition entered :: "taddr \<Rightarrow> 'f timer \<Rightarrow> ('f, 'm) tqueue_scheme \<Rightarrow> ('f, 'm) tqueue_scheme" where
  "entered a t s = s\<lparr>timers := insort (tm_expiration t, a) (timers s),
     activeTimers := insert (a, tm_sequence t) (activeTimers s)\<rparr>"

lemma strict_insort:
  "sorted_wrt (<) xs \<Longrightarrow> x \<notin> set xs \<Longrightarrow> sorted_wrt (<) (insort x (xs :: 'a::linorder list))"
  by (simp add: strict_sorted_iff sorted_insort distinct_insort)

lemma tq_insert_ok:
  assumes ok: "tq_ok X s" and a: "a \<in> X"
  shows "\<exists>t. tq_heap s a = Some t \<and>
      tq_insert a s = Inr (timers s = [] \<or> tm_expiration t < fst (hd (timers s)), entered a t s) \<and>
      tq_ok (X - {a}) (entered a t s)"
proof -
  from a tq_okD(4) [OF ok] obtain t where t: "tq_heap s a = Some t" by blast
  have notin: "(w, a) \<notin> set (timers s)" for w
    using tq_okD(5) [OF ok] a by force
  then have notact: "(a, q) \<notin> activeTimers s" for q
    by (auto simp: tq_okD(3) [OF ok])
  have ok': "tq_ok (X - {a}) (entered a t s)"
    unfolding tq_ok_def
  proof (intro conjI)
    show "sorted_wrt (<) (timers (entered a t s))"
      using strict_insort [OF tq_okD(1) [OF ok] notin] by (simp add: entered_def)
    show "\<forall>w b. (w, b) \<in> set (timers (entered a t s)) \<longrightarrow>
        (\<exists>t'. tq_heap (entered a t s) b = Some t' \<and> tm_expiration t' = w)"
      using t tq_okD(2) [OF ok] by (auto simp: entered_def set_insort_key)
    show "activeTimers (entered a t s) =
        (\<lambda>e. (snd e, seq_of (entered a t s) (snd e))) ` set (timers (entered a t s))"
      using t by (simp add: entered_def set_insort_key seq_of_def tq_okD(3) [OF ok])
    show "dom (tq_heap (entered a t s)) = snd ` set (timers (entered a t s)) \<union> (X - {a})"
      "snd ` set (timers (entered a t s)) \<inter> (X - {a}) = {}"
      using tq_okD(4,5) [OF ok] a by (auto simp: entered_def set_insort_key)
    show "\<forall>b u. tq_heap (entered a t s) b = Some u \<longrightarrow> 0 < tm_sequence u \<and>
        tm_sequence u \<le> numCreated (entered a t s) \<and> b < UINTPTR_MAX"
      using tq_okD(6) [OF ok] by (simp add: entered_def)
    show "\<forall>b c u v. tq_heap (entered a t s) b = Some u \<longrightarrow> tq_heap (entered a t s) c = Some v \<longrightarrow>
        tm_sequence u = tm_sequence v \<longrightarrow> b = c"
      using tq_okD(7) [OF ok] by (simp add: entered_def)
  qed
  have "tq_insert a s = Inr (timers s = [] \<or> tm_expiration t < fst (hd (timers s)), entered a t s)"
    using tq_ok_sizes [OF ok] tq_ok_sizes [OF ok'] t notin notact
    by (simp add: tq_insert_def timer_at_def entered_def Let_def)
  with t ok' show ?thesis by blast
qed

text \<open>Taking a timer out of the queue.\<close>

definition left :: "taddr \<Rightarrow> 'f timer \<Rightarrow> ('f, 'm) tqueue_scheme \<Rightarrow> ('f, 'm) tqueue_scheme" where
  "left a t s = s\<lparr>timers := remove1 (tm_expiration t, a) (timers s),
     activeTimers := activeTimers s - {(a, tm_sequence t)}\<rparr>"

lemma left_ok:
  assumes ok: "tq_ok X s" and t: "tq_heap s a = Some t" "(tm_expiration t, a) \<in> set (timers s)"
  shows "tq_ok (insert a X) (left a t s)"
proof -
  have set': "set (remove1 (tm_expiration t, a) (timers s)) = set (timers s) - {(tm_expiration t, a)}"
    using tq_ok_distinct [OF ok] by (rule set_remove1_eq)
  have img: "snd ` (set (timers s) - {(tm_expiration t, a)}) = snd ` set (timers s) - {a}"
    using inj_on_image_set_diff [OF tq_ok_inj [OF ok], of "set (timers s)" "{(tm_expiration t, a)}"] t(2)
    by auto
  show ?thesis
    unfolding tq_ok_def
  proof (intro conjI)
    show "sorted_wrt (<) (timers (left a t s))"
      using tq_okD(1) [OF ok] by (simp add: left_def strict_sorted_iff sorted_remove1)
    show "\<forall>w b. (w, b) \<in> set (timers (left a t s)) \<longrightarrow>
        (\<exists>t'. tq_heap (left a t s) b = Some t' \<and> tm_expiration t' = w)"
      using tq_okD(2) [OF ok] by (auto simp: left_def set')
    have "activeTimers s - {(a, tm_sequence t)} =
        (\<lambda>e. (snd e, seq_of s (snd e))) ` (set (timers s) - {(tm_expiration t, a)})"
      using inj_on_image_set_diff [OF active_inj [OF ok], of "set (timers s)" "{(tm_expiration t, a)}"] t
      by (simp add: tq_okD(3) [OF ok] seq_of_def)
    then show "activeTimers (left a t s) =
        (\<lambda>e. (snd e, seq_of (left a t s) (snd e))) ` set (timers (left a t s))"
      by (simp add: left_def set' seq_of_def)
    show "dom (tq_heap (left a t s)) = snd ` set (timers (left a t s)) \<union> insert a X"
      using tq_okD(4) [OF ok] t by (auto simp: left_def set' img)
    show "snd ` set (timers (left a t s)) \<inter> insert a X = {}"
      using tq_okD(5) [OF ok] by (auto simp: left_def set' img)
    show "\<forall>b u. tq_heap (left a t s) b = Some u \<longrightarrow> 0 < tm_sequence u \<and>
        tm_sequence u \<le> numCreated (left a t s) \<and> b < UINTPTR_MAX"
      using tq_okD(6) [OF ok] by (simp add: left_def)
    show "\<forall>b c u v. tq_heap (left a t s) b = Some u \<longrightarrow> tq_heap (left a t s) c = Some v \<longrightarrow>
        tm_sequence u = tm_sequence v \<longrightarrow> b = c"
      using tq_okD(7) [OF ok] by (simp add: left_def)
  qed
qed

lemma delete_ok:
  assumes ok: "tq_ok X s" and a: "a \<in> X"
  shows "tq_ok (X - {a}) (delete_Timer a s)"
proof -
  have notin: "snd e \<noteq> a" if "e \<in> set (timers s)" for e
    using tq_okD(5) [OF ok] a that by auto
  have notin': "(w, a) \<notin> set (timers s)" for w using notin by force
  have seqs: "(\<lambda>e. (snd e, seq_of (delete_Timer a s) (snd e))) ` set (timers s) =
      (\<lambda>e. (snd e, seq_of s (snd e))) ` set (timers s)"
    using notin by (intro image_cong) (simp_all add: delete_Timer_def seq_of_def)
  show ?thesis
    unfolding tq_ok_def
  proof (intro conjI)
    show "\<forall>w b. (w, b) \<in> set (timers (delete_Timer a s)) \<longrightarrow>
        (\<exists>t'. tq_heap (delete_Timer a s) b = Some t' \<and> tm_expiration t' = w)"
      using tq_okD(2) [OF ok] notin' by (auto simp: delete_Timer_def)
    show "activeTimers (delete_Timer a s) =
        (\<lambda>e. (snd e, seq_of (delete_Timer a s) (snd e))) ` set (timers (delete_Timer a s))"
      using seqs tq_okD(3) [OF ok] by (simp add: delete_Timer_def)
    show "dom (tq_heap (delete_Timer a s)) = snd ` set (timers (delete_Timer a s)) \<union> (X - {a})"
      using tq_okD(4) [OF ok] notin by (auto simp: delete_Timer_def)
    show "\<forall>b c u v. tq_heap (delete_Timer a s) b = Some u \<longrightarrow> tq_heap (delete_Timer a s) c = Some v \<longrightarrow>
        tm_sequence u = tm_sequence v \<longrightarrow> b = c"
      using tq_okD(7) [OF ok] by (auto simp: delete_Timer_def)
  qed (use tq_okD(1,5,6) [OF ok] in \<open>auto simp: delete_Timer_def\<close>)
qed

lemma cancel_active:
  assumes ok: "tq_ok X s" and t: "tq_heap s a = Some t" "(tm_expiration t, a) \<in> set (timers s)"
  shows "cancelInLoop (a, tm_sequence t) s = Inr (delete_Timer a (left a t s))"
    and "tq_ok X (delete_Timer a (left a t s))"
proof -
  have "a \<notin> X" using tq_okD(5) [OF ok] t(2) by force
  with delete_ok [OF left_ok [OF ok t], of a] show ok': "tq_ok X (delete_Timer a (left a t s))"
    by simp
  have "(a, tm_sequence t) \<in> activeTimers s"
    using active_iff [OF ok] t by blast
  moreover have eq: "delete_Timer a (left a t s) = (delete_Timer a
      (s\<lparr>timers := remove1 (tm_expiration t, a) (timers s)\<rparr>))\<lparr>activeTimers := activeTimers s - {(a, tm_sequence t)}\<rparr>"
    by (cases s) (simp add: left_def delete_Timer_def)
  ultimately show "cancelInLoop (a, tm_sequence t) s = Inr (delete_Timer a (left a t s))"
    using tq_ok_sizes [OF ok] tq_ok_sizes [OF ok'] t unfolding eq
    by (simp add: cancelInLoop_def timer_at_def delete_Timer_def Let_def)
qed

lemma cancel_inactive:
  assumes ok: "tq_ok X s" and "timer \<notin> activeTimers s"
  shows "cancelInLoop timer s = Inr (if callingExpiredTimers s
      then s\<lparr>cancelingTimers := insert timer (cancelingTimers s)\<rparr> else s)"
  using tq_ok_sizes [OF ok] assms(2)
  by (simp add: cancelInLoop_def sizes_agree_def)

lemma tq_ok_other: "tq_ok X s \<Longrightarrow> tq_ok X (s\<lparr>cancelingTimers := C\<rparr>)" "tq_ok X s \<Longrightarrow> tq_ok X (s\<lparr>callingExpiredTimers := b\<rparr>)"
  "tq_ok X s \<Longrightarrow> tq_ok X (s\<lparr>armed := r\<rparr>)"
  by (simp_all add: tq_ok_def seq_of_def)

lemma create_ok:
  assumes ok: "tq_ok X s" and a: "tq_heap s a = None" "a < UINTPTR_MAX" and "0 \<le> numCreated s"
  shows "tq_ok (insert a X) (s\<lparr>numCreated := numCreated s + 1,
    tq_heap := (tq_heap s)(a \<mapsto> new_Timer cb when interval (numCreated s + 1))\<rparr>)" (is "tq_ok _ ?s")
proof -
  have notin: "snd e \<noteq> a" if "e \<in> set (timers s)" for e
    using tq_okD(2) [OF ok, of "fst e" "snd e"] a that by auto
  have seqs: "(\<lambda>e. (snd e, seq_of ?s (snd e))) ` set (timers s) = (\<lambda>e. (snd e, seq_of s (snd e))) ` set (timers s)"
    using notin by (intro image_cong) (simp_all add: seq_of_def)
  have notin': "(w, a) \<notin> set (timers s)" for w using notin by force
  have notX: "a \<notin> X" using tq_okD(4) [OF ok] a(1) by auto
  have less: "tm_sequence u \<noteq> numCreated s + 1" if "tq_heap s b = Some u" for b u
    using tq_okD(6) [OF ok that] by simp
  show ?thesis
    unfolding tq_ok_def
  proof (intro conjI)
    show "\<forall>w b. (w, b) \<in> set (timers ?s) \<longrightarrow> (\<exists>t'. tq_heap ?s b = Some t' \<and> tm_expiration t' = w)"
      using tq_okD(2) [OF ok] notin' by auto
    show "activeTimers ?s = (\<lambda>e. (snd e, seq_of ?s (snd e))) ` set (timers ?s)"
      using seqs tq_okD(3) [OF ok] by simp
    show "\<forall>b u. tq_heap ?s b = Some u \<longrightarrow> 0 < tm_sequence u \<and> tm_sequence u \<le> numCreated ?s \<and> b < UINTPTR_MAX"
    proof (intro allI impI)
      fix b u assume "tq_heap ?s b = Some u"
      then show "0 < tm_sequence u \<and> tm_sequence u \<le> numCreated ?s \<and> b < UINTPTR_MAX"
        using tq_okD(6) [OF ok, of b u] a(2) assms(4) by (cases "b = a") (auto simp: new_Timer_def)
    qed
    show "\<forall>b c u v. tq_heap ?s b = Some u \<longrightarrow> tq_heap ?s c = Some v \<longrightarrow>
        tm_sequence u = tm_sequence v \<longrightarrow> b = c"
      using tq_okD(7) [OF ok] less by (auto simp: new_Timer_def dest: less less [symmetric])
    show "snd ` set (timers ?s) \<inter> insert a X = {}"
      using tq_okD(5) [OF ok] notin by auto
  qed (use tq_okD(1,4) [OF ok] in auto)
qed

lemma takeWhile_filter_sorted:
  assumes "sorted_wrt (<) xs" and "\<And>x y. x < y \<Longrightarrow> P y \<Longrightarrow> P (x :: 'a::linorder)"
  shows "takeWhile P xs = filter P xs \<and> dropWhile P xs = filter (\<lambda>x. \<not> P x) xs"
  using assms(1)
proof (induction xs)
  case (Cons x xs)
  show ?case
  proof (cases "P x")
    case False
    then have "\<not> P y" if "y \<in> set xs" for y using Cons.prems assms(2) [of x y] that by auto
    then have "filter P xs = []" "filter (\<lambda>x. \<not> P x) xs = xs"
      by (simp_all add: filter_empty_conv filter_id_conv)
    with False show ?thesis by simp
  qed (use Cons in auto)
qed simp

lemma deactivate_all:
  assumes "distinct (map snd es)"
    and "\<And>e. e \<in> set es \<Longrightarrow> tq_heap s (snd e) \<noteq> None \<and> (snd e, seq_of s (snd e)) \<in> activeTimers s"
  shows "foldr_res deactivate es s =
    Inr (s\<lparr>activeTimers := activeTimers s - (\<lambda>e. (snd e, seq_of s (snd e))) ` set es\<rparr>)"
  using assms
proof (induction es arbitrary: s)
  case Nil
  then show ?case by simp
next
  case (Cons e es)
  let ?s = "s\<lparr>activeTimers := activeTimers s - {(snd e, seq_of s (snd e))}\<rparr>"
  obtain t where t: "tq_heap s (snd e) = Some t" using Cons.prems(2) [of e] by auto
  then have "seq_of s (snd e) = tm_sequence t" by (simp add: seq_of_def)
  then have "deactivate e s = Inr ?s"
    using Cons.prems(2) [of e] t by (simp add: deactivate_def timer_at_def)
  moreover have same: "seq_of ?s = seq_of s" by (simp add: fun_eq_iff seq_of_def)
  have "foldr_res deactivate es ?s =
      Inr (?s\<lparr>activeTimers := activeTimers ?s - (\<lambda>e. (snd e, seq_of ?s (snd e))) ` set es\<rparr>)"
  proof (rule Cons.IH)
    show "distinct (map snd es)" using Cons.prems(1) by simp
    fix e' assume "e' \<in> set es"
    moreover from this have "snd e' \<noteq> snd e"
      using Cons.prems(1) by (metis distinct.simps(2) image_eqI list.map(2) list.set_map)
    ultimately show "tq_heap ?s (snd e') \<noteq> None \<and> (snd e', seq_of ?s (snd e')) \<in> activeTimers ?s"
      using Cons.prems(2) [of e'] by (auto simp: same)
  qed
  ultimately show ?case
    using Diff_insert2 [of "activeTimers s" "(snd e, seq_of s (snd e))" "(\<lambda>e. (snd e, seq_of s (snd e))) ` set es"]
    by (simp add: same)
qed

text \<open>The expired entries, and the queue without them.\<close>

definition expired_at :: "timestamp \<Rightarrow> ('f, 'm) tqueue_scheme \<Rightarrow> entry list" where
  "expired_at now s = filter (\<lambda>e. fst e \<le> now) (timers s)"

definition without_expired :: "timestamp \<Rightarrow> ('f, 'm) tqueue_scheme \<Rightarrow> ('f, 'm) tqueue_scheme" where
  "without_expired now s = s\<lparr>timers := filter (\<lambda>e. now < fst e) (timers s),
     activeTimers := activeTimers s - (\<lambda>e. (snd e, seq_of s (snd e))) ` set (expired_at now s)\<rparr>"

lemma getExpired_ok:
  assumes ok: "tq_ok X s"
  shows "getExpired now s = Inr (expired_at now s, without_expired now s)"
    and "tq_ok (X \<union> snd ` set (expired_at now s)) (without_expired now s)"
proof -
  let ?k = "\<lambda>e. (snd e, seq_of s (snd e))"
  have below: "e < (now, UINTPTR_MAX) \<longleftrightarrow> fst e \<le> now" if "e \<in> set (timers s)" for e
    using tq_okD(2) [OF ok, of "fst e" "snd e"] tq_okD(6) [OF ok, of "snd e"] that
    by (cases e) (auto simp: less_prod_def)
  have tw: "takeWhile (\<lambda>e. e < (now, UINTPTR_MAX)) (timers s) = expired_at now s"
    and dw: "dropWhile (\<lambda>e. e < (now, UINTPTR_MAX)) (timers s) = filter (\<lambda>e. now < fst e) (timers s)"
    using takeWhile_filter_sorted [OF tq_okD(1) [OF ok], of "\<lambda>e. e < (now, UINTPTR_MAX)"] below
    by (auto simp: expired_at_def not_le cong: filter_cong)
  have subset: "set (expired_at now s) \<subseteq> set (timers s)" by (auto simp: expired_at_def)
  have dist: "distinct (map snd (expired_at now s))"
    using tq_ok_distinct [OF ok] tq_ok_inj [OF ok] subset
    by (simp add: distinct_map expired_at_def inj_on_subset)
  have rest: "set (filter (\<lambda>e. now < fst e) (timers s)) = set (timers s) - set (expired_at now s)"
    by (auto simp: expired_at_def)
  have img: "?k ` (set (timers s) - set (expired_at now s)) = ?k ` set (timers s) - ?k ` set (expired_at now s)"
    "snd ` (set (timers s) - set (expired_at now s)) = snd ` set (timers s) - snd ` set (expired_at now s)"
    using inj_on_image_set_diff [OF active_inj [OF ok]] inj_on_image_set_diff [OF tq_ok_inj [OF ok]] subset
    by auto
  have same: "seq_of (without_expired now s) = seq_of s" by (simp add: fun_eq_iff seq_of_def without_expired_def)
  show ok': "tq_ok (X \<union> snd ` set (expired_at now s)) (without_expired now s)"
    unfolding tq_ok_def
  proof (intro conjI)
    show "sorted_wrt (<) (timers (without_expired now s))"
      using tq_okD(1) [OF ok] by (simp add: without_expired_def sorted_wrt_filter)
    show "\<forall>w b. (w, b) \<in> set (timers (without_expired now s)) \<longrightarrow>
        (\<exists>t'. tq_heap (without_expired now s) b = Some t' \<and> tm_expiration t' = w)"
      using tq_okD(2) [OF ok] by (auto simp: without_expired_def)
    show "activeTimers (without_expired now s) =
        (\<lambda>e. (snd e, seq_of (without_expired now s) (snd e))) ` set (timers (without_expired now s))"
      by (simp add: same) (simp add: without_expired_def rest img tq_okD(3) [OF ok] del: set_filter)
    show "dom (tq_heap (without_expired now s)) =
        snd ` set (timers (without_expired now s)) \<union> (X \<union> snd ` set (expired_at now s))"
      using tq_okD(4) [OF ok] subset by (auto simp: without_expired_def rest img simp del: set_filter)
    show "snd ` set (timers (without_expired now s)) \<inter> (X \<union> snd ` set (expired_at now s)) = {}"
      using tq_okD(5) [OF ok] by (auto simp: without_expired_def rest img simp del: set_filter)
  qed (use tq_okD(6,7) [OF ok] in \<open>auto simp: without_expired_def\<close>)
  have key: "tq_heap s (snd e) \<noteq> None \<and> ?k e \<in> activeTimers s" if "e \<in> set (expired_at now s)" for e
    using tq_okD(2) [OF ok, of "fst e" "snd e"] tq_okD(3) [OF ok] subset that by auto
  let ?s = "s\<lparr>timers := filter (\<lambda>e. now < fst e) (timers s)\<rparr>"
  have "foldr_res deactivate (expired_at now s) ?s = Inr (without_expired now s)"
    using deactivate_all [of "expired_at now s" ?s] dist key
    by (simp add: without_expired_def seq_of_def)
  moreover have "filter (\<lambda>e. now < fst e) (timers s) = [] \<or> now < fst (hd (filter (\<lambda>e. now < fst e) (timers s)))"
    using hd_in_set [of "filter (\<lambda>e. now < fst e) (timers s)"] by auto
  ultimately show "getExpired now s = Inr (expired_at now s, without_expired now s)"
    unfolding getExpired_def tw dw Let_def
    using tq_ok_sizes [OF ok] tq_ok_sizes [OF ok'] by (simp only: ensure_True bindr.simps)
qed

section \<open>Runs\<close>

text \<open>A call of the application from the loop's thread: \<open>runInLoop\<close> runs the functor at once.\<close>

datatype 'f timer_call =
    Call_Add 'f timestamp dbl timestamp   \<comment> \<open>callback, time, interval and the clock at the call\<close>
  | Call_Cancel timer_id

fun call_step ::
  "(('f, 'm) tqueue_scheme \<Rightarrow> taddr option) \<Rightarrow> 'f timer_call \<Rightarrow> ('f, 'm) tqueue_scheme \<Rightarrow>
   ('f, 'm) tqueue_scheme res" where
  "call_step alloc (Call_Add cb when interval clock) s =
     bindr (create_Timer alloc cb when interval s) (\<lambda>(a, s). addTimerInLoop clock a s)"
| "call_step alloc (Call_Cancel timer) s = cancelInLoop timer s"

lemma addTimer_in_loop:
  assumes "isInLoopThread self s" and "\<And>a s. exec (Run (add a)) s = addTimerInLoop clock a s"
  shows "map_sum id snd (addTimer exec alloc add self Inr cb when interval s) =
    bindr (call_step alloc (Call_Add cb when interval clock) s) (\<lambda>s'.
      bindr (create_Timer alloc cb when interval s) (\<lambda>(a, _). bindr (timer_at a s') (\<lambda>_. Inr s')))"
proof (cases "create_Timer alloc cb when interval s")
  case (Inr p)
  obtain a s1 where p: "p = (a, s1)" by (cases p)
  have "isInLoopThread self s1"
    using Inr assms(1) by (auto simp: p create_Timer_def isInLoopThread_def split: option.splits)
  then show ?thesis
    by (cases "addTimerInLoop clock a s1"; cases "timer_at a (projr (addTimerInLoop clock a s1))")
      (simp_all add: addTimer_def Inr p runInLoop_def assms(2))
qed (simp add: addTimer_def)

datatype 'f tq_event =
    Call "'f timer_call"
  | Alarm timestamp timestamp   \<comment> \<open>the loop calls \<open>handleRead\<close>; the clock then and in \<open>reset\<close>\<close>

fun tq_step ::
  "('f, ('f, 'm) tqueue_scheme) runner \<Rightarrow> (('f, 'm) tqueue_scheme \<Rightarrow> taddr option) \<Rightarrow> 'f tq_event \<Rightarrow>
   ('f, 'm) tqueue_scheme \<Rightarrow> ('f, 'm) tqueue_scheme res" where
  "tq_step exec alloc (Call c) s = call_step alloc c s"
| "tq_step exec alloc (Alarm now clock) s = tq_handleRead exec now clock s"

text \<open>
  What the environment promises: the allocator gives free addresses; the callbacks act on the
  queue by calls; times and intervals are below 2 to the 62 microseconds (some 146000 years), so
  that no sum of two overflows.
\<close>

definition alloc_ok :: "(('f, 'm) tqueue_scheme \<Rightarrow> taddr option) \<Rightarrow> bool" where
  "alloc_ok alloc \<longleftrightarrow> (\<forall>s a. alloc s = Some a \<longrightarrow> tq_heap s a = None \<and> a < UINTPTR_MAX)"

definition delta :: "dbl \<Rightarrow> int" where
  "delta interval = dbl_to_int64 (dbl_mul_int interval kMicroSecondsPerSecond)"

definition interval_ok :: "dbl \<Rightarrow> bool" where
  "interval_ok interval \<longleftrightarrow> (dbl_pos interval \<longrightarrow> 0 \<le> delta interval \<and> delta interval < 2 ^ 62)"

fun call_ok :: "'f timer_call \<Rightarrow> bool" where
  "call_ok (Call_Add cb when interval clock) = interval_ok interval"
| "call_ok (Call_Cancel timer) = True"

definition time_ok :: "timestamp \<Rightarrow> bool" where
  "time_ok t \<longleftrightarrow> ts_valid t \<and> microSecondsSinceEpoch t < 2 ^ 62"

fun event_ok :: "'f tq_event \<Rightarrow> bool" where
  "event_ok (Call c) = call_ok c"
| "event_ok (Alarm now clock) = time_ok now"

definition api_runner ::
  "(('f, 'm) tqueue_scheme \<Rightarrow> taddr option) \<Rightarrow> ('f, ('f, 'm) tqueue_scheme) runner \<Rightarrow> bool" where
  "api_runner alloc exec \<longleftrightarrow>
     (\<forall>f s. \<exists>calls. (\<forall>c \<in> set calls. call_ok c) \<and> exec (Run f) s = foldr_res (call_step alloc) calls s)"

text \<open>
  The descriptor is set for the entries with \<open>D\<close>: it was last set for a time not after any of
  them.  Between events \<open>D\<close> is everything; while expired timers run it is the entries that
  came in since.
\<close>

definition set_for :: "('f, 'm) tqueue_scheme \<Rightarrow> timestamp \<Rightarrow> bool" where
  "set_for s w \<longleftrightarrow> (\<exists>w' ts. armed s = Some (w', ts) \<and> w' \<le> w)"

definition queue_ok :: "(timestamp \<Rightarrow> bool) \<Rightarrow> taddr set \<Rightarrow> ('f, 'm) tqueue_scheme \<Rightarrow> bool" where
  "queue_ok D X s \<longleftrightarrow> tq_ok X s \<and> 0 \<le> numCreated s \<and>
     (\<forall>a t. tq_heap s a = Some t \<longrightarrow> interval_ok (tm_interval t) \<and> (tm_repeat t \<longrightarrow> dbl_pos (tm_interval t))) \<and>
     (\<forall>e \<in> set (timers s). D (fst e) \<longrightarrow> set_for s (fst e))"

lemma queue_ok_cong:
  assumes "tq_heap s = tq_heap s'" "numCreated s = numCreated s'" "timers s = timers s'"
    "activeTimers s = activeTimers s'" "armed s = armed s'"
  shows "queue_ok D X s = queue_ok D X s'"
  using assms by (simp add: queue_ok_def tq_ok_def set_for_def seq_of_def)

definition downward :: "(timestamp \<Rightarrow> bool) \<Rightarrow> bool" where
  "downward D \<longleftrightarrow> (\<forall>v w. v \<le> w \<longrightarrow> D w \<longrightarrow> D v)"

lemma queue_okD:
  assumes "queue_ok D X s"
  shows "tq_ok X s" "0 \<le> numCreated s" "tq_heap s a = Some t \<Longrightarrow> interval_ok (tm_interval t)"
    "tq_heap s a = Some t \<Longrightarrow> tm_repeat t \<Longrightarrow> dbl_pos (tm_interval t)"
    "e \<in> set (timers s) \<Longrightarrow> D (fst e) \<Longrightarrow> set_for s (fst e)"
  using assms by (auto simp: queue_ok_def)

lemma sorted_hd_le:
  "sorted_wrt (<) xs \<Longrightarrow> e \<in> set xs \<Longrightarrow> fst (hd xs) \<le> fst (e :: entry)"
  by (cases xs) (auto simp: less_prod_def)

lemma set_for_mono: "set_for s v \<Longrightarrow> v \<le> w \<Longrightarrow> set_for s w"
  by (auto simp: set_for_def intro: order_trans)

lemma addTimerInLoop_ok:
  assumes ok: "queue_ok D X s" and a: "a \<in> X" and D: "downward D"
  shows "\<exists>s'. addTimerInLoop clock a s = Inr s' \<and> queue_ok D (X - {a}) s'"
proof -
  obtain t where t: "tq_heap s a = Some t"
    "tq_insert a s = Inr (timers s = [] \<or> tm_expiration t < fst (hd (timers s)), entered a t s)"
    "tq_ok (X - {a}) (entered a t s)"
    using tq_insert_ok [OF queue_okD(1) [OF ok] a] by blast
  let ?first = "timers s = [] \<or> tm_expiration t < fst (hd (timers s))"
  let ?s = "if ?first then resetTimerfd clock (tm_expiration t) (entered a t s) else entered a t s"
  have "addTimerInLoop clock a s = Inr ?s"
    using t by (simp add: addTimerInLoop_def timer_at_def entered_def)
  moreover have "queue_ok D (X - {a}) ?s"
    unfolding queue_ok_def
  proof (intro conjI ballI impI)
    show "tq_ok (X - {a}) ?s"
      using t(3) by (simp add: resetTimerfd_def tq_ok_other)
    fix e assume e: "e \<in> set (timers ?s)" "D (fst e)"
    have e': "e = (tm_expiration t, a) \<or> e \<in> set (timers s)"
      using e(1) by (auto simp: resetTimerfd_def entered_def set_insort_key split: if_splits)
    have hd: "fst (hd (timers s)) \<le> fst e" if "e \<in> set (timers s)"
      using sorted_hd_le [OF tq_okD(1) [OF queue_okD(1) [OF ok]] that] .
    show "set_for ?s (fst e)"
    proof (cases ?first)
      case True
      have "tm_expiration t \<le> fst e"
        using e' hd True by fastforce
      then show ?thesis using True by (auto simp: set_for_def resetTimerfd_def)
    next
      case False
      have "set_for s (fst e)"
      proof (cases "e \<in> set (timers s)")
        case True
        then show ?thesis using queue_okD(5) [OF ok] e(2) by blast
      next
        case False
        then have w: "fst (hd (timers s)) \<le> fst e" "hd (timers s) \<in> set (timers s)"
          using e' \<open>\<not> ?first\<close> by auto
        then have "D (fst (hd (timers s)))" using D e(2) by (auto simp: downward_def)
        then show ?thesis using queue_okD(5) [OF ok w(2)] w(1) set_for_mono by blast
      qed
      then show ?thesis using False by (simp add: set_for_def entered_def)
    qed
  qed (use ok in \<open>auto simp: queue_ok_def resetTimerfd_def entered_def split: if_splits\<close>)
  ultimately show ?thesis by blast
qed

lemma cancelInLoop_ok:
  assumes ok: "queue_ok D X s"
  shows "\<exists>s'. cancelInLoop timer s = Inr s' \<and> queue_ok D X s'"
proof (cases "timer \<in> activeTimers s")
  case True
  then obtain t where t: "tq_heap s (fst timer) = Some t" "tm_sequence t = snd timer"
    "(tm_expiration t, fst timer) \<in> set (timers s)"
    using active_iff [OF queue_okD(1) [OF ok], of "fst timer" "snd timer"] by auto
  note c = cancel_active [OF queue_okD(1) [OF ok] t(1,3)]
  have "queue_ok D X (delete_Timer (fst timer) (left (fst timer) t s))"
    using ok c(2) by (auto simp: queue_ok_def delete_Timer_def left_def set_for_def dest: subsetD [OF set_remove1_subset])
  with c(1) t(2) show ?thesis by (cases timer) auto
next
  case False
  then show ?thesis
    using cancel_inactive [OF queue_okD(1) [OF ok] False] ok
    by (auto simp: queue_ok_def tq_ok_other set_for_def)
qed

lemma create_Timer_ok:
  assumes ok: "queue_ok D X s" and "alloc_ok alloc" "interval_ok interval"
  shows "create_Timer alloc cb when interval s = Inl Bad_Alloc \<or>
    (\<exists>a s'. create_Timer alloc cb when interval s = Inr (a, s') \<and> a \<notin> X \<and> queue_ok D (insert a X) s')"
proof (cases "alloc s")
  case (Some a)
  let ?s = "s\<lparr>numCreated := numCreated s + 1,
    tq_heap := (tq_heap s)(a \<mapsto> new_Timer cb when interval (numCreated s + 1))\<rparr>"
  have a: "tq_heap s a = None" "a < UINTPTR_MAX" using assms(2) Some by (auto simp: alloc_ok_def)
  then have "a \<notin> X" using tq_okD(4) [OF queue_okD(1) [OF ok]] by auto
  moreover have "queue_ok D (insert a X) ?s"
    using ok create_ok [OF queue_okD(1) [OF ok] a queue_okD(2) [OF ok]] assms(3)
    by (auto simp: queue_ok_def set_for_def new_Timer_def)
  ultimately show ?thesis using Some by (simp add: create_Timer_def)
qed (simp add: create_Timer_def)

lemma call_step_ok:
  assumes ok: "queue_ok D X s" and "alloc_ok alloc" "call_ok c" and D: "downward D"
  shows "safe (queue_ok D X) (call_step alloc c s)"
proof (cases c)
  case (Call_Add cb w interval clock)
  with assms(3) have i: "interval_ok interval" by simp
  from create_Timer_ok [OF ok assms(2) i, of cb w]
  consider "create_Timer alloc cb w interval s = Inl Bad_Alloc"
    | a s' where "create_Timer alloc cb w interval s = Inr (a, s')" "a \<notin> X" "queue_ok D (insert a X) s'"
    by blast
  then show ?thesis
  proof cases
    case 2
    with addTimerInLoop_ok [OF 2(3) _ D, of a clock] show ?thesis
      by (auto simp: Call_Add)
  qed (simp add: Call_Add)
next
  case (Call_Cancel timer)
  then show ?thesis using cancelInLoop_ok [OF ok, of timer] by auto
qed

lemma exec_ok:
  assumes "queue_ok D X s" "alloc_ok alloc" "api_runner alloc exec" "downward D"
  shows "safe (queue_ok D X) (exec (Run f) s)"
proof -
  obtain calls where c: "\<forall>c \<in> set calls. call_ok c" "exec (Run f) s = foldr_res (call_step alloc) calls s"
    using assms(3) unfolding api_runner_def by blast
  show ?thesis
    unfolding c(2) using assms(1) by (rule barring_foldr_res) (use call_step_ok assms(2,4) c(1) in blast)
qed

lemma downward_all [simp]: "downward (\<lambda>_. True)"
  by (simp add: downward_def)

lemma downward_upto [simp]: "downward (\<lambda>w. w \<le> now)"
  by (auto simp: downward_def)

lemma downward_invalid [simp]: "downward (\<lambda>w. \<not> ts_valid w)"
  by (auto simp: downward_def ts_valid_def less_eq_timestamp_def ts_less_def)

lemma next_valid:
  assumes "time_ok now" "interval_ok i" "dbl_pos i"
  shows "ts_valid (addTime now i)"
proof -
  have "addTime now i = Timestamp (microSecondsSinceEpoch now + delta i)"
    using assms by (simp add: addTime_def delta_def interval_ok_def time_ok_def ts_valid_def Let_def)
  then show ?thesis
    using assms by (simp add: ts_valid_def time_ok_def interval_ok_def)
qed

lemma restart_ok:
  assumes ok: "queue_ok D X s" and a: "a \<in> X" "tq_heap s a = Some t"
  shows "queue_ok D X (s\<lparr>tq_heap := (tq_heap s)(a \<mapsto> restart now t)\<rparr>)" (is "queue_ok D X ?s")
proof -
  note tok = queue_okD(1) [OF ok]
  have notin: "snd e \<noteq> a" if "e \<in> set (timers s)" for e
    using tq_okD(5) [OF tok] a(1) that by auto
  have r: "tm_sequence (restart now t) = tm_sequence t" "tm_interval (restart now t) = tm_interval t"
    "tm_repeat (restart now t) = tm_repeat t"
    by (simp_all add: restart_def)
  have seqs: "seq_of ?s = seq_of s"
    using a(2) r by (auto simp: fun_eq_iff seq_of_def)
  have "tq_ok X ?s"
    unfolding tq_ok_def
  proof (intro conjI)
    show "\<forall>w b. (w, b) \<in> set (timers ?s) \<longrightarrow> (\<exists>t'. tq_heap ?s b = Some t' \<and> tm_expiration t' = w)"
      using tq_okD(2) [OF tok] notin by fastforce
    show "activeTimers ?s = (\<lambda>e. (snd e, seq_of ?s (snd e))) ` set (timers ?s)"
      using tq_okD(3) [OF tok] by (simp add: seqs)
    show "dom (tq_heap ?s) = snd ` set (timers ?s) \<union> X"
      using tq_okD(4) [OF tok] a(1) by auto
    show "\<forall>b u. tq_heap ?s b = Some u \<longrightarrow> 0 < tm_sequence u \<and> tm_sequence u \<le> numCreated ?s \<and> b < UINTPTR_MAX"
      using tq_okD(6) [OF tok] a(2) r by auto
    show "\<forall>b c u v. tq_heap ?s b = Some u \<longrightarrow> tq_heap ?s c = Some v \<longrightarrow>
        tm_sequence u = tm_sequence v \<longrightarrow> b = c"
      using tq_okD(7) [OF tok] a(2) by (auto simp: r)
  qed (use tq_okD(1,5) [OF tok] in simp_all)
  then show ?thesis
    using ok a(2) r by (auto simp: queue_ok_def set_for_def)
qed

lemma reset_one_ok:
  assumes ok: "queue_ok (\<lambda>w. \<not> ts_valid w) X s" and a: "snd e \<in> X" and now: "time_ok now"
  shows "\<exists>s'. reset_one now e s = Inr s' \<and> queue_ok (\<lambda>w. \<not> ts_valid w) (X - {snd e}) s'"
proof -
  from a tq_okD(4) [OF queue_okD(1) [OF ok]] obtain t where t: "tq_heap s (snd e) = Some t" by blast
  let ?s = "s\<lparr>tq_heap := (tq_heap s)(snd e \<mapsto> restart now t)\<rparr>"
  show ?thesis
  proof (cases "tm_repeat t \<and> (snd e, tm_sequence t) \<notin> cancelingTimers s")
    case True
    note ok1 = restart_ok [OF ok a t, of now]
    from tq_insert_ok [OF queue_okD(1) [OF ok1] a]
    have i: "tq_insert (snd e) ?s = Inr (timers ?s = [] \<or> tm_expiration (restart now t) < fst (hd (timers ?s)),
          entered (snd e) (restart now t) ?s)"
        "tq_ok (X - {snd e}) (entered (snd e) (restart now t) ?s)"
      by auto
    have "ts_valid (tm_expiration (restart now t))"
      using True next_valid [OF now queue_okD(3,4) [OF ok t]] t by (simp add: restart_def)
    then have "queue_ok (\<lambda>w. \<not> ts_valid w) (X - {snd e}) (entered (snd e) (restart now t) ?s)"
      using ok1 i(2) by (auto simp: queue_ok_def entered_def set_insort_key set_for_def)
    then show ?thesis using True t i(1) by (simp add: reset_one_def timer_at_def)
  next
    case False
    then have "reset_one now e s = Inr (delete_Timer (snd e) s)"
      using t by (auto simp: reset_one_def timer_at_def)
    moreover have "queue_ok (\<lambda>w. \<not> ts_valid w) (X - {snd e}) (delete_Timer (snd e) s)"
      using ok delete_ok [OF queue_okD(1) [OF ok] a] by (auto simp: queue_ok_def delete_Timer_def set_for_def)
    ultimately show ?thesis by blast
  qed
qed

lemma reset_loop_ok:
  assumes "queue_ok (\<lambda>w. \<not> ts_valid w) X s" "snd ` set es \<subseteq> X" "distinct (map snd es)" "time_ok now"
  shows "\<exists>s'. foldr_res (reset_one now) es s = Inr s' \<and> queue_ok (\<lambda>w. \<not> ts_valid w) (X - snd ` set es) s'"
  using assms
proof (induction es arbitrary: s X)
  case (Cons e es)
  obtain s' where s': "reset_one now e s = Inr s'" "queue_ok (\<lambda>w. \<not> ts_valid w) (X - {snd e}) s'"
    using reset_one_ok [OF Cons.prems(1), of e now] Cons.prems by auto
  moreover have "snd ` set es \<subseteq> X - {snd e}" "distinct (map snd es)"
    using Cons.prems by (auto simp: image_iff)
  ultimately obtain s'' where "foldr_res (reset_one now) es s' = Inr s''"
      "queue_ok (\<lambda>w. \<not> ts_valid w) (X - {snd e} - snd ` set es) s''"
    using Cons.IH [OF s'(2)] Cons.prems(4) by blast
  moreover have "X - {snd e} - snd ` set es = X - snd ` set (e # es)" by auto
  ultimately show ?case using s'(1) by simp
qed simp

lemma reset_ok:
  assumes ok: "queue_ok (\<lambda>w. \<not> ts_valid w) X s" and es: "snd ` set es \<subseteq> X" "distinct (map snd es)"
    and now: "time_ok now"
  shows "\<exists>s'. reset clock es now s = Inr s' \<and> queue_ok (\<lambda>_. True) (X - snd ` set es) s'"
proof -
  obtain s' where s': "foldr_res (reset_one now) es s = Inr s'"
      "queue_ok (\<lambda>w. \<not> ts_valid w) (X - snd ` set es) s'"
    using reset_loop_ok [OF ok es now] by blast
  note tok = queue_okD(1) [OF s'(2)]
  show ?thesis
  proof (cases "timers s' = []")
    case True
    then have "reset clock es now s = Inr s'"
      using s'(1) by (simp add: reset_def ts_default_def ts_valid_def)
    then show ?thesis using s'(2) True by (auto simp: queue_ok_def)
  next
    case False
    let ?h = "hd (timers s')"
    obtain t where t: "tq_heap s' (snd ?h) = Some t" "tm_expiration t = fst ?h"
      using tq_okD(2) [OF tok, of "fst ?h" "snd ?h"] hd_in_set [OF False] by auto
    let ?s = "if ts_valid (fst ?h) then resetTimerfd clock (fst ?h) s' else s'"
    have "reset clock es now s = Inr ?s"
      using s'(1) False t by (simp add: reset_def timer_at_def)
    moreover have "queue_ok (\<lambda>_. True) (X - snd ` set es) ?s"
    proof -
      have le: "fst ?h \<le> fst e" if "e \<in> set (timers s')" for e
        using sorted_hd_le [OF tq_okD(1) [OF tok] that] .
      have "set_for ?s (fst e)" if e: "e \<in> set (timers s')" for e
      proof (cases "ts_valid (fst ?h)")
        case True
        then show ?thesis using le [OF e] by (auto simp: set_for_def resetTimerfd_def)
      next
        case invalid: False
        then have "set_for s' (fst ?h)" using queue_okD(5) [OF s'(2) hd_in_set [OF False]] by blast
        then show ?thesis using invalid le [OF e] set_for_mono by auto
      qed
      then show ?thesis
        using s'(2) tq_ok_other(3) [OF tok] by (auto simp: queue_ok_def resetTimerfd_def)
    qed
    ultimately show ?thesis by blast
  qed
qed

text \<open>The members of the queue: what only its own operations change.\<close>

definition timer_state ::
  "('f, 'm) tqueue_scheme \<Rightarrow> (taddr \<Rightarrow> 'f timer option) \<times> int \<times> entry list \<times> timer_id set \<times> bool \<times> timer_id set \<times> cid \<times>
    (timestamp \<times> timespec) option" where
  "timer_state s = (tq_heap s, numCreated s, timers s, activeTimers s, callingExpiredTimers s, cancelingTimers s,
     timerfdChannel s, armed s)"

lemma timer_state_fields [simp]:
  "timer_state (s\<lparr>chans := x1\<rparr>) = timer_state s" "timer_state (s\<lparr>use_count := x2\<rparr>) = timer_state s"
  "timer_state (s\<lparr>pl_channels := x3\<rparr>) = timer_state s" "timer_state (s\<lparr>event_capacity := x4\<rparr>) = timer_state s"
  "timer_state (s\<lparr>ctl_log := x5\<rparr>) = timer_state s" "timer_state (s\<lparr>loop_id := x6\<rparr>) = timer_state s"
  "timer_state (s\<lparr>looping := x7\<rparr>) = timer_state s" "timer_state (s\<lparr>quit_flag := x8\<rparr>) = timer_state s"
  "timer_state (s\<lparr>lp_eventHandling := x9\<rparr>) = timer_state s" "timer_state (s\<lparr>callingPendingFunctors := x10\<rparr>) = timer_state s"
  "timer_state (s\<lparr>pollReturnTime := x11\<rparr>) = timer_state s" "timer_state (s\<lparr>activeChannels := x12\<rparr>) = timer_state s"
  "timer_state (s\<lparr>currentActiveChannel := x13\<rparr>) = timer_state s" "timer_state (s\<lparr>pendingFunctors := x14\<rparr>) = timer_state s"
  "timer_state (s\<lparr>eventfd_count := x15\<rparr>) = timer_state s"
  by (simp_all add: timer_state_def)

lemma timer_state_queue [simp]:
  "timer_state (queueInLoop self f s) = timer_state s" "timer_state (put_chan c ch s) = timer_state s"
  "timer_state (lock_ptr obj s) = timer_state s"
  by (simp_all add: queueInLoop_def queue_wakeup_def queue_push_def wakeup_def put_chan_def lock_ptr_def)

lemma timer_state_change: "poller_change s s' \<Longrightarrow> timer_state s' = timer_state s"
  by (simp add: timer_state_def poller_change_def) (erule ssubst, simp)

text \<open>What the queue leaves alone of the state, and the callbacks of its timers.\<close>

definition outside_queue :: "('f, 'm) tqueue_scheme \<Rightarrow> ('f, 'm) tqueue_scheme" where
  "outside_queue s = s\<lparr>tq_heap := Map.empty, numCreated := 0, timers := [], activeTimers := {},
     callingExpiredTimers := False, cancelingTimers := {}, armed := None\<rparr>"

lemma outside_queue_fields [simp]:
  "outside_queue (s\<lparr>tq_heap := x1\<rparr>) = outside_queue s" "outside_queue (s\<lparr>numCreated := x2\<rparr>) = outside_queue s"
  "outside_queue (s\<lparr>timers := x3\<rparr>) = outside_queue s" "outside_queue (s\<lparr>activeTimers := x4\<rparr>) = outside_queue s"
  "outside_queue (s\<lparr>callingExpiredTimers := x5\<rparr>) = outside_queue s"
  "outside_queue (s\<lparr>cancelingTimers := x6\<rparr>) = outside_queue s" "outside_queue (s\<lparr>armed := x7\<rparr>) = outside_queue s"
  by (simp_all add: outside_queue_def)

lemma outside_queue_eqD:
  assumes "outside_queue s' = outside_queue s"
  shows "s' = s\<lparr>tq_heap := tq_heap s', numCreated := numCreated s', timers := timers s', activeTimers := activeTimers s',
     callingExpiredTimers := callingExpiredTimers s', cancelingTimers := cancelingTimers s', armed := armed s'\<rparr>"
  using assms by (cases s; cases s') (simp add: outside_queue_def)

definition timer_callbacks :: "('f \<Rightarrow> bool) \<Rightarrow> ('f, 'm) tqueue_scheme \<Rightarrow> bool" where
  "timer_callbacks F s \<longleftrightarrow> (\<forall>a t. tq_heap s a = Some t \<longrightarrow> F (tm_callback t))"

lemma tq_insert_outside: "tq_insert a s = Inr (b, s') \<Longrightarrow> outside_queue s' = outside_queue s \<and> tq_heap s' = tq_heap s"
  by (auto simp: tq_insert_def timer_at_def ensure_def Let_def res_simps split: option.splits if_splits)

lemma addTimerInLoop_outside:
  "addTimerInLoop clock a s = Inr s' \<Longrightarrow> outside_queue s' = outside_queue s \<and> tq_heap s' = tq_heap s"
  using tq_insert_outside
  by (fastforce simp: addTimerInLoop_def timer_at_def resetTimerfd_def res_simps split: option.splits if_splits prod.splits)

lemma call_step_outside:
  assumes "call_step alloc c s = Inr s'"
  shows "outside_queue s' = outside_queue s"
    and "timer_callbacks F s \<Longrightarrow> (case c of Call_Add cb w i clock \<Rightarrow> F cb | _ \<Rightarrow> True) \<Longrightarrow> timer_callbacks F s'"
proof -
  have "outside_queue s' = outside_queue s \<and>
      (timer_callbacks F s \<longrightarrow> (case c of Call_Add cb w i clock \<Rightarrow> F cb | _ \<Rightarrow> True) \<longrightarrow> timer_callbacks F s')"
  proof (cases c)
    case (Call_Add cb w i clock)
    then obtain a s1 where "create_Timer alloc cb w i s = Inr (a, s1)" "addTimerInLoop clock a s1 = Inr s'"
      using assms by (auto simp: res_simps)
    then show ?thesis
      using Call_Add addTimerInLoop_outside [of clock a s1 s']
      by (auto simp: create_Timer_def timer_callbacks_def new_Timer_def split: option.splits if_splits)
  next
    case (Call_Cancel timer)
    then show ?thesis
      using assms
      by (auto simp: cancelInLoop_def timer_at_def delete_Timer_def timer_callbacks_def ensure_def Let_def res_simps
        split: option.splits if_splits)
  qed
  then show "outside_queue s' = outside_queue s"
    "timer_callbacks F s \<Longrightarrow> (case c of Call_Add cb w i clock \<Rightarrow> F cb | _ \<Rightarrow> True) \<Longrightarrow> timer_callbacks F s'" by blast+
qed

lemma getExpired_outside:
  fixes s :: "('f, 'm) tqueue_scheme"
  assumes "getExpired now s = Inr (es, s')"
  shows "outside_queue s' = outside_queue s"
proof -
  have one: "outside_queue s' = outside_queue s" if "deactivate e s = Inr s'" for e and s s' :: "('f, 'm) tqueue_scheme"
    using that by (cases "timer_at (snd e) s") (auto simp: deactivate_def Let_def ensure_def split: if_splits)
  have "outside_queue s' = outside_queue s" if "foldr_res deactivate es s = Inr s'" for es and s s' :: "('f, 'm) tqueue_scheme"
    using that
  proof (induction es arbitrary: s)
    case (Cons e es)
    then obtain t where "deactivate e s = Inr t" "foldr_res deactivate es t = Inr s'" by (auto simp: res_simps)
    then show ?case using one [of e s t] Cons.IH [of t] by simp
  qed simp
  from this [of _ "s\<lparr>timers := rest\<rparr>" for rest] show ?thesis
    using assms by (auto simp: getExpired_def ensure_def Let_def res_simps split: if_splits)
qed

lemma reset_one_outside:
  assumes run: "reset_one now e s = Inr s'"
  shows "outside_queue s' = outside_queue s \<and> (timer_callbacks F s \<longrightarrow> timer_callbacks F s')"
proof -
  obtain t where t: "tq_heap s (snd e) = Some t"
    using run by (auto simp: reset_one_def timer_at_def split: option.splits)
  show ?thesis
  proof (cases "tm_repeat t \<and> (snd e, tm_sequence t) \<notin> cancelingTimers s")
    case True
    then obtain b where *: "tq_insert (snd e) (s\<lparr>tq_heap := (tq_heap s)(snd e \<mapsto> restart now t)\<rparr>) = Inr (b, s')"
      using run t by (auto simp: reset_one_def timer_at_def res_simps)
    have "outside_queue s' = outside_queue s" "tq_heap s' = (tq_heap s)(snd e \<mapsto> restart now t)"
      using tq_insert_outside [OF *] by simp_all
    moreover have "tm_callback (restart now t) = tm_callback t" by (simp add: restart_def)
    ultimately show ?thesis using t by (auto simp: timer_callbacks_def split: if_splits)
  next
    case False
    then have "s' = delete_Timer (snd e) s" using run t by (auto simp: reset_one_def timer_at_def)
    then show ?thesis by (auto simp: delete_Timer_def timer_callbacks_def)
  qed
qed

lemma reset_outside:
  assumes "reset clock es now s = Inr s'"
  shows "outside_queue s' = outside_queue s \<and> (timer_callbacks F s \<longrightarrow> timer_callbacks F s')"
proof -
  obtain s1 where r: "foldr_res (reset_one now) es s = Inr s1"
    using assms by (cases "foldr_res (reset_one now) es s") (simp_all add: reset_def)
  then have "s' = s1 \<or> (\<exists>w. s' = resetTimerfd clock w s1)"
    using assms by (cases "timer_at (snd (hd (timers s1))) s1") (auto simp: reset_def split: if_splits)
  then have s1: "outside_queue s' = outside_queue s1" "tq_heap s' = tq_heap s1" by (auto simp: resetTimerfd_def)
  have "outside_queue s1 = outside_queue s \<and> (timer_callbacks F s \<longrightarrow> timer_callbacks F s1)"
    using r
  proof (induction es arbitrary: s)
    case (Cons e es)
    then obtain t where "reset_one now e s = Inr t" "foldr_res (reset_one now) es t = Inr s1" by (auto simp: res_simps)
    then show ?case using Cons.IH [of t] reset_one_outside [of now e s t F] by simp
  qed simp
  then show ?thesis using s1 by (simp add: timer_callbacks_def)
qed

text \<open>
  An alarm keeps the queue in order and runs each callback in a state where it is, when every callback
  keeps it so; \<open>J\<close> is what else the callbacks keep, if it says nothing of the queue.
\<close>

lemma tq_handleRead_runs:
  fixes s :: "('f, 'm) tqueue_scheme"
  assumes ok: "queue_ok D P s" and J: "J s" and F: "timer_callbacks F s" and now: "time_ok now"
    and exec: "\<And>f X t. F f \<Longrightarrow> queue_ok (\<lambda>w. w \<le> now) X t \<Longrightarrow> J t \<Longrightarrow> timer_callbacks F t \<Longrightarrow>
      barring E (\<lambda>u. queue_ok (\<lambda>w. w \<le> now) X u \<and> J u \<and> timer_callbacks F u) (exec (Run f) t)"
    and stable: "\<And>t u. J t \<Longrightarrow> outside_queue u = outside_queue t \<Longrightarrow> J u"
  shows "barring E (\<lambda>u. queue_ok (\<lambda>_. True) P u \<and> J u \<and> timer_callbacks F u) (tq_handleRead exec now clock s)"
proof -
  let ?s0 = "readTimerfd s"
  let ?es = "expired_at now ?s0"
  let ?X = "P \<union> snd ` set ?es"
  have ok0: "tq_ok P ?s0" using tq_ok_other(3) [OF queue_okD(1) [OF ok]] by (simp add: readTimerfd_def)
  note g = getExpired_ok [OF ok0, of now]
  let ?s1 = "(without_expired now ?s0)\<lparr>callingExpiredTimers := True, cancelingTimers := {}\<rparr>"
  let ?Q = "\<lambda>t. queue_ok (\<lambda>w. w \<le> now) ?X t \<and> J t \<and> timer_callbacks F t"
  have sub: "set ?es \<subseteq> set (timers ?s0)" by (auto simp: expired_at_def)
  have es: "snd ` set ?es \<subseteq> ?X" "distinct (map snd ?es)"
    using tq_ok_distinct [OF ok0] tq_ok_inj [OF ok0] sub
    by (auto simp: distinct_map expired_at_def intro: inj_on_subset)
  have disj: "P \<inter> snd ` set ?es = {}"
    using tq_okD(5) [OF ok0] sub by auto
  have "outside_queue ?s1 = outside_queue s" by (simp add: without_expired_def readTimerfd_def)
  then have "J ?s1" by (rule stable [OF J])
  moreover have "timer_callbacks F ?s1" using F by (simp add: timer_callbacks_def without_expired_def readTimerfd_def)
  moreover have "queue_ok (\<lambda>w. w \<le> now) ?X ?s1"
    using ok g(2) by (auto simp: queue_ok_def tq_ok_other without_expired_def readTimerfd_def)
  ultimately have "?Q ?s1" by blast
  then have "barring E ?Q (foldr_res (run_timer exec) ?es ?s1)"
  proof (rule barring_foldr_res)
    fix e and t :: "('f, 'm) tqueue_scheme"
    assume e: "e \<in> set ?es" and t: "?Q t"
    then obtain x where "tq_heap t (snd e) = Some x"
      using tq_okD(4) [OF queue_okD(1), of "\<lambda>w. w \<le> now" ?X t] by blast
    then show "barring E ?Q (run_timer exec e t)"
      using exec [of "tm_callback x" ?X t] t by (simp add: run_timer_def timer_at_def timer_callbacks_def)
  qed
  then have "barring E (\<lambda>u. queue_ok (\<lambda>_. True) P u \<and> J u \<and> timer_callbacks F u)
      (bindr (foldr_res (run_timer exec) ?es ?s1) (\<lambda>s. reset clock ?es now (s\<lparr>callingExpiredTimers := False\<rparr>)))"
  proof (rule barring_bindr)
    fix t :: "('f, 'm) tqueue_scheme"
    assume t: "?Q t"
    let ?t = "t\<lparr>callingExpiredTimers := False\<rparr>"
    have "w \<le> now" if "\<not> ts_valid w" for w
      using that now by (auto simp: ts_valid_def time_ok_def less_eq_timestamp_def ts_less_def)
    then have "queue_ok (\<lambda>w. \<not> ts_valid w) ?X ?t"
      using t by (auto simp: queue_ok_def tq_ok_other set_for_def)
    from reset_ok [OF this es now, of clock] obtain u where
      u: "reset clock ?es now ?t = Inr u" "queue_ok (\<lambda>_. True) (?X - snd ` set ?es) u" by blast
    have "outside_queue u = outside_queue t" "timer_callbacks F u"
      using reset_outside [OF u(1), of F] t by (simp_all add: timer_callbacks_def)
    moreover have "?X - snd ` set ?es = P" using disj by auto
    ultimately show "barring E (\<lambda>u. queue_ok (\<lambda>_. True) P u \<and> J u \<and> timer_callbacks F u) (reset clock ?es now ?t)"
      using u t stable [of t u] by simp
  qed
  then show ?thesis using g(1) by (simp add: tq_handleRead_def Let_def)
qed

lemma tq_handleRead_ok:
  fixes s :: "('f, 'm) tqueue_scheme"
  assumes ok: "queue_ok D P s" and "alloc_ok alloc" "api_runner alloc exec" and now: "time_ok now"
  shows "safe (queue_ok (\<lambda>_. True) P) (tq_handleRead exec now clock s)"
proof -
  have "safe (\<lambda>u. queue_ok (\<lambda>_. True) P u \<and> True \<and> timer_callbacks (\<lambda>_. True) u) (tq_handleRead exec now clock s)"
    by (rule tq_handleRead_runs [OF ok _ _ now, where J = "\<lambda>_. True"])
      (use exec_ok [OF _ assms(2,3) downward_upto] in \<open>auto simp: timer_callbacks_def\<close>)
  then show ?thesis by (simp add: timer_callbacks_def)
qed

lemma tq_step_ok:
  "queue_ok (\<lambda>_. True) P s \<Longrightarrow> alloc_ok alloc \<and> api_runner alloc exec \<and> event_ok ev \<Longrightarrow>
    safe (queue_ok (\<lambda>_. True) P) (tq_step exec alloc ev s)"
  using tq_handleRead_ok call_step_ok [OF _ _ _ downward_all] by (cases ev) auto

interpretation timers: service "\<lambda>e. e = Bad_Alloc" "queue_ok (\<lambda>_. True) P"
  "\<lambda>ev. alloc_ok alloc \<and> api_runner alloc exec \<and> event_ok ev" "tq_step exec alloc"
  for P alloc exec
  by unfold_locales (rule tq_step_ok)

section \<open>Properties\<close>

text \<open>C8: whatever the application does with timers, in or out of callbacks, no assertion of the
  queue fails and no deleted timer is used: after any run of calls and alarms the two sets hold
  the same timers, a timer object is live exactly when it is in the queue (none leaks), and the
  timer descriptor is set for a time not after the earliest timer, so that no timer is missed.\<close>

theorem timer_queue_safe:
  assumes "queue_ok (\<lambda>_. True) {} s" "alloc_ok alloc" "api_runner alloc exec"
    and "\<forall>ev \<in> set events. event_ok ev"
  shows "case foldr_res (tq_step exec alloc) events s of
      Inl e \<Rightarrow> e = Bad_Alloc
    | Inr s' \<Rightarrow> sorted_wrt (<) (timers s') \<and> length (timers s') = card (activeTimers s') \<and>
        dom (tq_heap s') = snd ` set (timers s') \<and>
        (\<forall>e \<in> set (timers s'). \<exists>w ts. armed s' = Some (w, ts) \<and> w \<le> fst e)"
proof -
  have "safe (queue_ok (\<lambda>_. True) {}) (foldr_res (tq_step exec alloc) events s)"
    using assms by (intro timers.run_safe) auto
  then show ?thesis
  proof (cases "foldr_res (tq_step exec alloc) events s")
    case (Inr s')
    assume "safe (queue_ok (\<lambda>_. True) {}) (foldr_res (tq_step exec alloc) events s)"
    with Inr have ok: "queue_ok (\<lambda>_. True) {} s'" by simp
    note tok = queue_okD(1) [OF ok]
    show ?thesis
      using Inr tq_okD(1,4) [OF tok] tq_ok_sizes [OF tok] queue_okD(5) [OF ok]
      by (simp add: sizes_agree_def set_for_def)
  qed simp
qed

lemma tq_insert_heap: "tq_insert a s = Inr (b, s') \<Longrightarrow> tq_heap s' = tq_heap s"
  by (cases "timer_at a s") (auto simp: tq_insert_def ensure_def Let_def split: if_splits)

lemma addTimerInLoop_heap: "addTimerInLoop clock a s = Inr s' \<Longrightarrow> tq_heap s' = tq_heap s"
  by (auto simp: addTimerInLoop_def res_simps resetTimerfd_def dest!: tq_insert_heap split: if_splits)

text \<open>A call leaves the timers outside the queue alone.\<close>

lemma call_step_frame:
  assumes ok: "queue_ok D X s" and "alloc_ok alloc" and D: "downward D" and "a \<in> X"
    and r: "call_step alloc c s = Inr s'"
  shows "tq_heap s' a = tq_heap s a"
proof (cases c)
  case (Call_Add cb w interval clock)
  with r obtain b s1 where c: "create_Timer alloc cb w interval s = Inr (b, s1)" and add: "addTimerInLoop clock b s1 = Inr s'"
    by (auto simp: res_simps)
  have "alloc s = Some b" "s1 = s\<lparr>numCreated := numCreated s + 1,
      tq_heap := (tq_heap s)(b \<mapsto> new_Timer cb w interval (numCreated s + 1))\<rparr>"
    using c by (auto simp: create_Timer_def split: option.splits)
  moreover from this have "b \<noteq> a"
    using assms(2,4) tq_okD(4) [OF queue_okD(1) [OF ok]] by (auto simp: alloc_ok_def)
  moreover have "tq_heap s' = tq_heap s1"
    using add by (rule addTimerInLoop_heap)
  ultimately show ?thesis by simp
next
  case (Call_Cancel timer)
  show ?thesis
  proof (cases "timer \<in> activeTimers s")
    case True
    then obtain t where t: "tq_heap s (fst timer) = Some t" "tm_sequence t = snd timer"
      "(tm_expiration t, fst timer) \<in> set (timers s)"
      using active_iff [OF queue_okD(1) [OF ok], of "fst timer" "snd timer"] by auto
    have "fst timer \<noteq> a" using t(3) assms(4) tq_okD(5) [OF queue_okD(1) [OF ok]] by force
    then show ?thesis
      using cancel_active(1) [OF queue_okD(1) [OF ok] t(1,3)] t(2) r Call_Cancel
      by (cases timer) (auto simp: delete_Timer_def left_def)
  next
    case False
    then show ?thesis
      using cancel_inactive [OF queue_okD(1) [OF ok] False] r Call_Cancel by auto
  qed
qed

lemma exec_frame:
  assumes ok: "queue_ok D X s" and env: "alloc_ok alloc" "api_runner alloc exec" and D: "downward D" and "a \<in> X"
    and r: "exec (Run f) s = Inr s'"
  shows "tq_heap s' a = tq_heap s a"
proof -
  obtain calls where c: "\<forall>c \<in> set calls. call_ok c" "exec (Run f) s = foldr_res (call_step alloc) calls s"
    using env(2) unfolding api_runner_def by blast
  have "tq_heap s' a = tq_heap s a"
    if "foldr_res (call_step alloc) calls s = Inr s'" "queue_ok D X s" "\<forall>c \<in> set calls. call_ok c" for calls s
    using that
  proof (induction calls arbitrary: s)
    case (Cons c calls)
    then obtain s1 where s1: "call_step alloc c s = Inr s1" "foldr_res (call_step alloc) calls s1 = Inr s'"
      by (auto simp: res_simps)
    have "queue_ok D X s1"
      using call_step_ok [OF Cons.prems(2) env(1) _ D, of c] Cons.prems(3) s1(1) by simp
    moreover have "tq_heap s1 a = tq_heap s a"
      using call_step_frame [OF Cons.prems(2) env(1) D assms(5) s1(1)] .
    ultimately show ?case using Cons.IH [OF s1(2)] Cons.prems(3) by simp
  qed simp
  with c ok r show ?thesis by metis
qed

lemma run_timers_eq:
  assumes ok: "queue_ok D X s" and env: "alloc_ok alloc" "api_runner alloc exec" and D: "downward D"
    and "snd ` set es \<subseteq> X" "\<And>e. e \<in> set es \<Longrightarrow> tq_heap s (snd e) = tq_heap s0 (snd e)"
  shows "foldr_res (run_timer exec) es s =
    foldr_res (\<lambda>f. exec (Run f)) (map (\<lambda>e. tm_callback (the (tq_heap s0 (snd e)))) es) s"
  using ok assms(5,6)
proof (induction es arbitrary: s)
  case Nil
  then show ?case by simp
next
  case (Cons e es)
  have "snd e \<in> dom (tq_heap s)"
    using Cons.prems(2) tq_okD(4) [OF queue_okD(1) [OF Cons.prems(1)]] by auto
  then obtain t where t: "tq_heap s (snd e) = Some t" by blast
  then have "run_timer exec e s = exec (Run (tm_callback (the (tq_heap s0 (snd e))))) s"
    using Cons.prems(3) [of e] by (simp add: run_timer_def timer_at_def)
  moreover have "foldr_res (run_timer exec) es s' =
      foldr_res (\<lambda>f. exec (Run f)) (map (\<lambda>e. tm_callback (the (tq_heap s0 (snd e)))) es) s'"
    if "exec (Run (tm_callback (the (tq_heap s0 (snd e))))) s = Inr s'" for s'
  proof (rule Cons.IH)
    show "queue_ok D X s'" using exec_ok [OF Cons.prems(1) env D] that by (metis barring_Inr)
    show "snd ` set es \<subseteq> X" using Cons.prems(2) by simp
    fix e' assume "e' \<in> set es"
    then show "tq_heap s' (snd e') = tq_heap s0 (snd e')"
      using exec_frame [OF Cons.prems(1) env D _ that, of "snd e'"] Cons.prems(2,3) by auto
  qed
  ultimately show ?case by (cases "exec (Run (tm_callback (the (tq_heap s0 (snd e))))) s") simp_all
qed

text \<open>C20: an alarm at time \<open>now\<close> runs the callbacks of exactly the timers that are due
  (\<open>expiration <= now\<close>), each once, in the order of their times, whatever the callbacks do; a
  callback that cancels a timer of the same batch does not keep it from running.  The timers that
  are not due stay as they were.\<close>

theorem alarm_runs_due_timers:
  assumes "queue_ok (\<lambda>_. True) P s" "alloc_ok alloc" "api_runner alloc exec"
  shows "\<exists>s1. tq_handleRead exec now clock s =
      bindr (foldr_res (\<lambda>f. exec (Run f))
               (map (\<lambda>e. tm_callback (the (tq_heap s (snd e)))) (filter (\<lambda>e. fst e \<le> now) (timers s))) s1)
        (\<lambda>s'. reset clock (filter (\<lambda>e. fst e \<le> now) (timers s)) now (s'\<lparr>callingExpiredTimers := False\<rparr>)) \<and>
    timers s1 = filter (\<lambda>e. now < fst e) (timers s) \<and> tq_heap s1 = tq_heap s \<and>
    (\<forall>a q. (a, q) \<in> activeTimers s1 \<longleftrightarrow>
       (\<exists>t. tq_heap s a = Some t \<and> tm_sequence t = q \<and> now < tm_expiration t \<and> (tm_expiration t, a) \<in> set (timers s)))"
proof -
  let ?s0 = "readTimerfd s"
  let ?es = "expired_at now ?s0"
  let ?X = "P \<union> snd ` set ?es"
  have ok0: "tq_ok P ?s0" using tq_ok_other(3) [OF queue_okD(1) [OF assms(1)]] by (simp add: readTimerfd_def)
  note g = getExpired_ok [OF ok0, of now]
  let ?s1 = "(without_expired now ?s0)\<lparr>callingExpiredTimers := True, cancelingTimers := {}\<rparr>"
  have ok1: "queue_ok (\<lambda>w. w \<le> now) ?X ?s1"
    using assms(1) g(2) by (auto simp: queue_ok_def tq_ok_other without_expired_def readTimerfd_def)
  have es: "?es = filter (\<lambda>e. fst e \<le> now) (timers s)" by (simp add: expired_at_def readTimerfd_def)
  have s1: "timers ?s1 = filter (\<lambda>e. now < fst e) (timers s)" "tq_heap ?s1 = tq_heap s"
    by (simp_all add: without_expired_def readTimerfd_def)
  have "foldr_res (run_timer exec) ?es ?s1 =
      foldr_res (\<lambda>f. exec (Run f)) (map (\<lambda>e. tm_callback (the (tq_heap s (snd e)))) ?es) ?s1"
    by (rule run_timers_eq [OF ok1 assms(2,3) downward_upto]) (simp_all add: s1)
  then have "tq_handleRead exec now clock s =
      bindr (foldr_res (\<lambda>f. exec (Run f)) (map (\<lambda>e. tm_callback (the (tq_heap s (snd e)))) ?es) ?s1)
        (\<lambda>s'. reset clock ?es now (s'\<lparr>callingExpiredTimers := False\<rparr>))"
    using g(1) by (simp add: tq_handleRead_def)
  moreover have "(a, q) \<in> activeTimers ?s1 \<longleftrightarrow>
       (\<exists>t. tq_heap s a = Some t \<and> tm_sequence t = q \<and> now < tm_expiration t \<and> (tm_expiration t, a) \<in> set (timers s))" for a q
    using active_iff [OF queue_okD(1) [OF ok1], of a q] by (auto simp: s1)
  ultimately show ?thesis using s1 unfolding es by blast
qed

text \<open>What \<open>reset\<close> does with one timer of the batch, and that it leaves the others alone.\<close>

definition settled :: "timestamp \<Rightarrow> timer_id set \<Rightarrow> taddr \<Rightarrow> 'f timer \<Rightarrow> ('f, 'm) tqueue_scheme \<Rightarrow> bool" where
  "settled now canceled a t s \<longleftrightarrow>
     (if tm_repeat t \<and> (a, tm_sequence t) \<notin> canceled
      then tq_heap s a = Some (t\<lparr>tm_expiration := addTime now (tm_interval t)\<rparr>) \<and>
           (addTime now (tm_interval t), a) \<in> set (timers s)
      else tq_heap s a = None \<and> (\<forall>w. (w, a) \<notin> set (timers s)))"

lemma reset_one_settles:
  assumes ok: "queue_ok (\<lambda>w. \<not> ts_valid w) X s" and a: "snd e \<in> X" and t: "tq_heap s (snd e) = Some t"
    and r: "reset_one now e s = Inr s'"
  shows "settled now (cancelingTimers s) (snd e) t s'" and "cancelingTimers s' = cancelingTimers s"
    and "b \<noteq> snd e \<Longrightarrow> tq_heap s' b = tq_heap s b"
    and "b \<noteq> snd e \<Longrightarrow> (w, b) \<in> set (timers s') \<longleftrightarrow> (w, b) \<in> set (timers s)"
proof -
  let ?s = "s\<lparr>tq_heap := (tq_heap s)(snd e \<mapsto> restart now t)\<rparr>"
  have "settled now (cancelingTimers s) (snd e) t s' \<and> cancelingTimers s' = cancelingTimers s \<and>
    (b \<noteq> snd e \<longrightarrow> tq_heap s' b = tq_heap s b \<and> ((w, b) \<in> set (timers s') \<longleftrightarrow> (w, b) \<in> set (timers s)))"
  proof (cases "tm_repeat t \<and> (snd e, tm_sequence t) \<notin> cancelingTimers s")
    case True
    from tq_insert_ok [OF queue_okD(1) [OF restart_ok [OF ok a t, of now]] a]
    have "s' = entered (snd e) (restart now t) ?s"
      using True t r by (auto simp: reset_one_def timer_at_def)
    then show ?thesis using True by (auto simp: settled_def entered_def set_insort_key restart_def)
  next
    case False
    then have "s' = delete_Timer (snd e) s"
      using t r by (auto simp: reset_one_def timer_at_def)
    then show ?thesis
      using False tq_okD(5) [OF queue_okD(1) [OF ok]] a by (force simp: settled_def delete_Timer_def)
  qed
  then show "settled now (cancelingTimers s) (snd e) t s'" "cancelingTimers s' = cancelingTimers s"
    "b \<noteq> snd e \<Longrightarrow> tq_heap s' b = tq_heap s b"
    "b \<noteq> snd e \<Longrightarrow> (w, b) \<in> set (timers s') \<longleftrightarrow> (w, b) \<in> set (timers s)"
    by blast+
qed

lemma settled_cong:
  assumes "tq_heap s' a = tq_heap s a" "\<And>w. (w, a) \<in> set (timers s') \<longleftrightarrow> (w, a) \<in> set (timers s)"
  shows "settled now C a t s' = settled now C a t s"
  using assms by (simp add: settled_def)

lemma reset_loop_settles:
  assumes "queue_ok (\<lambda>w. \<not> ts_valid w) X s" "snd ` set es \<subseteq> X" "distinct (map snd es)" "time_ok now"
    and "foldr_res (reset_one now) es s = Inr s'"
  shows "(\<forall>e \<in> set es. \<forall>t. tq_heap s (snd e) = Some t \<longrightarrow> settled now (cancelingTimers s) (snd e) t s') \<and>
    (\<forall>b. b \<notin> snd ` set es \<longrightarrow> tq_heap s' b = tq_heap s b \<and>
       (\<forall>w. (w, b) \<in> set (timers s') \<longleftrightarrow> (w, b) \<in> set (timers s)))"
  using assms
proof (induction es arbitrary: s X)
  case (Cons e es)
  obtain s1 where s1: "reset_one now e s = Inr s1" "foldr_res (reset_one now) es s1 = Inr s'"
    using Cons.prems(5) by (auto simp: res_simps)
  have a: "snd e \<in> X" using Cons.prems(2) by simp
  then have "snd e \<in> dom (tq_heap s)" using tq_okD(4) [OF queue_okD(1) [OF Cons.prems(1)]] by auto
  then obtain t where t: "tq_heap s (snd e) = Some t" by blast
  note one = reset_one_settles [OF Cons.prems(1) a t s1(1)]
  have ok1: "queue_ok (\<lambda>w. \<not> ts_valid w) (X - {snd e}) s1"
    using reset_one_ok [OF Cons.prems(1) a Cons.prems(4)] s1(1) by auto
  have "snd e \<notin> snd ` set es" "snd ` set es \<subseteq> X - {snd e}" "distinct (map snd es)"
    using Cons.prems(2,3) by (auto simp: image_iff)
  note IH = Cons.IH [OF ok1 this(2,3) Cons.prems(4) s1(2)] and new = this(1)
  have "settled now (cancelingTimers s) (snd e) t s'"
    using one(1) IH new settled_cong [of s' "snd e" s1] by blast
  moreover have "tq_heap s1 (snd e') = tq_heap s (snd e')" if "e' \<in> set es" for e'
    using one(3) new that by (metis image_eqI)
  ultimately show ?case
    using IH one(2-4) t by auto
qed simp

lemma reset_inv:
  assumes "reset clock es now s = Inr s'"
  shows "\<exists>s1 r. foldr_res (reset_one now) es s = Inr s1 \<and> s' = s1\<lparr>armed := r\<rparr>"
proof -
  obtain s1 n where "foldr_res (reset_one now) es s = Inr s1" "s' = (if ts_valid n then resetTimerfd clock n s1 else s1)"
    using assms unfolding reset_def bindr_eq_Inr sum.inject by blast
  moreover have "s1 = s1\<lparr>armed := armed s1\<rparr>" by simp
  ultimately show ?thesis unfolding resetTimerfd_def by metis
qed

text \<open>C26: after a batch a repeating timer that was not cancelled meanwhile is due again one
  interval after the alarm, with its address and sequence number; every other timer of the batch
  is destroyed; no timer outside the batch is touched.\<close>

theorem reset_reschedules:
  assumes "queue_ok (\<lambda>w. \<not> ts_valid w) X s" "snd ` set es \<subseteq> X" "distinct (map snd es)" "time_ok now"
  shows "\<exists>s'. reset clock es now s = Inr s' \<and>
    (\<forall>e \<in> set es. \<forall>t. tq_heap s (snd e) = Some t \<longrightarrow> settled now (cancelingTimers s) (snd e) t s') \<and>
    (\<forall>b. b \<notin> snd ` set es \<longrightarrow> tq_heap s' b = tq_heap s b \<and>
       (\<forall>w. (w, b) \<in> set (timers s') \<longleftrightarrow> (w, b) \<in> set (timers s)))"
proof -
  obtain s' where s': "reset clock es now s = Inr s'" using reset_ok [OF assms] by blast
  then obtain s1 where s1: "foldr_res (reset_one now) es s = Inr s1"
      and same: "tq_heap s' = tq_heap s1" "timers s' = timers s1"
    using reset_inv by fastforce
  have "settled now C a t s' = settled now C a t s1" for C a t
    by (rule settled_cong) (simp_all add: same)
  with reset_loop_settles [OF assms s1] s' show ?thesis by (auto simp: same)
qed

text \<open>C27: cancelling takes effect exactly when the identifier names a timer in the queue: that
  timer is destroyed and no other one is touched.  An identifier whose timer is gone changes
  nothing, even when its address is in use again for a younger timer; while expired timers run it
  is remembered, so that a running timer cancels itself.\<close>

theorem cancel_exact:
  assumes "queue_ok D X s"
  shows "\<exists>s'. cancelInLoop (a, q) s = Inr s' \<and>
    (if \<exists>t. tq_heap s a = Some t \<and> tm_sequence t = q \<and> a \<notin> X
     then tq_heap s' = (tq_heap s)(a := None) \<and> set (timers s') = {e \<in> set (timers s). snd e \<noteq> a} \<and>
          activeTimers s' = activeTimers s - {(a, q)} \<and> cancelingTimers s' = cancelingTimers s
     else tq_heap s' = tq_heap s \<and> timers s' = timers s \<and> activeTimers s' = activeTimers s \<and>
          cancelingTimers s' = (if callingExpiredTimers s then insert (a, q) (cancelingTimers s)
            else cancelingTimers s))"
proof -
  note tok = queue_okD(1) [OF assms]
  have iff: "(\<exists>t. tq_heap s a = Some t \<and> tm_sequence t = q \<and> a \<notin> X) \<longleftrightarrow> (a, q) \<in> activeTimers s"
  proof
    assume "\<exists>t. tq_heap s a = Some t \<and> tm_sequence t = q \<and> a \<notin> X"
    then obtain t where t: "tq_heap s a = Some t" "tm_sequence t = q" "a \<notin> X" by blast
    then have "a \<in> snd ` set (timers s)" using tq_okD(4) [OF tok] by auto
    then obtain w where "(w, a) \<in> set (timers s)" by force
    then show "(a, q) \<in> activeTimers s" using tq_okD(2) [OF tok] t active_iff [OF tok] by force
  next
    assume "(a, q) \<in> activeTimers s"
    then show "\<exists>t. tq_heap s a = Some t \<and> tm_sequence t = q \<and> a \<notin> X"
      using active_iff [OF tok] tq_okD(5) [OF tok] by force
  qed
  show ?thesis
  proof (cases "(a, q) \<in> activeTimers s")
    case True
    then obtain t where t: "tq_heap s a = Some t" "tm_sequence t = q" "(tm_expiration t, a) \<in> set (timers s)"
      using active_iff [OF tok] by blast
    have "set (remove1 (tm_expiration t, a) (timers s)) = {e \<in> set (timers s). snd e \<noteq> a}"
      using set_remove1_eq [OF tq_ok_distinct [OF tok]] tq_okD(2) [OF tok] t by force
    then show ?thesis
      using cancel_active(1) [OF tok t(1,3)] True t(2) unfolding iff
      by (auto simp: delete_Timer_def left_def)
  next
    case False
    then show ?thesis using cancel_inactive [OF tok False] unfolding iff by simp
  qed
qed

lemma run_timers_idle:
  assumes ok: "queue_ok D X s" and "snd ` set es \<subseteq> X"
  shows "foldr_res (run_timer (\<lambda>_. Inr)) es s = Inr s"
  using assms(2)
proof (induction es)
  case (Cons e es)
  then have "snd e \<in> dom (tq_heap s)" using tq_okD(4) [OF queue_okD(1) [OF ok]] by auto
  then show ?case using Cons by (auto simp: run_timer_def timer_at_def)
qed simp

text \<open>A due timer that does not repeat is gone after the alarm.\<close>

lemma due_timer_destroyed:
  fixes s :: "('f, 'm) tqueue_scheme"
  assumes ok: "queue_ok (\<lambda>_. True) {} s" and t: "tq_heap s a = Some t" "\<not> tm_repeat t" "tm_expiration t \<le> now"
    and now: "time_ok now"
  shows "\<exists>s'. tq_handleRead (\<lambda>_. Inr) now clock s = Inr s' \<and> tq_heap s' a = None"
proof -
  let ?s = "readTimerfd s"
  let ?es = "expired_at now ?s"
  have tok: "tq_ok {} ?s" using tq_ok_other(3) [OF queue_okD(1) [OF ok]] by (simp add: readTimerfd_def)
  note g = getExpired_ok [OF tok, of now]
  have "a \<in> snd ` set (timers ?s)" using tq_okD(4) [OF tok] t(1) by (auto simp: readTimerfd_def)
  then obtain w where w: "(w, a) \<in> set (timers ?s)" by force
  then have due: "(w, a) \<in> set ?es"
    using tq_okD(2) [OF tok w] t(1,3) by (simp add: expired_at_def readTimerfd_def)
  let ?s1 = "(without_expired now ?s)\<lparr>callingExpiredTimers := True, cancelingTimers := {}\<rparr>"
  let ?u = "?s1\<lparr>callingExpiredTimers := False\<rparr>"
  have ok1: "queue_ok (\<lambda>w. \<not> ts_valid w) (snd ` set ?es) s" if "s = ?s1 \<or> s = ?u" for s
    using ok g(2) that now
    by (auto simp: queue_ok_def tq_ok_other without_expired_def readTimerfd_def time_ok_def
      ts_valid_def less_timestamp_def ts_less_def)
  have es: "distinct (map snd ?es)"
    using tq_ok_distinct [OF tok] tq_ok_inj [OF tok]
    by (auto simp: distinct_map expired_at_def intro: inj_on_subset)
  obtain s' where s': "reset clock ?es now ?u = Inr s'"
    using reset_ok [OF ok1 _ es now] by blast
  then have "tq_handleRead (\<lambda>_. Inr) now clock s = Inr s'"
    using g(1) run_timers_idle [OF ok1, of ?s1 ?es] by (simp add: tq_handleRead_def Let_def)
  moreover obtain s4 r where s4: "foldr_res (reset_one now) ?es ?u = Inr s4" "s' = s4\<lparr>armed := r\<rparr>"
    using reset_inv [OF s'] by blast
  moreover from s4(1) have "settled now {} a t s4"
    using reset_loop_settles [OF ok1 _ es now, of ?u s4] due t(1)
    by (force simp: without_expired_def readTimerfd_def)
  ultimately show ?thesis using t(2) by (auto simp: settled_def)
qed

text \<open>
  The destructors of a loop that is not running: the two channels come off the poller without failing
  an assertion, every timer is deleted once, and the three descriptors are closed.
\<close>

lemma delete_timers_each:
  "distinct (map snd es) \<Longrightarrow> snd ` set es \<subseteq> dom (tq_heap s) \<Longrightarrow>
   foldr_res (\<lambda>e s. bindr (timer_at (snd e) s) (\<lambda>_. Inr (delete_Timer (snd e) s))) es s =
     Inr (s\<lparr>tq_heap := tq_heap s |` (- snd ` set es)\<rparr>)"
proof (induction es arbitrary: s)
  case (Cons e es)
  from Cons.prems obtain t where t: "tq_heap s (snd e) = Some t" by auto
  have "tq_heap (delete_Timer (snd e) s) |` (- snd ` set es) = tq_heap s |` (- snd ` set (e # es))"
    by (auto simp: delete_Timer_def restrict_map_def)
  moreover have "snd ` set es \<subseteq> dom (tq_heap (delete_Timer (snd e) s))"
  proof -
    have "dom (tq_heap (delete_Timer (snd e) s)) = dom (tq_heap s) - {snd e}" by (simp add: delete_Timer_def)
    moreover have "snd e \<notin> snd ` set es" using Cons.prems(1) by simp
    ultimately show ?thesis using Cons.prems(2) by (simp add: subset_Diff_insert)
  qed
  ultimately have "foldr_res (\<lambda>e s. bindr (timer_at (snd e) s) (\<lambda>_. Inr (delete_Timer (snd e) s))) es (delete_Timer (snd e) s)
      = Inr ((delete_Timer (snd e) s)\<lparr>tq_heap := tq_heap s |` (- snd ` set (e # es))\<rparr>)"
    using Cons.IH [of "delete_Timer (snd e) s"] Cons.prems(1) by simp
  then show ?case using t by (simp add: timer_at_def delete_Timer_def)
qed (simp add: restrict_map_def)

lemma delete_TimerQueue_ok:
  assumes ok: "loop_ok s" and queue: "queue_ok (\<lambda>_. True) {} s"
    and ch: "chans s (timerfdChannel s) = Some ch" "pl_channels s (ch_fd ch) = Some (timerfdChannel s)"
    and idle: "\<not> lp_eventHandling s" "\<not> ch_eventHandling ch"
  shows "\<exists>s'. delete_TimerQueue self s = Inr s' \<and> loop_ok s' \<and> tq_heap s' = Map.empty \<and> timers s' = [] \<and>
    closed_fds s' = closed_fds s @ [ch_fd ch] \<and> timerfdChannel s' = timerfdChannel s \<and>
    chans s' = (chans s)(timerfdChannel s := None) \<and> pl_channels s' = (pl_channels s)(ch_fd ch := None)"
proof -
  obtain s1 s2 ch' where s2: "disableAll (timerfdChannel s) s = Inr s1" "ch_remove (timerfdChannel s) s1 = Inr s2" "poller_change s s1"
      "loop_ok s2" and change: "poller_change s s2" and s2':  "chans s2 = (chans s)(timerfdChannel s \<mapsto> ch')" "ch_fd ch' = ch_fd ch"
      "\<not> addedToLoop ch'" "\<not> ch_eventHandling ch'" "pl_channels s2 = (pl_channels s)(ch_fd ch := None)"
    using retire_channel [OF ok ch idle] by blast
  have same: "tq_heap s2 = tq_heap s" "timers s2 = timers s" "timerfdChannel s2 = timerfdChannel s"
      "closed_fds s2 = closed_fds s"
    by (subst change [unfolded poller_change_def], simp)+
  have s1: "timerfdChannel s1 = timerfdChannel s"
    by (subst s2(3) [unfolded poller_change_def], simp)
  note tok = queue_okD(1) [OF queue]
  have "distinct (map snd (timers s2))"
    using tq_ok_inj [OF tok] tq_ok_distinct [OF tok] same(2) by (simp add: distinct_map)
  moreover have "snd ` set (timers s2) = dom (tq_heap s2)" using tq_okD(4) [OF tok] same by simp
  moreover have none: "tq_heap s2 |` (- dom (tq_heap s2)) = Map.empty"
    by (auto simp: restrict_map_def fun_eq_iff dom_def)
  ultimately have each: "foldr_res (\<lambda>e s. bindr (timer_at (snd e) s) (\<lambda>_. Inr (delete_Timer (snd e) s))) (timers s2)
      (close_fd (ch_fd ch) s2) = Inr ((close_fd (ch_fd ch) s2)\<lparr>tq_heap := Map.empty\<rparr>)"
    using delete_timers_each [of "timers s2" "close_fd (ch_fd ch) s2"] none by (simp add: close_fd_def)
  let ?s3 = "(close_fd (ch_fd ch) s2)\<lparr>tq_heap := Map.empty, cancelingTimers := {}, activeTimers := {}, timers := []\<rparr>"
  have ok3: "loop_ok ?s3 = loop_ok s2" by (rule loop_ok_cong) (simp_all add: close_fd_def)
  have same3: "timerfdChannel (close_fd (ch_fd ch) s2) = timerfdChannel s" using same(3) by (simp add: close_fd_def)
  have c3: "chans ?s3 (timerfdChannel s) = Some ch'" using s2'(1) by (simp add: close_fd_def)
  have out: "pl_channels ?s3 (ch_fd ch') \<noteq> Some (timerfdChannel s)" using s2'(2,5) by (simp add: close_fd_def)
  have del: "delete_Channel self (timerfdChannel s) ?s3 = Inr (?s3\<lparr>chans := (chans ?s3)(timerfdChannel s := None)\<rparr>)"
    using delete_Channel_eq [of ?s3 "timerfdChannel s" ch' self] ok3 s2(4) c3 out s2'(4) by simp
  have "loop_ok (?s3\<lparr>chans := (chans ?s3)(timerfdChannel s := None)\<rparr>)"
    using delete_Channel_ok(1) [of ?s3 "timerfdChannel s" ch'] ok3 s2(4) c3 out by simp
  moreover have "delete_TimerQueue self s = Inr (?s3\<lparr>chans := (chans ?s3)(timerfdChannel s := None)\<rparr>)"
    using s2(2) s2'(1,2) del each same(3) same3
    by (simp add: delete_TimerQueue_def s2(1) s1 chan_def)
  ultimately show ?thesis
    using s2'(1,5) same by (simp add: close_fd_def)
qed

lemma delete_EventLoop_ok:
  assumes ok: "loop_ok s" and queue: "queue_ok (\<lambda>_. True) {} s"
    and wakeup: "chans s (wakeupChannel s) = Some ch" "pl_channels s (ch_fd ch) = Some (wakeupChannel s)"
    and timer: "chans s (timerfdChannel s) = Some ct" "pl_channels s (ch_fd ct) = Some (timerfdChannel s)"
    and two: "wakeupChannel s \<noteq> timerfdChannel s"
    and idle: "\<not> lp_eventHandling s" "\<not> ch_eventHandling ch" "\<not> ch_eventHandling ct"
  shows "\<exists>s'. delete_EventLoop self (delete_TimerQueue self) epollfd s = Inr s' \<and> tq_heap s' = Map.empty \<and>
    chans s' = (chans s)(wakeupChannel s := None, timerfdChannel s := None) \<and>
    closed_fds s' = closed_fds s @ [wakeupFd s, ch_fd ct, epollfd]"
proof -
  obtain s1 s2 ch' where s2: "disableAll (wakeupChannel s) s = Inr s1" "ch_remove (wakeupChannel s) s1 = Inr s2"
      "poller_change s s1" "loop_ok s2" and change: "poller_change s s2"
      and s2': "chans s2 = (chans s)(wakeupChannel s \<mapsto> ch')" "ch_fd ch' = ch_fd ch"
      "\<not> addedToLoop ch'" "\<not> ch_eventHandling ch'" "pl_channels s2 = (pl_channels s)(ch_fd ch := None)"
    using retire_channel [OF ok wakeup idle(1,2)] by blast
  have same: "tq_heap s2 = tq_heap s" "timers s2 = timers s" "timerfdChannel s2 = timerfdChannel s"
      "closed_fds s2 = closed_fds s" "numCreated s2 = numCreated s" "activeTimers s2 = activeTimers s"
      "armed s2 = armed s" "wakeupFd s2 = wakeupFd s" "wakeupChannel s2 = wakeupChannel s"
      "lp_eventHandling s2 = lp_eventHandling s"
    by (subst change [unfolded poller_change_def], simp)+
  have s1: "wakeupChannel s1 = wakeupChannel s" by (subst s2(3) [unfolded poller_change_def], simp)
  let ?s3 = "(close_fd (wakeupFd s) s2)\<lparr>pendingFunctors := [], activeChannels := []\<rparr>"
  have ok3: "loop_ok ?s3 = loop_ok s2" by (rule loop_ok_cong) (simp_all add: close_fd_def)
  have c3: "chans ?s3 (wakeupChannel s) = Some ch'" using s2'(1) by (simp add: close_fd_def)
  have out: "pl_channels ?s3 (ch_fd ch') \<noteq> Some (wakeupChannel s)" using s2'(2,5) by (simp add: close_fd_def)
  let ?s4 = "?s3\<lparr>chans := (chans ?s3)(wakeupChannel s := None)\<rparr>"
  have del: "delete_Channel self (wakeupChannel s) ?s3 = Inr ?s4"
    using delete_Channel_eq [of ?s3 "wakeupChannel s" ch' self] ok3 s2(4) c3 out s2'(4) by simp
  have ok4: "loop_ok ?s4"
    using delete_Channel_ok(1) [of ?s3 "wakeupChannel s" ch'] ok3 s2(4) c3 out by simp
  have "queue_ok (\<lambda>_. True) {} ?s4 = queue_ok (\<lambda>_. True) {} s" by (rule queue_ok_cong) (simp_all add: close_fd_def same)
  moreover have "ch_fd ct \<noteq> ch_fd ch" using wakeup(2) timer(2) two by auto
  ultimately obtain s5 where "delete_TimerQueue self ?s4 = Inr s5" "tq_heap s5 = Map.empty"
      "closed_fds s5 = closed_fds s @ [wakeupFd s, ch_fd ct]" "chans s5 = (chans ?s4)(timerfdChannel s := None)"
    using delete_TimerQueue_ok [OF ok4, of ct self] queue timer s2'(1,5) same idle two
    by (auto simp: close_fd_def)
  then show ?thesis
    using s2(2) del s2'(1) same
    by (simp add: delete_EventLoop_def s2(1) s1 Let_def close_fd_def delete_EPollPoller_def)
qed

text \<open>C28: \<open>addTimer\<close> reads the sequence number of the timer after it has handed the timer to the
  loop.  Called from another thread, it is a race: when the loop's thread gets to its functors and to
  the alarm first, it inserts the timer, finds it due, runs it and destroys it, and the read uses a
  destroyed object.  When the loop's thread does nothing in between, the identifier is the right one.\<close>

theorem addTimer_race:
  fixes s :: "('f, 'm) tqueue_scheme"
  assumes ok: "queue_ok (\<lambda>_. True) {} s" and other: "\<not> isInLoopThread self s" "pendingFunctors s = []"
    and alloc: "alloc_ok alloc" "alloc s = Some a" and exec: "\<And>u. exec (Run (add a)) u = addTimerInLoop clock a u"
    and due: "\<not> dbl_pos interval" "when \<le> now" "time_ok now"
  shows "addTimer exec alloc add self
      (\<lambda>u. bindr (doPendingFunctors exec u) (tq_handleRead (\<lambda>_. Inr) now clock')) cb when interval s = Inl Use_After_Free \<and>
    (\<exists>s'. addTimer exec alloc add self Inr cb when interval s = Inr ((a, numCreated s + 1), s') \<and>
       pendingFunctors s' = [add a])"
proof -
  let ?t = "new_Timer cb when interval (numCreated s + 1)"
  let ?s1 = "s\<lparr>numCreated := numCreated s + 1, tq_heap := (tq_heap s)(a \<mapsto> ?t)\<rparr>"
  let ?s2 = "queueInLoop self (add a) ?s1"
  have s1: "create_Timer alloc cb when interval s = Inr (a, ?s1)" by (simp add: create_Timer_def alloc(2))
  have "queue_ok (\<lambda>_. True) {a} ?s1"
    using create_Timer_ok [OF ok alloc(1), of interval cb "when"] s1 due(1) by (auto simp: interval_ok_def)
  moreover have f: "tq_heap ?s2 = tq_heap ?s1" "numCreated ?s2 = numCreated ?s1" "timers ?s2 = timers ?s1"
      "activeTimers ?s2 = activeTimers ?s1" "armed ?s2 = armed ?s1" "pendingFunctors ?s2 = [add a]"
    using other(2) by (simp_all add: queueInLoop_def queue_wakeup_def queue_push_def wakeup_def)
  let ?s3 = "?s2\<lparr>callingPendingFunctors := True, pendingFunctors := []\<rparr>"
  have "queue_ok (\<lambda>_. True) {a} ?s3 = queue_ok (\<lambda>_. True) {a} ?s1" by (rule queue_ok_cong) (simp_all add: f)
  ultimately obtain s4 where s4: "addTimerInLoop clock a ?s3 = Inr s4" "queue_ok (\<lambda>_. True) {} s4"
    using addTimerInLoop_ok [OF _ _ downward_all, of "{a}" ?s3 a clock] by auto
  let ?s5 = "s4\<lparr>callingPendingFunctors := False\<rparr>"
  have functors: "doPendingFunctors exec ?s2 = Inr ?s5"
    using f(6) s4(1) by (simp add: doPendingFunctors_def exec)
  have ok5: "queue_ok (\<lambda>_. True) {} ?s5 = queue_ok (\<lambda>_. True) {} s4" by (rule queue_ok_cong) simp_all
  have heap: "tq_heap ?s5 a = Some ?t" using addTimerInLoop_heap [OF s4(1)] f(1) by simp
  obtain s6 where s6: "tq_handleRead (\<lambda>_. Inr) now clock' ?s5 = Inr s6" "tq_heap s6 a = None"
    using due_timer_destroyed [OF _ heap _ _ due(3), of clock'] ok5 s4(2) due(1,2) by (auto simp: new_Timer_def)
  have run: "runInLoop exec self (add a) ?s1 = Inr ?s2"
    using other(1) by (simp add: runInLoop_def isInLoopThread_def)
  have read: "addTimer exec alloc add self m cb when interval s =
      bindr (m ?s2) (\<lambda>s. bindr (timer_at a s) (\<lambda>t. Inr ((a, tm_sequence t), s)))" for m
    by (simp add: addTimer_def s1 run)
  have "timer_at a ?s2 = Inr ?t" using f(1) by (simp add: timer_at_def)
  moreover have "tm_sequence ?t = numCreated s + 1" by (simp add: new_Timer_def)
  ultimately show ?thesis
    using s6 f(6) unfolding read by (simp add: functors timer_at_def del: new_Timer_def)
qed

section \<open>A sample queue\<close>

definition sample_timer :: "nat timer" where
  "sample_timer = new_Timer 8 (Timestamp 100) (Dbl 0 0) 1"

definition sample_queue :: "nat tqueue" where
  "sample_queue = loop.extend sample_loop
     (tqueue.fields [5 \<mapsto> sample_timer] 1 [(Timestamp 100, 5)] {(5, 1)} False {} 4
       (Some (Timestamp 100, howMuchTimeFromNow (Timestamp 0) (Timestamp 100))))"

lemma sample_queue_fields:
  "tq_heap sample_queue = [5 \<mapsto> sample_timer]" "numCreated sample_queue = 1"
  "timers sample_queue = [(Timestamp 100, 5)]" "activeTimers sample_queue = {(5, 1)}"
  "armed sample_queue = Some (Timestamp 100, howMuchTimeFromNow (Timestamp 0) (Timestamp 100))"
  "\<not> callingExpiredTimers sample_queue" "cancelingTimers sample_queue = {}"
  by (simp_all add: sample_queue_def tqueue.defs loop.defs)

lemma sample_queue_loop: "threadId sample_queue = 1" "pendingFunctors sample_queue = []"
  by (simp_all add: sample_queue_def loop.defs sample_loop)

lemma sample_queue_ok: "queue_ok (\<lambda>_. True) {} sample_queue"
  by (auto simp: queue_ok_def tq_ok_def sample_queue_fields seq_of_def sample_timer_def new_Timer_def
    UINTPTR_MAX_def set_for_def interval_ok_def split: if_splits)

definition sample_alloc :: "nat tqueue \<Rightarrow> taddr option" where
  "sample_alloc s = (if tq_heap s 6 = None then Some 6 else None)"

lemma sample_env: "alloc_ok sample_alloc" "api_runner sample_alloc (\<lambda>_. Inr)"
  by (auto simp: alloc_ok_def sample_alloc_def UINTPTR_MAX_def api_runner_def intro: exI [of _ "[]"])

theorem timer_queue_safe_witness:
  "case foldr_res (tq_step (\<lambda>_. Inr) sample_alloc)
       [Call (Call_Add 9 (Timestamp 50) (Dbl 0 0) (Timestamp 10)), Alarm (Timestamp 60) (Timestamp 60)] sample_queue of
      Inl e \<Rightarrow> e = Bad_Alloc
    | Inr s' \<Rightarrow> dom (tq_heap s') = snd ` set (timers s')"
proof -
  have "\<forall>ev \<in> set [Call (Call_Add (9 :: nat) (Timestamp 50) (Dbl 0 0) (Timestamp 10)), Alarm (Timestamp 60) (Timestamp 60)].
      event_ok ev"
    by (simp add: interval_ok_def time_ok_def ts_valid_def)
  from timer_queue_safe [OF sample_queue_ok sample_env this] show ?thesis
    by (simp split: sum.splits)
qed

theorem alarm_runs_due_timers_witness:
  "\<exists>s1. tq_handleRead (\<lambda>_. Inr) (Timestamp 100) (Timestamp 101) sample_queue =
      reset (Timestamp 101) [(Timestamp 100, 5)] (Timestamp 100) (s1\<lparr>callingExpiredTimers := False\<rparr>) \<and> timers s1 = []"
  using alarm_runs_due_timers [OF sample_queue_ok sample_env, of "Timestamp 100" "Timestamp 101"]
  by (auto simp: sample_queue_fields)

theorem cancel_exact_witness:
  "\<exists>s'. cancelInLoop (5, 1) sample_queue = Inr s' \<and> tq_heap s' = Map.empty \<and> activeTimers s' = {}"
  using cancel_exact [OF sample_queue_ok, of 5 1]
  by (auto simp: sample_queue_fields sample_timer_def new_Timer_def)

lemma sample_outside:
  "queue_ok D {5} (sample_queue\<lparr>timers := [], activeTimers := {}\<rparr>)"
  by (auto simp: queue_ok_def tq_ok_def sample_queue_fields sample_timer_def new_Timer_def
    UINTPTR_MAX_def interval_ok_def split: if_splits)

theorem reset_reschedules_witness:
  "\<exists>s'. reset (Timestamp 101) [(Timestamp 100, 5)] (Timestamp 100)
      (sample_queue\<lparr>timers := [], activeTimers := {}\<rparr>) = Inr s' \<and> tq_heap s' 5 = None"
  using reset_reschedules [OF sample_outside, of "[(Timestamp 100, 5)]" "Timestamp 100" "Timestamp 101"]
  by (auto simp: time_ok_def ts_valid_def sample_queue_fields settled_def sample_timer_def new_Timer_def)

theorem addTimer_race_witness:
  "addTimer (\<lambda>_. addTimerInLoop (Timestamp 0) 6) sample_alloc (\<lambda>_. 9) 2
     (\<lambda>u. bindr (doPendingFunctors (\<lambda>_. addTimerInLoop (Timestamp 0) 6) u)
       (tq_handleRead (\<lambda>_. Inr) (Timestamp 200) (Timestamp 200))) 7 (Timestamp 50) (Dbl 0 0) sample_queue = Inl Use_After_Free"
  using addTimer_race [OF sample_queue_ok _ _ sample_env(1), of 2 6 "\<lambda>_. addTimerInLoop (Timestamp 0) 6" "\<lambda>_. 9"
      "Timestamp 0" "Dbl 0 0" "Timestamp 50" "Timestamp 200" "Timestamp 200" 7]
  by (simp add: sample_alloc_def sample_queue_fields isInLoopThread_def sample_queue_loop time_ok_def ts_valid_def)

end
