(* ===== verification/TcpConnection.thy ===== *)
theory TcpConnection
  imports Buffer TimerQueue
begin

text \<open>
  \<open>net/TcpConnection.h\<close> and \<open>net/TcpConnection.cc\<close>: one connection on its loop.  The state
  extends the loop with its timers by the members of the connection, the kernel's answers to come
  (\<open>write_answers\<close>, \<open>read_answers\<close>: any lists, an oracle), what the kernel has accepted
  (\<open>wire\<close>), and \<open>trace\<close>, the calls of user callbacks so far.  A functor is a value of the
  datatype \<open>task\<close>, one constructor for each \<open>bind\<close> or lambda of the code, and
  \<open>run_task\<close> is its call.  What the user's callbacks do is the parameter \<open>app\<close>.
  \<open>self\<close> is the calling thread.
\<close>

section \<open>The class\<close>

datatype conn_state = kDisconnected | kConnecting | kConnected | kDisconnecting

datatype 'u task =
    Conn_Handle_Read | Conn_Handle_Write | Conn_Handle_Close | Conn_Handle_Error
  | Send_In_Loop nat        \<comment> \<open>a captured \<open>StringPiece\<close>: the address of the bytes\<close>
  | Send_Buffer_In_Loop nat \<comment> \<open>a captured \<open>Buffer*\<close>\<close>
  | Shutdown_In_Loop | Force_Close_In_Loop | Force_Close_Weak
  | Start_Read_In_Loop | Stop_Read_In_Loop
  | Write_Complete 'u | High_Water_Mark 'u size_t
  | Add_Timer_In_Loop taddr
  | User 'u
  | Loop_Read               \<comment> \<open>the loop's own \<open>handleRead\<close>\<close>
  | Timer_Read              \<comment> \<open>the \<open>handleRead\<close> of the timer queue\<close>

text \<open>What the user sees: the callbacks and their arguments besides the connection.\<close>

datatype 'u app_call =
    On_Connection 'u | On_Message 'u timestamp | On_Close 'u | On_Write_Complete 'u
  | On_High_Water 'u size_t | On_User 'u

datatype write_answer = Wrote nat | Write_Error int

record ('f, 'u) tcp = "'f tqueue" +
  tc_name :: string
  tc_state :: conn_state
  tc_reading :: bool
  tc_channel :: cid
  tc_obj :: objid
  tc_connectionCallback :: "'u option"
  tc_messageCallback :: "'u option"
  tc_writeCompleteCallback :: "'u option"
  tc_highWaterMarkCallback :: "'u option"
  tc_closeCallback :: "'u option"
  highWaterMark :: size_t
  inputBuffer :: buffer
  outputBuffer :: buffer
  so_keepalive :: bool
  tcp_nodelay :: bool
  wr_shut :: bool
  wire :: "byte list"
  write_answers :: "write_answer list"
  read_answers :: "readv_result list"
  user_mem :: "nat \<Rightarrow> byte list option"
  user_bufs :: "nat \<Rightarrow> buffer"
  clock_now :: timestamp
  trace :: "'u app_call list"

type_synonym ('u, 'm) conn = "('u task, 'u, 'm) tcp_scheme"

type_synonym ('u, 'm) app = "'u app_call \<Rightarrow> ('u, 'm) conn \<Rightarrow> ('u, 'm) conn res"

definition EAGAIN :: int where "EAGAIN = 11"   \<comment> \<open>also \<open>EWOULDBLOCK\<close>\<close>
definition EPIPE :: int where "EPIPE = 32"
definition ECONNRESET :: int where "ECONNRESET = 104"

definition stateToString :: "conn_state \<Rightarrow> string" where
  "stateToString st =
     (case st of kDisconnected \<Rightarrow> ''kDisconnected'' | kConnecting \<Rightarrow> ''kConnecting''
      | kConnected \<Rightarrow> ''kConnected'' | kDisconnecting \<Rightarrow> ''kDisconnecting'')"

definition connected :: "('u, 'm) conn \<Rightarrow> bool" where
  "connected s \<longleftrightarrow> tc_state s = kConnected"

definition disconnected :: "('u, 'm) conn \<Rightarrow> bool" where
  "disconnected s \<longleftrightarrow> tc_state s = kDisconnected"

definition setState :: "conn_state \<Rightarrow> ('u, 'm) conn \<Rightarrow> ('u, 'm) conn" where
  "setState st s = s\<lparr>tc_state := st\<rparr>"

definition shutdownWrite :: "('u, 'm) conn \<Rightarrow> ('u, 'm) conn" where
  "shutdownWrite s = s\<lparr>wr_shut := True\<rparr>"

definition setTcpNoDelay :: "bool \<Rightarrow> ('u, 'm) conn \<Rightarrow> ('u, 'm) conn" where
  "setTcpNoDelay on s = s\<lparr>tcp_nodelay := on\<rparr>"

definition setHighWaterMarkCallback :: "'u option \<Rightarrow> size_t \<Rightarrow> ('u, 'm) conn \<Rightarrow> ('u, 'm) conn" where
  "setHighWaterMarkCallback cb mark s = s\<lparr>tc_highWaterMarkCallback := cb, highWaterMark := mark\<rparr>"

definition tc_setConnectionCallback :: "'u option \<Rightarrow> ('u, 'm) conn \<Rightarrow> ('u, 'm) conn" where
  "tc_setConnectionCallback cb s = s\<lparr>tc_connectionCallback := cb\<rparr>"

definition tc_setMessageCallback :: "'u option \<Rightarrow> ('u, 'm) conn \<Rightarrow> ('u, 'm) conn" where
  "tc_setMessageCallback cb s = s\<lparr>tc_messageCallback := cb\<rparr>"

definition tc_setWriteCompleteCallback :: "'u option \<Rightarrow> ('u, 'm) conn \<Rightarrow> ('u, 'm) conn" where
  "tc_setWriteCompleteCallback cb s = s\<lparr>tc_writeCompleteCallback := cb\<rparr>"

definition tc_setCloseCallback :: "'u option \<Rightarrow> ('u, 'm) conn \<Rightarrow> ('u, 'm) conn" where
  "tc_setCloseCallback cb s = s\<lparr>tc_closeCallback := cb\<rparr>"

text \<open>
  The constructor, on a state whose loop exists and whose address for the channel is fresh; the
  buffers come from \<open>Buffer\<close>'s default argument.
\<close>

definition wire_callbacks :: "'u task channel \<Rightarrow> 'u task channel" where
  "wire_callbacks ch =
     setErrorCallback (Some Conn_Handle_Error) (setCloseCallback (Some Conn_Handle_Close)
       (setWriteCallback (Some Conn_Handle_Write) (setReadCallback (Some Conn_Handle_Read) ch)))"

definition new_TcpConnection ::
  "string \<Rightarrow> objid \<Rightarrow> cid \<Rightarrow> int \<Rightarrow> ('u, 'm) conn \<Rightarrow> ('u, 'm) conn res" where
  "new_TcpConnection name obj c sockfd s =
     bindr (new_Buffer kInitialSize) (\<lambda>inb. bindr (new_Buffer kInitialSize) (\<lambda>outb.
       let s = create_Channel c sockfd (s\<lparr>tc_name := name, tc_state := kConnecting, tc_reading := True,
              tc_channel := c, tc_obj := obj, tc_connectionCallback := None, tc_messageCallback := None,
              tc_writeCompleteCallback := None, tc_highWaterMarkCallback := None, tc_closeCallback := None, highWaterMark := 64 * 1024 * 1024, inputBuffer := inb,
              outputBuffer := outb, wr_shut := False, wire := [], trace := []\<rparr>)
       in bindr (upd_chan c wire_callbacks s) (\<lambda>s. Inr (s\<lparr>so_keepalive := True\<rparr>))))"

definition delete_TcpConnection :: "nat \<Rightarrow> ('u, 'm) conn \<Rightarrow> ('u, 'm) conn res" where
  "delete_TcpConnection self s =
     ensure ''~TcpConnection'' (tc_state s = kDisconnected) (delete_Channel self (tc_channel s) s)"

section \<open>The kernel\<close>

text \<open>
  \<open>write(2)\<close> accepts no more than it is offered; with no answer left it would block.
\<close>

definition sys_write :: "byte list \<Rightarrow> ('u, 'm) conn \<Rightarrow> write_answer \<times> ('u, 'm) conn" where
  "sys_write data s =
     (case write_answers s of
        [] \<Rightarrow> (Write_Error EAGAIN, s)
      | Write_Error e # as \<Rightarrow> (Write_Error e, s\<lparr>write_answers := as\<rparr>)
      | Wrote k # as \<Rightarrow>
          let n = min k (length data)
          in (Wrote n, s\<lparr>write_answers := as, wire := wire s @ take n data\<rparr>))"

definition sys_readv :: "('u, 'm) conn \<Rightarrow> readv_result \<times> ('u, 'm) conn" where
  "sys_readv s =
     (case read_answers s of
        [] \<Rightarrow> (Readv_Error EAGAIN, s)
      | a # as \<Rightarrow>
          (case a of Readv_Error e \<Rightarrow> Readv_Error e
           | Readv_Data d \<Rightarrow> Readv_Data (take (iov_room (inputBuffer s)) d), s\<lparr>read_answers := as\<rparr>))"

section \<open>Sending\<close>

definition queue_opt :: "nat \<Rightarrow> 'u task option \<Rightarrow> ('u, 'm) conn \<Rightarrow> ('u, 'm) conn" where
  "queue_opt self f s = (case f of None \<Rightarrow> s | Some f \<Rightarrow> queueInLoop self f s)"

text \<open>The first part of \<open>sendInLoop\<close>: \<open>nwrote\<close>, \<open>remaining\<close> and \<open>faultError\<close>.\<close>

definition write_directly ::
  "nat \<Rightarrow> byte list \<Rightarrow> ('u, 'm) conn \<Rightarrow> nat \<times> size_t \<times> bool \<times> ('u, 'm) conn" where
  "write_directly self data s =
     (let len = of_nat (length data) :: size_t in
      case sys_write data s of
        (Wrote n, s) \<Rightarrow>
          let remaining = len - of_nat n
          in (n, remaining, False,
              if remaining = 0 then queue_opt self (map_option Write_Complete (tc_writeCompleteCallback s)) s else s)
      | (Write_Error errno, s) \<Rightarrow>
          (0, len, errno \<noteq> EAGAIN \<and> (errno = EPIPE \<or> errno = ECONNRESET), s))"

text \<open>The second part: what is left goes to the output buffer.\<close>

definition buffer_rest ::
  "nat \<Rightarrow> byte list \<Rightarrow> nat \<Rightarrow> size_t \<Rightarrow> ('u, 'm) conn \<Rightarrow> ('u, 'm) conn res" where
  "buffer_rest self data nwrote remaining s =
     (let oldLen = readableBytes (outputBuffer s);
          s = (if oldLen + remaining \<ge> highWaterMark s \<and> oldLen < highWaterMark s
               then queue_opt self
                 (map_option (\<lambda>cb. High_Water_Mark cb (oldLen + remaining)) (tc_highWaterMarkCallback s)) s
               else s)
      in bindr (append_ptr (ptr_add (Ptr data 0) (int nwrote)) remaining (outputBuffer s)) (\<lambda>b.
         let s = s\<lparr>outputBuffer := b\<rparr>
         in bindr (chan (tc_channel s) s) (\<lambda>ch.
              if \<not> isWriting ch then enableWriting (tc_channel s) s else Inr s)))"

definition sendInLoop :: "nat \<Rightarrow> byte list \<Rightarrow> ('u, 'm) conn \<Rightarrow> ('u, 'm) conn res" where
  "sendInLoop self data s =
     (if tc_state s = kDisconnected then Inr s
      else bindr (chan (tc_channel s) s) (\<lambda>ch.
        let len = of_nat (length data) :: size_t;
            (nwrote, remaining, faultError, s) =
              (if \<not> isWriting ch \<and> readableBytes (outputBuffer s) = 0 then write_directly self data s
               else (0, len, False, s))
        in ensure ''sendInLoop: remaining'' (remaining \<le> len)
             (if \<not> faultError \<and> remaining > 0 then buffer_rest self data nwrote remaining s else Inr s)))"

text \<open>The user's memory behind a captured pointer.\<close>

definition mem_at :: "nat \<Rightarrow> ('u, 'm) conn \<Rightarrow> byte list res" where
  "mem_at m s = (case user_mem s m of None \<Rightarrow> Inl Use_After_Free | Some d \<Rightarrow> Inr d)"

definition send_mem_in_loop :: "nat \<Rightarrow> nat \<Rightarrow> ('u, 'm) conn \<Rightarrow> ('u, 'm) conn res" where
  "send_mem_in_loop self m s = bindr (mem_at m s) (\<lambda>data. sendInLoop self data s)"

definition send_buffer_in_loop :: "nat \<Rightarrow> nat \<Rightarrow> ('u, 'm) conn \<Rightarrow> ('u, 'm) conn res" where
  "send_buffer_in_loop self b s =
     bindr (retrieveAllAsString (user_bufs s b)) (\<lambda>(data, buf).
       sendInLoop self data (s\<lparr>user_bufs := (user_bufs s)(b := buf)\<rparr>))"

section \<open>Requests in the loop\<close>

definition shutdownInLoop :: "('u, 'm) conn \<Rightarrow> ('u, 'm) conn res" where
  "shutdownInLoop s =
     bindr (chan (tc_channel s) s) (\<lambda>ch. Inr (if \<not> isWriting ch then shutdownWrite s else s))"

definition startReadInLoop :: "('u, 'm) conn \<Rightarrow> ('u, 'm) conn res" where
  "startReadInLoop s =
     bindr (chan (tc_channel s) s) (\<lambda>ch.
       if \<not> tc_reading s \<or> \<not> isReading ch
       then bindr (enableReading (tc_channel s) s) (\<lambda>s. Inr (s\<lparr>tc_reading := True\<rparr>)) else Inr s)"

definition stopReadInLoop :: "('u, 'm) conn \<Rightarrow> ('u, 'm) conn res" where
  "stopReadInLoop s =
     bindr (chan (tc_channel s) s) (\<lambda>ch.
       if tc_reading s \<or> isReading ch
       then bindr (disableReading (tc_channel s) s) (\<lambda>s. Inr (s\<lparr>tc_reading := False\<rparr>)) else Inr s)"

text \<open>The functors that \<open>runInLoop\<close> is called with, in the loop's thread.\<close>

fun run_request ::
  "nat \<Rightarrow> 'u task call \<Rightarrow> ('u, 'm) conn \<Rightarrow> ('u, 'm) conn res" where
  "run_request self (Run (Send_In_Loop m)) s = send_mem_in_loop self m s"
| "run_request self (Run (Send_Buffer_In_Loop b)) s = send_buffer_in_loop self b s"
| "run_request self (Run Shutdown_In_Loop) s = shutdownInLoop s"
| "run_request self (Run Start_Read_In_Loop) s = startReadInLoop s"
| "run_request self (Run Stop_Read_In_Loop) s = stopReadInLoop s"
| "run_request self (Run (Add_Timer_In_Loop a)) s = addTimerInLoop (clock_now s) a s"
| "run_request self _ s = Inr s"

section \<open>The interface\<close>

definition send_piece :: "nat \<Rightarrow> nat \<Rightarrow> ('u, 'm) conn \<Rightarrow> ('u, 'm) conn res" where
  "send_piece self m s =
     (if tc_state s = kConnected
      then if isInLoopThread self s then bindr (mem_at m s) (\<lambda>data. sendInLoop self data s)
           else runInLoop (run_request self) self (Send_In_Loop m) s
      else Inr s)"

definition send_buffer :: "nat \<Rightarrow> nat \<Rightarrow> ('u, 'm) conn \<Rightarrow> ('u, 'm) conn res" where
  "send_buffer self b s =
     (if tc_state s = kConnected
      then if isInLoopThread self s
           then let buf = user_bufs s b
                in bindr (sendInLoop self (region (peek buf) (peek buf + readableBytes buf) buf) s) (\<lambda>s.
                     Inr (s\<lparr>user_bufs := (user_bufs s)(b := retrieveAll (user_bufs s b))\<rparr>))
           else runInLoop (run_request self) self (Send_Buffer_In_Loop b) s
      else Inr s)"

definition shutdown :: "nat \<Rightarrow> ('u, 'm) conn \<Rightarrow> ('u, 'm) conn res" where
  "shutdown self s =
     (if tc_state s = kConnected
      then runInLoop (run_request self) self Shutdown_In_Loop (setState kDisconnecting s)
      else Inr s)"

definition forceClose :: "nat \<Rightarrow> ('u, 'm) conn \<Rightarrow> ('u, 'm) conn" where
  "forceClose self s =
     (if tc_state s = kConnected \<or> tc_state s = kDisconnecting
      then queueInLoop self Force_Close_In_Loop (setState kDisconnecting s)
      else s)"

definition forceCloseWithDelay ::
  "(('u, 'm) conn \<Rightarrow> taddr option) \<Rightarrow> nat \<Rightarrow> dbl \<Rightarrow> ('u, 'm) conn \<Rightarrow> ('u, 'm) conn res" where
  "forceCloseWithDelay alloc self seconds s =
     (if tc_state s = kConnected \<or> tc_state s = kDisconnecting
      then bindr (runAfter (run_request self) alloc Add_Timer_In_Loop self (clock_now s) seconds Force_Close_Weak
                    (setState kDisconnecting s)) (\<lambda>(_, s). Inr s)
      else Inr s)"

definition startRead :: "nat \<Rightarrow> ('u, 'm) conn \<Rightarrow> ('u, 'm) conn res" where
  "startRead self s = runInLoop (run_request self) self Start_Read_In_Loop s"

definition stopRead :: "nat \<Rightarrow> ('u, 'm) conn \<Rightarrow> ('u, 'm) conn res" where
  "stopRead self s = runInLoop (run_request self) self Stop_Read_In_Loop s"

section \<open>Handlers\<close>

definition call_back ::
  "('u, 'm) app \<Rightarrow> ('u \<Rightarrow> 'u app_call) \<Rightarrow> 'u option \<Rightarrow> ('u, 'm) conn \<Rightarrow> ('u, 'm) conn res" where
  "call_back app k cb s =
     (case cb of None \<Rightarrow> Inl Bad_Function_Call | Some u \<Rightarrow> app (k u) (s\<lparr>trace := trace s @ [k u]\<rparr>))"

definition connectEstablished :: "('u, 'm) app \<Rightarrow> ('u, 'm) conn \<Rightarrow> ('u, 'm) conn res" where
  "connectEstablished app s =
     ensure ''connectEstablished'' (tc_state s = kConnecting)
       (let s = setState kConnected s
        in bindr (upd_chan (tc_channel s) (ch_tie (tc_obj s)) s) (\<lambda>s.
           bindr (enableReading (tc_channel s) s) (\<lambda>s.
           call_back app On_Connection (tc_connectionCallback s) s)))"

definition connectDestroyed :: "('u, 'm) app \<Rightarrow> ('u, 'm) conn \<Rightarrow> ('u, 'm) conn res" where
  "connectDestroyed app s =
     bindr (if tc_state s = kConnected
            then let s = setState kDisconnected s
                 in bindr (disableAll (tc_channel s) s) (\<lambda>s.
                    call_back app On_Connection (tc_connectionCallback s) s)
            else Inr s)
       (\<lambda>s. ch_remove (tc_channel s) s)"

text \<open>The last \<open>shared_ptr\<close> of the guard may destroy the connection.\<close>

definition handleClose :: "('u, 'm) app \<Rightarrow> nat \<Rightarrow> ('u, 'm) conn \<Rightarrow> ('u, 'm) conn res" where
  "handleClose app self s =
     ensure ''handleClose'' (tc_state s = kConnected \<or> tc_state s = kDisconnecting)
       (let s = setState kDisconnected s
        in bindr (disableAll (tc_channel s) s) (\<lambda>s.
           let s = lock_ptr (tc_obj s) s
           in bindr (call_back app On_Connection (tc_connectionCallback s) s) (\<lambda>s.
              bindr (call_back app On_Close (tc_closeCallback s) s) (\<lambda>s.
              release_ptr (\<lambda>_. delete_TcpConnection self) (tc_obj s) s))))"

text \<open>\<open>handleError\<close> reads \<open>SO_ERROR\<close> and prints it.\<close>

definition handleError :: "('u, 'm) conn \<Rightarrow> ('u, 'm) conn res" where
  "handleError s = bindr (chan (tc_channel s) s) (\<lambda>_. Inr s)"

definition handleRead :: "('u, 'm) app \<Rightarrow> nat \<Rightarrow> timestamp \<Rightarrow> ('u, 'm) conn \<Rightarrow> ('u, 'm) conn res" where
  "handleRead app self receiveTime s =
     bindr (chan (tc_channel s) s) (\<lambda>_.
       let (answer, s) = sys_readv s
       in bindr (readFd answer (inputBuffer s)) (\<lambda>(n, savedErrno, b).
            let s = s\<lparr>inputBuffer := b\<rparr>
            in if n > 0 then call_back app (\<lambda>u. On_Message u receiveTime) (tc_messageCallback s) s
               else if n = 0 then handleClose app self s
               else handleError s))"

definition handleWrite :: "nat \<Rightarrow> ('u, 'm) conn \<Rightarrow> ('u, 'm) conn res" where
  "handleWrite self s =
     bindr (chan (tc_channel s) s) (\<lambda>ch.
       if isWriting ch
       then let b = outputBuffer s;
                (answer, s) = sys_write (region (peek b) (peek b + readableBytes b) b) s
            in (case answer of
                  Wrote n \<Rightarrow>
                    if n > 0
                    then bindr (retrieve (of_nat n) (outputBuffer s)) (\<lambda>b.
                         let s = s\<lparr>outputBuffer := b\<rparr>
                         in if readableBytes (outputBuffer s) = 0
                            then bindr (disableWriting (tc_channel s) s) (\<lambda>s.
                                 let s = queue_opt self (map_option Write_Complete (tc_writeCompleteCallback s)) s
                                 in if tc_state s = kDisconnecting then shutdownInLoop s else Inr s)
                            else Inr s)
                    else Inr s
                | Write_Error e \<Rightarrow> Inr s)
       else Inr s)"

definition forceCloseInLoop :: "('u, 'm) app \<Rightarrow> nat \<Rightarrow> ('u, 'm) conn \<Rightarrow> ('u, 'm) conn res" where
  "forceCloseInLoop app self s =
     (if tc_state s = kConnected \<or> tc_state s = kDisconnecting then handleClose app self s else Inr s)"

text \<open>Calling a functor; \<open>Destroy\<close> is the destructor of the connection.\<close>

fun run_task ::
  "('u, 'm) app \<Rightarrow> nat \<Rightarrow> 'u task call \<Rightarrow> ('u, 'm) conn \<Rightarrow> ('u, 'm) conn res" where
  "run_task app self (Run_Read Conn_Handle_Read t) s = handleRead app self t s"
| "run_task app self (Run Conn_Handle_Write) s = handleWrite self s"
| "run_task app self (Run Conn_Handle_Close) s = handleClose app self s"
| "run_task app self (Run Conn_Handle_Error) s = handleError s"
| "run_task app self (Run Force_Close_In_Loop) s = forceCloseInLoop app self s"
| "run_task app self (Run Force_Close_Weak) s =
     weak_callback (\<lambda>_. delete_TcpConnection self) (tc_obj s) (\<lambda>s. Inr (forceClose self s)) s"
| "run_task app self (Run (Write_Complete u)) s = call_back app On_Write_Complete (Some u) s"
| "run_task app self (Run (High_Water_Mark u n)) s = call_back app (\<lambda>u. On_High_Water u n) (Some u) s"
| "run_task app self (Run (User u)) s = call_back app On_User (Some u) s"
| "run_task app self (Destroy obj) s = delete_TcpConnection self s"
| "run_task app self k s = run_request self k s"

section \<open>Lemmas on the parts\<close>

lemma ensureWritableBytes_error:
  assumes inv: "buf_inv b" and n: "unat n \<le> max_size" and r: "ensureWritableBytes n b = Inl e"
  shows "e = Length_Error"
proof (cases "writableBytes b < n")
  case short: True
  have "makeSpace n b = Inl Length_Error"
  proof (cases "must_grow n b")
    case grow: True
    have "\<not> unat (writerIndex b) + unat n \<le> max_size"
      using makeSpace_grow [OF inv short n grow] r short
      by (auto simp: ensureWritableBytes_def word_le_nat_alt)
    then show ?thesis using makeSpace_fails [OF inv n grow] by simp
  next
    case False
    then show ?thesis
      using makeSpace_compact [OF inv short n] r short
      by (auto simp: ensureWritableBytes_def word_le_nat_alt)
  qed
  then show ?thesis using r short by (simp add: ensureWritableBytes_def)
qed (use r in \<open>auto simp: ensureWritableBytes_def ensure_def split: if_splits\<close>)

abbreviation limited :: "('s \<Rightarrow> bool) \<Rightarrow> 's res \<Rightarrow> bool" where
  "limited \<equiv> barring (\<lambda>e. e = Length_Error)"

lemma append_ptr_limited:
  assumes inv: "buf_inv b" and n: "unat n \<le> max_size" and bs: "bytes_at p (uint n) = Inr bs"
  shows "limited (\<lambda>b'. buf_inv b' \<and> contents b' = contents b @ bs) (append_ptr p n b)"
proof (cases "ensureWritableBytes n b")
  case (Inl e)
  then show ?thesis using ensureWritableBytes_error [OF inv n Inl] by (simp add: append_ptr_def)
next
  case (Inr b1)
  have "unat n = length bs" using bytes_at_length [OF bs] by simp
  then show ?thesis
    using Inr bs ensureWritableBytes_cases [OF inv n Inr] copy_hasWritten_spec [of b1 n bs]
    by (auto simp: append_ptr_def)
qed

lemma append_tail:
  assumes inv: "buf_inv b" and k: "k \<le> length data" and lim: "length data \<le> max_size"
  shows "limited (\<lambda>b'. buf_inv b' \<and> contents b' = contents b @ drop k data)
    (append_ptr (ptr_add (Ptr data 0) (int k)) (of_nat (length data) - of_nat k) b)"
proof -
  let ?n = "of_nat (length data) - of_nat k :: size_t"
  have le: "(of_nat k :: size_t) \<le> of_nat (length data)"
    using k lim by (simp add: word_le_nat_alt unat_of_nat64 max_size_def)
  have un: "unat ?n = length data - k"
    using k lim by (simp add: unat_diff_le [OF le] unat_of_nat64 max_size_def)
  then have "bytes_at (ptr_add (Ptr data 0) (int k)) (uint ?n) = Inr (drop k data)"
    using k by (auto simp: uint_nat)
  then show ?thesis
    using append_ptr_limited [OF inv] un lim by simp
qed

lemma readFd_limited:
  assumes inv: "buf_inv b" and lim: "length data \<le> max_size"
  shows "limited (\<lambda>(n, e, b'). n = int (length data) \<and> buf_inv b' \<and> contents b' = contents b @ data)
    (readFd (Readv_Data data) b)"
proof (cases "length data \<le> unat (writableBytes b)")
  case True
  then show ?thesis using readFd_split(1) [OF inv lim] by auto
next
  case False
  let ?w = "unat (writableBytes b)"
  obtain b1 where b1: "buf_inv b1" "contents b1 = contents b @ take ?w data"
      "readFd (Readv_Data data) b = bindr (append_bytes (drop ?w data) b1) (\<lambda>b2. Inr (int (length data), None, b2))"
    using False readFd_split(2) [OF inv lim] by auto
  have "limited (\<lambda>b'. buf_inv b' \<and> contents b' = contents b1 @ drop ?w data) (append_bytes (drop ?w data) b1)"
    using append_tail [OF b1(1), of 0 "drop ?w data"] lim by (simp add: append_bytes_def)
  then show ?thesis
    unfolding b1(3) by (rule barring_bindr) (auto simp: b1(2))
qed

lemma tcp_fields_change:
  assumes "poller_change s s'"
  shows "tc_state s' = tc_state s" "tc_reading s' = tc_reading s" "tc_channel s' = tc_channel s"
    "tc_obj s' = tc_obj s" "tc_connectionCallback s' = tc_connectionCallback s"
    "tc_messageCallback s' = tc_messageCallback s" "tc_writeCompleteCallback s' = tc_writeCompleteCallback s"
    "tc_highWaterMarkCallback s' = tc_highWaterMarkCallback s" "tc_closeCallback s' = tc_closeCallback s"
    "highWaterMark s' = highWaterMark s" "inputBuffer s' = inputBuffer s" "outputBuffer s' = outputBuffer s"
    "wr_shut s' = wr_shut s" "wire s' = wire s" "write_answers s' = write_answers s"
    "read_answers s' = read_answers s" "user_mem s' = user_mem s" "user_bufs s' = user_bufs s"
    "clock_now s' = clock_now s" "trace s' = trace s" "use_count s' = use_count s" "threadId s' = threadId s"
    "pendingFunctors s' = pendingFunctors s"
    "timer_state s' = timer_state s"
  by (subst assms [unfolded poller_change_def], simp)+

lemma timer_state_tcp [simp]:
  "timer_state (s\<lparr>tc_name := x1\<rparr>) = timer_state s" "timer_state (s\<lparr>tc_state := x2\<rparr>) = timer_state s"
  "timer_state (s\<lparr>tc_reading := x3\<rparr>) = timer_state s" "timer_state (s\<lparr>inputBuffer := x4\<rparr>) = timer_state s"
  "timer_state (s\<lparr>outputBuffer := x5\<rparr>) = timer_state s" "timer_state (s\<lparr>wr_shut := x6\<rparr>) = timer_state s"
  "timer_state (s\<lparr>wire := x7\<rparr>) = timer_state s" "timer_state (s\<lparr>write_answers := x8\<rparr>) = timer_state s"
  "timer_state (s\<lparr>read_answers := x9\<rparr>) = timer_state s" "timer_state (s\<lparr>user_bufs := x10\<rparr>) = timer_state s"
  "timer_state (s\<lparr>trace := x11\<rparr>) = timer_state s"
  by (simp_all add: timer_state_def)

lemma timer_state_ops [simp]:
  "timer_state (setState st s) = timer_state s" "timer_state (queue_opt self f s) = timer_state s"
  by (simp_all add: setState_def queue_opt_def split: option.split)

section \<open>The invariant of a connection\<close>

definition wired :: "'u task channel \<Rightarrow> bool" where
  "wired ch \<longleftrightarrow> readCallback ch = Some Conn_Handle_Read \<and> writeCallback ch = Some Conn_Handle_Write \<and>
     closeCallback ch = Some Conn_Handle_Close \<and> errorCallback ch = Some Conn_Handle_Error"

text \<open>
  State, output and channel agree: while the connection is up the channel is registered, reads,
  and writes exactly when there is output; before and after it watches nothing.
\<close>

definition link_ok ::
  "conn_state \<Rightarrow> byte list \<Rightarrow> objid \<Rightarrow> cid \<Rightarrow> (int \<Rightarrow> cid option) \<Rightarrow> 'u task channel \<Rightarrow> bool" where
  "link_ok st out obj c pl ch \<longleftrightarrow> wired ch \<and>
     (case st of
        kConnecting \<Rightarrow> pl (ch_fd ch) = None \<and> isNoneEvent ch \<and> out = []
      | kDisconnected \<Rightarrow> isNoneEvent ch \<and> ch_index ch \<noteq> kAdded
      | _ \<Rightarrow> pl (ch_fd ch) = Some c \<and> isReading ch \<and> (isWriting ch \<longleftrightarrow> out \<noteq> []) \<and>
           tied ch \<and> tie_ptr ch = Some obj)"

text \<open>The protocol of the callbacks: up, then messages, then down, then close.\<close>

datatype phase = Before_Up | Up | Down | Gone

fun next_phase :: "'u app_call \<Rightarrow> phase \<Rightarrow> phase option" where
  "next_phase (On_Connection u) Before_Up = Some Up"
| "next_phase (On_Connection u) Up = Some Down"
| "next_phase (On_Message u t) Up = Some Up"
| "next_phase (On_Close u) Down = Some Gone"
| "next_phase (On_Write_Complete u) p = (if p = Before_Up then None else Some p)"
| "next_phase (On_High_Water u n) p = (if p = Before_Up then None else Some p)"
| "next_phase (On_User u) p = (if p = Before_Up then None else Some p)"
| "next_phase _ _ = None"

fun phase_after :: "'u app_call list \<Rightarrow> phase \<Rightarrow> phase option" where
  "phase_after [] p = Some p"
| "phase_after (k # ks) p = (case next_phase k p of None \<Rightarrow> None | Some q \<Rightarrow> phase_after ks q)"

lemma phase_after_snoc:
  "phase_after (ks @ [k]) p = (case phase_after ks p of None \<Rightarrow> None | Some q \<Rightarrow> next_phase k q)"
  by (induction ks arbitrary: p) (auto split: option.splits)

definition phase_ok :: "conn_state \<Rightarrow> 'u app_call list \<Rightarrow> bool" where
  "phase_ok st ks \<longleftrightarrow>
     (case st of
        kConnecting \<Rightarrow> phase_after ks Before_Up = Some Before_Up
      | kDisconnected \<Rightarrow> phase_after ks Before_Up = Some Down \<or> phase_after ks Before_Up = Some Gone
      | _ \<Rightarrow> phase_after ks Before_Up = Some Up)"

text \<open>The functors the connection queues, but those that start or stop reading.\<close>

fun task_ok :: "'u task \<Rightarrow> bool" where
  "task_ok (Send_In_Loop m) = True"
| "task_ok (Send_Buffer_In_Loop b) = True"
| "task_ok Shutdown_In_Loop = True"
| "task_ok Force_Close_In_Loop = True"
| "task_ok Force_Close_Weak = True"
| "task_ok (Write_Complete u) = True"
| "task_ok (High_Water_Mark u n) = True"
| "task_ok (User u) = True"
| "task_ok _ = False"

text \<open>The user's memory and buffers stay, as the promise behind the captured pointers.\<close>

definition memory_ok :: "('u, 'm) conn \<Rightarrow> bool" where
  "memory_ok s \<longleftrightarrow> (\<forall>m. \<exists>d. user_mem s m = Some d \<and> length d \<le> max_size) \<and> (\<forall>b. buf_inv (user_bufs s b))"

definition callbacks_set :: "('u, 'm) conn \<Rightarrow> bool" where
  "callbacks_set s \<longleftrightarrow> tc_connectionCallback s \<noteq> None \<and> tc_messageCallback s \<noteq> None \<and> tc_closeCallback s \<noteq> None"

definition conn_ok :: "nat \<Rightarrow> ('u, 'm) conn \<Rightarrow> bool" where
  "conn_ok self s \<longleftrightarrow>
     loop_ok s \<and> buf_inv (inputBuffer s) \<and> buf_inv (outputBuffer s) \<and> 0 < use_count s (tc_obj s) \<and>
     callbacks_set s \<and> memory_ok s \<and> (\<forall>f \<in> set (pendingFunctors s). task_ok f) \<and>
     threadId s = self \<and> phase_ok (tc_state s) (trace s) \<and>
     (\<exists>ch. chans s (tc_channel s) = Some ch \<and>
        link_ok (tc_state s) (contents (outputBuffer s)) (tc_obj s) (tc_channel s) (pl_channels s) ch)"

lemma loop_ok_tcp_frame [simp]:
  "loop_ok (s\<lparr>tc_state := x1\<rparr>) = loop_ok s" "loop_ok (s\<lparr>outputBuffer := x2\<rparr>) = loop_ok s"
  "loop_ok (s\<lparr>inputBuffer := x2\<rparr>) = loop_ok s" "loop_ok (s\<lparr>wire := x3\<rparr>) = loop_ok s"
  "loop_ok (s\<lparr>write_answers := x4\<rparr>) = loop_ok s" "loop_ok (s\<lparr>read_answers := x5\<rparr>) = loop_ok s"
  "loop_ok (s\<lparr>user_bufs := x6\<rparr>) = loop_ok s" "loop_ok (s\<lparr>trace := x7\<rparr>) = loop_ok s"
  "loop_ok (s\<lparr>wr_shut := x8\<rparr>) = loop_ok s"
  by (rule loop_ok_cong; simp)+

lemma conn_okD:
  assumes "conn_ok self s"
  shows "loop_ok s" "buf_inv (inputBuffer s)" "buf_inv (outputBuffer s)" "0 < use_count s (tc_obj s)"
    "callbacks_set s" "memory_ok s" "\<forall>f \<in> set (pendingFunctors s). task_ok f" "threadId s = self"
    "phase_ok (tc_state s) (trace s)"
    "\<exists>ch. chans s (tc_channel s) = Some ch \<and>
        link_ok (tc_state s) (contents (outputBuffer s)) (tc_obj s) (tc_channel s) (pl_channels s) ch"
  using assms by (simp_all add: conn_ok_def)

definition live :: "('u, 'm) conn \<Rightarrow> bool" where
  "live s \<longleftrightarrow> tc_state s = kConnected \<or> tc_state s = kDisconnecting"

text \<open>The bytes the connection has taken over: on the wire, or waiting in the output buffer.\<close>

definition taken :: "('u, 'm) conn \<Rightarrow> byte list" where
  "taken s = wire s @ contents (outputBuffer s)"

text \<open>
  What no operation of the interface changes, and what changes only while the connection is up.
\<close>

definition api_frame :: "('u, 'm) conn \<Rightarrow> ('u, 'm) conn \<Rightarrow> bool" where
  "api_frame s s' \<longleftrightarrow>
     trace s' = trace s \<and> timer_state s' = timer_state s \<and> tc_channel s' = tc_channel s \<and> tc_obj s' = tc_obj s \<and> use_count s' = use_count s \<and>
     (tc_state s' = tc_state s \<or> tc_state s = kConnected \<and> tc_state s' = kDisconnecting) \<and>
     map_option ch_revents (chans s' (tc_channel s)) = map_option ch_revents (chans s (tc_channel s)) \<and>
     (tc_state s = kDisconnected \<longrightarrow> chans s' = chans s \<and> pl_channels s' = pl_channels s)"

lemma api_frame_refl [simp]: "api_frame s s"
  by (simp add: api_frame_def)

lemma api_frame_trans: "api_frame s t \<Longrightarrow> api_frame t u \<Longrightarrow> api_frame s u"
  by (auto simp: api_frame_def)

lemma queue_opt_fields [simp]:
  "trace (queue_opt self f s) = trace s" "tc_channel (queue_opt self f s) = tc_channel s"
  "tc_obj (queue_opt self f s) = tc_obj s" "use_count (queue_opt self f s) = use_count s"
  "tc_state (queue_opt self f s) = tc_state s" "chans (queue_opt self f s) = chans s"
  "pl_channels (queue_opt self f s) = pl_channels s" "outputBuffer (queue_opt self f s) = outputBuffer s"
  "wire (queue_opt self f s) = wire s" "wr_shut (queue_opt self f s) = wr_shut s"
  "write_answers (queue_opt self f s) = write_answers s" "highWaterMark (queue_opt self f s) = highWaterMark s"
  by (auto simp: queue_opt_def queueInLoop_def queue_wakeup_def queue_push_def wakeup_def split: option.splits)

lemma queueInLoop_ok:
  assumes "conn_ok self s" "task_ok f"
  shows "conn_ok self (queueInLoop self' f s)"
  using assms
  by (auto simp: conn_ok_def queueInLoop_def queue_wakeup_def queue_push_def wakeup_def callbacks_set_def memory_ok_def)

lemma queue_opt_ok:
  assumes "conn_ok self s" "\<And>g. f = Some g \<Longrightarrow> task_ok g"
  shows "conn_ok self (queue_opt self' f s)"
  using assms queueInLoop_ok by (cases f) (auto simp: queue_opt_def)

lemma sys_write_cases:
  obtains (wrote) n as where "sys_write data s = (Wrote n, s\<lparr>write_answers := as, wire := wire s @ take n data\<rparr>)"
      "n \<le> length data"
    | (failed) e as where "sys_write data s = (Write_Error e, s\<lparr>write_answers := as\<rparr>)"
      "write_answers s = [] \<and> e = EAGAIN \<or> (\<exists>as. write_answers s = Write_Error e # as)"
proof (cases "write_answers s")
  case Nil
  have "s = s\<lparr>write_answers := []\<rparr>" using Nil by (metis tcp.surjective tcp.update_convs(18))
  then show ?thesis using failed [of EAGAIN "[]"] Nil by (simp add: sys_write_def)
next
  case (Cons a as)
  then show ?thesis
    by (cases a) (auto simp: sys_write_def Let_def intro: wrote failed)
qed

text \<open>A change of interest of the connection's channel, its output buffer being \<open>b\<close>.\<close>

lemma conn_interest:
  assumes ok: "conn_ok self s" and b: "buf_inv b" and live: "live s"
    and ch: "chans s (tc_channel s) = Some ch"
    and reading: "has (f (ch_events ch)) kReadEvent"
    and writing: "has (f (ch_events ch)) kWriteEvent \<longleftrightarrow> contents b \<noteq> []"
  shows "\<exists>s'. set_interest f (tc_channel s) (s\<lparr>outputBuffer := b\<rparr>) = Inr s' \<and> conn_ok self s' \<and>
    poller_change (s\<lparr>outputBuffer := b\<rparr>) s' \<and> api_frame s s'"
proof -
  let ?s = "s\<lparr>outputBuffer := b\<rparr>" and ?c = "tc_channel s"
  have link: "link_ok (tc_state s) (contents (outputBuffer s)) (tc_obj s) ?c (pl_channels s) ch"
    using conn_okD(10) [OF ok] ch by simp
  then have reg: "pl_channels s (ch_fd ch) = Some ?c"
    using live by (auto simp: link_ok_def live_def split: conn_state.splits)
  have lok: "loop_ok ?s" using conn_okD(1) [OF ok] by simp
  obtain s' ch' where s': "set_interest f ?c ?s = Inr s'" "loop_ok s'" "poller_change ?s s'"
      and ch': "chans s' = (chans s)(?c \<mapsto> ch')" "ch_events ch' = f (ch_events ch)" "ch_fd ch' = ch_fd ch"
        "ch_revents ch' = ch_revents ch"
        "tied ch' = tied ch" "tie_ptr ch' = tie_ptr ch" "wired ch' = wired ch"
      and pl': "pl_channels s' = (pl_channels s)(ch_fd ch \<mapsto> ?c)"
    using interest_change [OF lok, of ?c ch f] ch reg by (auto simp: wired_def)
  note same = tcp_fields_change [OF s'(3)] loop_fields_change [OF s'(3)]
  have "pl_channels s' = pl_channels s" using pl' reg by (simp add: fun_upd_idem)
  then have "link_ok (tc_state s) (contents b) (tc_obj s) ?c (pl_channels s') ch'"
    using link ch' reading writing live
    by (auto simp: link_ok_def live_def isReading_def isWriting_def split: conn_state.splits)
  then have "conn_ok self s'"
    using ok b s'(2) ch'(1) by (simp add: conn_ok_def same callbacks_set_def memory_ok_def)
  moreover have "api_frame s s'"
    using live ch ch'(1,4) by (auto simp: api_frame_def same live_def)
  ultimately show ?thesis using s' by blast
qed

text \<open>Replacing fields the invariant only reads, or does not read.\<close>

lemma conn_ok_kernel [simp]:
  "conn_ok self (s\<lparr>write_answers := as\<rparr>) = conn_ok self s" "conn_ok self (s\<lparr>wire := w\<rparr>) = conn_ok self s"
  "conn_ok self (s\<lparr>read_answers := rs\<rparr>) = conn_ok self s" "conn_ok self (s\<lparr>wr_shut := b\<rparr>) = conn_ok self s"
  by (simp_all add: conn_ok_def callbacks_set_def memory_ok_def)

lemma api_frame_kernel [simp]:
  "api_frame t (s\<lparr>write_answers := as\<rparr>) = api_frame t s" "api_frame t (s\<lparr>wire := w\<rparr>) = api_frame t s"
  "api_frame t (s\<lparr>wr_shut := b\<rparr>) = api_frame t s" 
  by (simp_all add: api_frame_def)

lemma api_frame_queue_opt [simp]: "api_frame t (queue_opt self f s) = api_frame t s"
  by (simp add: api_frame_def)

lemma memory_ok_data: "memory_ok s \<Longrightarrow> mem_at m s = Inr d \<Longrightarrow> length d \<le> max_size"
  unfolding memory_ok_def mem_at_def by (metis old.sum.inject(2) option.simps(5))

lemma size_t_less: "length xs \<le> max_size \<Longrightarrow> k \<le> length xs \<Longrightarrow>
    unat (of_nat (length xs) - of_nat k :: size_t) = length xs - k"
proof -
  assume a: "length xs \<le> max_size" "k \<le> length xs"
  then have "(of_nat k :: size_t) \<le> of_nat (length xs)"
    by (simp add: word_le_nat_alt unat_of_nat64 max_size_def)
  then show ?thesis using a by (simp add: unat_diff_le unat_of_nat64 max_size_def)
qed

text \<open>The second part of \<open>sendInLoop\<close>.\<close>

lemma buffer_rest_ok:
  assumes ok: "conn_ok self s" and live: "live s" and lim: "length data \<le> max_size" and k: "k < length data"
  shows "limited (\<lambda>s'. conn_ok self s' \<and> api_frame s s' \<and> wire s' = wire s \<and>
      contents (outputBuffer s') = contents (outputBuffer s) @ drop k data)
    (buffer_rest self' data k (of_nat (length data) - of_nat k) s)"
proof -
  let ?c = "tc_channel s" and ?r = "of_nat (length data) - of_nat k :: size_t"
  let ?cond = "highWaterMark s \<le> readableBytes (outputBuffer s) + ?r \<and> readableBytes (outputBuffer s) < highWaterMark s"
  define s1 where "s1 = (if ?cond then queue_opt self'
      (map_option (\<lambda>cb. High_Water_Mark cb (readableBytes (outputBuffer s) + ?r)) (tc_highWaterMarkCallback s)) s else s)"
  have ok1: "conn_ok self s1" using ok by (auto simp: s1_def intro!: queue_opt_ok)
  have same1: "outputBuffer s1 = outputBuffer s" "tc_channel s1 = ?c" "wire s1 = wire s" "live s1 = live s"
      "api_frame s s1" "tc_state s1 = tc_state s"
    by (simp_all add: s1_def live_def)
  show ?thesis
    unfolding buffer_rest_def Let_def s1_def [symmetric] same1(1)
  proof (rule barring_bindr [OF append_tail [OF conn_okD(3) [OF ok] less_imp_le [OF k] lim]])
    fix b assume b: "buf_inv b \<and> contents b = contents (outputBuffer s) @ drop k data"
    then have ne: "contents b \<noteq> []" using k by simp
    obtain ch where ch: "chans s1 ?c = Some ch"
      "link_ok (tc_state s1) (contents (outputBuffer s1)) (tc_obj s1) ?c (pl_channels s1) ch"
      using conn_okD(10) [OF ok1] same1(2) by auto
    then have reading: "isReading ch"
      using live unfolding same1(6) by (auto simp: link_ok_def live_def split: conn_state.splits)
    let ?s = "s1\<lparr>outputBuffer := b\<rparr>"
    show "limited (\<lambda>s'. conn_ok self s' \<and> api_frame s s' \<and> wire s' = wire s \<and>
          contents (outputBuffer s') = contents (outputBuffer s) @ drop k data)
        (bindr (chan (tc_channel ?s) ?s) (\<lambda>ch. if \<not> isWriting ch then enableWriting (tc_channel ?s) ?s else Inr ?s))"
    proof (cases "isWriting ch")
      case True
      then have "conn_ok self ?s"
        using ok1 b ne ch same1(2,6) live
        by (auto simp: conn_ok_def link_ok_def live_def callbacks_set_def memory_ok_def split: conn_state.splits)
      moreover have "api_frame s ?s" using same1(5) by (simp add: api_frame_def)
      ultimately show ?thesis
        using True ch(1) b same1 by (simp add: chan_Some)
    next
      case False
      obtain s' where s': "set_interest (\<lambda>m. m OR kWriteEvent) ?c ?s = Inr s'" "conn_ok self s'"
          "poller_change ?s s'" "api_frame s1 s'"
        using conn_interest [OF ok1, of b ch "\<lambda>m. m OR kWriteEvent"] b ne ch(1) same1 live reading
        by (auto simp: isReading_def mask_simps)
      then show ?thesis
        using False ch(1) b same1 api_frame_trans [OF same1(5)] tcp_fields_change [OF s'(3)]
        by (simp add: chan_Some interest_ops)
    qed
  qed
qed

text \<open>A write that meets a broken connection, and what \<open>sendInLoop\<close> does then: nothing.\<close>

definition peer_gone :: "('u, 'm) conn \<Rightarrow> bool" where
  "peer_gone s \<longleftrightarrow> (\<exists>e as. write_answers s = Write_Error e # as \<and> (e = EPIPE \<or> e = ECONNRESET))"

lemma sendInLoop_ok:
  assumes ok: "conn_ok self s" and st: "tc_state s \<noteq> kConnecting" and lim: "length data \<le> max_size"
  shows "limited (\<lambda>s'. conn_ok self s' \<and> api_frame s s' \<and>
      (if tc_state s = kDisconnected then s' = s
       else taken s' = taken s @ data \<or> peer_gone s \<and> contents (outputBuffer s) = [] \<and> taken s' = taken s))
    (sendInLoop self' data s)"
proof (cases "tc_state s = kDisconnected")
  case True
  then show ?thesis using ok by (simp add: sendInLoop_def)
next
  case False
  then have live: "live s" using st by (cases "tc_state s") (simp_all add: live_def)
  let ?c = "tc_channel s" and ?len = "of_nat (length data) :: size_t"
  obtain ch where ch: "chans s ?c = Some ch"
      "link_ok (tc_state s) (contents (outputBuffer s)) (tc_obj s) ?c (pl_channels s) ch"
    using conn_okD(10) [OF ok] by auto
  then have w: "isWriting ch \<longleftrightarrow> contents (outputBuffer s) \<noteq> []"
    using live by (auto simp: link_ok_def live_def split: conn_state.splits)
  have direct: "\<not> isWriting ch \<and> readableBytes (outputBuffer s) = 0 \<longleftrightarrow> contents (outputBuffer s) = []"
    using w readable_eq_0_iff [OF conn_okD(3) [OF ok]] by auto
  show ?thesis
  proof (cases "contents (outputBuffer s) = []")
    case empty: False
    then have "length data = 0 \<or> 0 < length data" by auto
    then have "limited (\<lambda>s'. conn_ok self s' \<and> api_frame s s' \<and> taken s' = taken s @ data)
        (if 0 < ?len then buffer_rest self' data 0 ?len s else Inr s)"
    proof
      assume "length data = 0"
      then show ?thesis using ok by simp
    next
      assume k: "0 < length data"
      then have "0 < ?len" using size_t_less [OF lim, of 0] by (simp add: word_less_nat_alt)
      moreover have "limited (\<lambda>s'. conn_ok self s' \<and> api_frame s s' \<and> taken s' = taken s @ data)
          (buffer_rest self' data 0 ?len s)"
        using buffer_rest_ok [OF ok live lim k, of self', simplified]
        by (rule barring_mono) (simp add: taken_def)
      ultimately show ?thesis by simp
    qed
    then show ?thesis
      using False empty ch(1) direct
      by (auto simp: sendInLoop_def chan_Some Let_def elim!: barring_mono split: if_splits)
  next
    case True
    show ?thesis
    proof (cases rule: sys_write_cases [of data s])
      case (failed e as)
      let ?s = "s\<lparr>write_answers := as\<rparr>"
      let ?fault = "e \<noteq> EAGAIN \<and> (e = EPIPE \<or> e = ECONNRESET)"
      have run: "sendInLoop self' data s =
          (if \<not> ?fault \<and> 0 < ?len then buffer_rest self' data 0 ?len ?s else Inr ?s)"
        using False True ch(1) direct failed(1) by (simp add: sendInLoop_def chan_Some write_directly_def)
      show ?thesis
      proof (cases ?fault)
        case True
        have "peer_gone s" using True failed(2) by (auto simp: peer_gone_def EAGAIN_def EPIPE_def ECONNRESET_def)
        then show ?thesis
          using True ok False \<open>contents (outputBuffer s) = []\<close> unfolding run by (simp add: taken_def)
      next
        case nofault: False
        show ?thesis
        proof (cases "data = []")
          case True
          then show ?thesis using nofault ok False unfolding run by (simp add: taken_def)
        next
          case ne: False
          then have "0 < ?len" using size_t_less [OF lim, of 0] by (simp add: word_less_nat_alt)
          then show ?thesis
            using buffer_rest_ok [of self ?s data 0 self'] ok live lim ne nofault False unfolding run
            by (auto elim!: barring_mono simp: taken_def live_def api_frame_def)
        qed
      qed
    next
      case (wrote n as)
      let ?r = "?len - of_nat n"
      let ?s1 = "s\<lparr>write_answers := as, wire := wire s @ take n data\<rparr>"
      define s2 where "s2 = (if ?r = 0 then queue_opt self' (map_option Write_Complete (tc_writeCompleteCallback ?s1)) ?s1 else ?s1)"
      have ur: "unat ?r = length data - n" by (rule size_t_less [OF lim wrote(2)])
      have le: "?r \<le> ?len"
        using ur size_t_less [OF lim, of 0] by (simp add: word_le_nat_alt)
      have run: "sendInLoop self' data s = (if 0 < ?r then buffer_rest self' data n ?r s2 else Inr s2)"
        using False True ch(1) direct wrote(1) le
        by (simp add: sendInLoop_def chan_Some write_directly_def s2_def Let_def)
      have ok2: "conn_ok self s2"
        using ok by (auto simp: s2_def intro!: queue_opt_ok)
      have same2: "api_frame s s2" "wire s2 = wire s @ take n data" "outputBuffer s2 = outputBuffer s" "live s2"
        using live by (simp_all add: s2_def live_def)
      show ?thesis
      proof (cases "n = length data")
        case True
        then have "?r = 0" by simp
        then show ?thesis using ok2 same2 True False unfolding run by (simp add: taken_def \<open>contents (outputBuffer s) = []\<close>)
      next
        case lt: False
        then have "n < length data" using wrote(2) by simp
        moreover have "0 < ?r" using ur lt wrote(2) by (simp add: word_less_nat_alt)
        ultimately show ?thesis
          using buffer_rest_ok [OF ok2 same2(4) lim, of n self'] same2 False \<open>contents (outputBuffer s) = []\<close>
          unfolding run
          by (auto elim!: barring_mono simp: taken_def intro: api_frame_trans)
      qed
    qed
  qed
qed

section \<open>The interface keeps the invariant\<close>

text \<open>What a call of the interface does: nothing the connection has taken over is lost.\<close>

definition kept :: "nat \<Rightarrow> ('u, 'm) conn \<Rightarrow> ('u, 'm) conn \<Rightarrow> bool" where
  "kept self s s' \<longleftrightarrow> conn_ok self s' \<and> api_frame s s' \<and> prefix (taken s) (taken s')"

lemma kept_refl: "conn_ok self s \<Longrightarrow> kept self s s"
  by (simp add: kept_def)

lemma kept_trans: "kept self s t \<Longrightarrow> kept self t u \<Longrightarrow> kept self s u"
  unfolding kept_def by (blast intro: api_frame_trans prefix_order.trans)

lemma kept_mono: "api_frame s t \<Longrightarrow> taken t = taken s \<Longrightarrow> kept self t u \<Longrightarrow> kept self s u"
  unfolding kept_def by (auto intro: api_frame_trans)

lemma taken_frame [simp]:
  "taken (s\<lparr>tc_state := x1\<rparr>) = taken s" "taken (s\<lparr>user_bufs := x2\<rparr>) = taken s"
  "taken (s\<lparr>inputBuffer := x3\<rparr>) = taken s" "taken (s\<lparr>wr_shut := x4\<rparr>) = taken s"
  "taken (s\<lparr>trace := x5\<rparr>) = taken s" "taken (s\<lparr>use_count := x6\<rparr>) = taken s"
  "taken (s\<lparr>pendingFunctors := x7\<rparr>) = taken s" "taken (s\<lparr>callingPendingFunctors := x8\<rparr>) = taken s"
  "taken (s\<lparr>chans := x9\<rparr>) = taken s" "taken (s\<lparr>write_answers := x10\<rparr>) = taken s"
  "taken (s\<lparr>read_answers := x11\<rparr>) = taken s" "taken (queue_opt self f s) = taken s"
  by (simp_all add: taken_def)

lemma taken_queue [simp]: "taken (queueInLoop self f s) = taken s"
  by (simp add: taken_def queueInLoop_def queue_wakeup_def queue_push_def wakeup_def)

lemma api_frame_bufs [simp]:
  "api_frame t (s\<lparr>user_bufs := x1\<rparr>) = api_frame t s" "api_frame (s\<lparr>user_bufs := x1\<rparr>) t = api_frame s t"
  "api_frame t (s\<lparr>inputBuffer := x2\<rparr>) = api_frame t s"
  by (simp_all add: api_frame_def)

lemma api_frame_queue [simp]: "api_frame t (queueInLoop self f s) = api_frame t s"
  by (simp add: api_frame_def queueInLoop_def queue_wakeup_def queue_push_def wakeup_def)

lemma tcp_fields_queue [simp]:
  "tc_state (queueInLoop self f s) = tc_state s" "threadId (queueInLoop self f s) = threadId s"
  by (simp_all add: queueInLoop_def queue_wakeup_def queue_push_def wakeup_def)

lemma conn_ok_bufs:
  "conn_ok self s \<Longrightarrow> buf_inv buf \<Longrightarrow> conn_ok self (s\<lparr>user_bufs := (user_bufs s)(b := buf)\<rparr>)"
  by (simp add: conn_ok_def callbacks_set_def memory_ok_def)

lemma conn_ok_input:
  "conn_ok self s \<Longrightarrow> buf_inv buf \<Longrightarrow> conn_ok self (s\<lparr>inputBuffer := buf\<rparr>)"
  by (simp add: conn_ok_def callbacks_set_def memory_ok_def)

lemma conn_channel:
  assumes "conn_ok self s"
  obtains ch where "chans s (tc_channel s) = Some ch"
    "link_ok (tc_state s) (contents (outputBuffer s)) (tc_obj s) (tc_channel s) (pl_channels s) ch"
  using conn_okD(10) [OF assms] by blast

lemma live_link:
  assumes "live s" "link_ok (tc_state s) out obj c pl ch"
  shows "pl (ch_fd ch) = Some c" "isReading ch" "isWriting ch \<longleftrightarrow> out \<noteq> []" "tied ch" "tie_ptr ch = Some obj"
    "wired ch"
  using assms by (auto simp: live_def link_ok_def split: conn_state.splits)

lemma sendInLoop_kept:
  assumes "conn_ok self s" "tc_state s \<noteq> kConnecting" "length data \<le> max_size"
  shows "limited (kept self s) (sendInLoop self' data s)"
  by (rule barring_mono [OF sendInLoop_ok [OF assms]]) (use assms(1) in \<open>auto simp: kept_def split: if_splits\<close>)

lemma send_mem_kept:
  assumes ok: "conn_ok self s" and "tc_state s \<noteq> kConnecting"
  shows "limited (kept self s) (send_mem_in_loop self' m s)"
proof -
  obtain d where "mem_at m s = Inr d" "length d \<le> max_size"
    using conn_okD(6) [OF ok] by (auto simp: memory_ok_def mem_at_def dest!: spec [of _ m])
  then show ?thesis using sendInLoop_kept [OF assms] by (simp add: send_mem_in_loop_def)
qed

lemma user_buf:
  assumes "conn_ok self s"
  shows "buf_inv (user_bufs s b)" "length (contents (user_bufs s b)) \<le> max_size"
  using conn_okD(6) [OF assms] contents_bound by (auto simp: memory_ok_def)

lemma send_buffer_in_loop_kept:
  assumes ok: "conn_ok self s" and st: "tc_state s \<noteq> kConnecting"
  shows "limited (kept self s) (send_buffer_in_loop self' b s)"
proof -
  obtain b' where b': "retrieveAllAsString (user_bufs s b) = Inr (contents (user_bufs s b), b')" "buf_inv b'"
    using retrieveAllAsString_spec [OF user_buf(1) [OF ok]] by blast
  let ?s = "s\<lparr>user_bufs := (user_bufs s)(b := b')\<rparr>"
  have "limited (kept self ?s) (sendInLoop self' (contents (user_bufs s b)) ?s)"
    using sendInLoop_kept [OF conn_ok_bufs [OF ok b'(2)], of b "contents (user_bufs s b)" self']
      st user_buf(2) [OF ok] by simp
  then have "limited (kept self s) (sendInLoop self' (contents (user_bufs s b)) ?s)"
    by (rule barring_mono) (erule kept_mono [rotated 2], simp_all)
  then show ?thesis using b' by (simp add: send_buffer_in_loop_def)
qed

lemma shutdownInLoop_eq:
  assumes ok: "conn_ok self s" and live: "live s"
  shows "shutdownInLoop s = Inr (if contents (outputBuffer s) = [] then s\<lparr>wr_shut := True\<rparr> else s)"
proof -
  obtain ch where ch: "chans s (tc_channel s) = Some ch"
      "link_ok (tc_state s) (contents (outputBuffer s)) (tc_obj s) (tc_channel s) (pl_channels s) ch"
    by (rule conn_channel [OF ok])
  then show ?thesis
    using live_link(3) [OF live ch(2)] by (simp add: shutdownInLoop_def chan_Some shutdownWrite_def)
qed

lemma shutdownInLoop_kept:
  assumes ok: "conn_ok self s"
  shows "limited (kept self s) (shutdownInLoop s)"
proof -
  obtain ch where "chans s (tc_channel s) = Some ch" by (rule conn_channel [OF ok])
  then show ?thesis using ok by (simp add: shutdownInLoop_def chan_Some shutdownWrite_def kept_def)
qed

text \<open>Leaving \<open>kConnected\<close> for \<open>kDisconnecting\<close>.\<close>

lemma disconnecting_ok:
  assumes ok: "conn_ok self s" and live: "live s"
  shows "conn_ok self (setState kDisconnecting s)" "api_frame s (setState kDisconnecting s)"
proof -
  show "conn_ok self (setState kDisconnecting s)"
    using ok live
    by (auto simp: conn_ok_def setState_def live_def link_ok_def phase_ok_def callbacks_set_def memory_ok_def
      split: conn_state.splits)
  show "api_frame s (setState kDisconnecting s)"
    using live by (auto simp: api_frame_def setState_def live_def)
qed

lemma taken_setState [simp]: "taken (setState st s) = taken s"
  by (simp add: setState_def)

lemma setState_kept: "conn_ok self s \<Longrightarrow> live s \<Longrightarrow> kept self s (setState kDisconnecting s)"
  using disconnecting_ok [of self s] by (simp add: kept_def)

lemma queueInLoop_kept: "conn_ok self s \<Longrightarrow> task_ok f \<Longrightarrow> kept self s (queueInLoop self' f s)"
  using queueInLoop_ok by (simp add: kept_def)

text \<open>
  The calls an application makes, in its callbacks or from another thread; \<open>Api_Consume\<close> is
  \<open>defaultMessageCallback\<close>.
\<close>

definition defaultMessageCallback :: "('u, 'm) conn \<Rightarrow> ('u, 'm) conn" where
  "defaultMessageCallback s = s\<lparr>inputBuffer := retrieveAll (inputBuffer s)\<rparr>"

datatype api_call = Api_Send nat | Api_Send_Buffer nat | Api_Shutdown | Api_Force_Close | Api_Consume

fun api_step :: "nat \<Rightarrow> api_call \<Rightarrow> ('u, 'm) conn \<Rightarrow> ('u, 'm) conn res" where
  "api_step t (Api_Send m) s = send_piece t m s"
| "api_step t (Api_Send_Buffer b) s = send_buffer t b s"
| "api_step t Api_Shutdown s = shutdown t s"
| "api_step t Api_Force_Close s = Inr (forceClose t s)"
| "api_step t Api_Consume s = Inr (defaultMessageCallback s)"

lemma live_not_connecting: "live s \<Longrightarrow> tc_state s \<noteq> kConnecting"
  by (auto simp: live_def)

lemma send_piece_kept:
  assumes ok: "conn_ok self s"
  shows "limited (kept self s) (send_piece t m s)"
  using send_mem_kept [OF ok, of t m] queueInLoop_kept [OF ok, of "Send_In_Loop m" t] kept_refl [OF ok]
  by (simp add: send_piece_def send_mem_in_loop_def runInLoop_def)

lemma send_buffer_kept:
  assumes ok: "conn_ok self s"
  shows "limited (kept self s) (send_buffer t b s)"
proof (cases "tc_state s = kConnected \<and> isInLoopThread t s")
  case True
  let ?data = "contents (user_bufs s b)"
  have data: "region (peek (user_bufs s b)) (peek (user_bufs s b) + readableBytes (user_bufs s b)) (user_bufs s b) = ?data"
    using user_buf(1) [OF ok] by (simp add: peek_def readableBytes_def contents_def)
  have "limited (kept self s) (sendInLoop t ?data s)"
    using sendInLoop_kept [OF ok _ user_buf(2) [OF ok], of t b] True by simp
  then have "limited (kept self s) (bindr (sendInLoop t ?data s) (\<lambda>s.
      Inr (s\<lparr>user_bufs := (user_bufs s)(b := retrieveAll (user_bufs s b))\<rparr>)))"
  proof (rule barring_bindr)
    fix s' assume s': "kept self s s'"
    then have "buf_inv (retrieveAll (user_bufs s' b))" using retrieveAll_spec user_buf(1) by (auto simp: kept_def)
    then show "limited (kept self s) (Inr (s'\<lparr>user_bufs := (user_bufs s')(b := retrieveAll (user_bufs s' b))\<rparr>))"
      using s' conn_ok_bufs by (auto simp: kept_def)
  qed
  then show ?thesis using True data by (simp add: send_buffer_def Let_def)
next
  case False
  then show ?thesis
    using queueInLoop_kept [OF ok, of "Send_Buffer_In_Loop b" t] kept_refl [OF ok]
    by (auto simp: send_buffer_def runInLoop_def)
qed

lemma shutdown_kept:
  assumes ok: "conn_ok self s"
  shows "limited (kept self s) (shutdown t s)"
proof (cases "tc_state s = kConnected")
  case True
  then have live: "live s" by (simp add: live_def)
  note k = setState_kept [OF ok live]
  let ?s = "setState kDisconnecting s"
  note ok' = disconnecting_ok(1) [OF ok live]
  have "limited (kept self ?s) (runInLoop (run_request t) t Shutdown_In_Loop ?s)"
    using shutdownInLoop_kept [OF ok'] queueInLoop_kept [OF ok', of Shutdown_In_Loop t]
    by (simp add: runInLoop_def)
  then have "limited (kept self s) (runInLoop (run_request t) t Shutdown_In_Loop (setState kDisconnecting s))"
    by (rule barring_mono) (rule kept_trans [OF k])
  then show ?thesis using True by (simp add: shutdown_def)
qed (use kept_refl [OF ok] in \<open>simp add: shutdown_def\<close>)

lemma forceClose_kept:
  assumes ok: "conn_ok self s"
  shows "kept self s (forceClose t s)"
proof (cases "live s")
  case True
  then show ?thesis
    using kept_trans [OF setState_kept [OF ok True]
        queueInLoop_kept [OF disconnecting_ok(1) [OF ok True], of Force_Close_In_Loop t]]
    by (simp add: forceClose_def live_def [symmetric])
qed (use kept_refl [OF ok] in \<open>simp add: forceClose_def live_def\<close>)

lemma api_step_kept:
  assumes ok: "conn_ok self s"
  shows "limited (kept self s) (api_step t k s)"
proof (cases k)
  case Api_Consume
  then show ?thesis
    using conn_ok_input [OF ok, of "retrieveAll (inputBuffer s)"] retrieveAll_spec [OF conn_okD(2) [OF ok]]
    by (simp add: defaultMessageCallback_def kept_def)
qed (use send_piece_kept send_buffer_kept shutdown_kept forceClose_kept ok in simp_all)

section \<open>The handlers keep the invariant\<close>

text \<open>The order of the states: a connection never goes back.\<close>

fun rank :: "conn_state \<Rightarrow> nat" where
  "rank kConnecting = 0" | "rank kConnected = 1" | "rank kDisconnecting = 2" | "rank kDisconnected = 3"

definition evolves :: "nat \<Rightarrow> ('u, 'm) conn \<Rightarrow> ('u, 'm) conn \<Rightarrow> bool" where
  "evolves self s s' \<longleftrightarrow>
     conn_ok self s' \<and> timer_state s' = timer_state s \<and> tc_channel s' = tc_channel s \<and> tc_obj s' = tc_obj s \<and> use_count s' = use_count s \<and>
     map_option ch_revents (chans s' (tc_channel s)) = map_option ch_revents (chans s (tc_channel s)) \<and>
     rank (tc_state s) \<le> rank (tc_state s') \<and> prefix (taken s) (taken s') \<and> prefix (trace s) (trace s')"

lemma evolves_refl: "conn_ok self s \<Longrightarrow> evolves self s s"
  by (simp add: evolves_def)

lemma evolves_trans: "evolves self s t \<Longrightarrow> evolves self t u \<Longrightarrow> evolves self s u"
  unfolding evolves_def by (auto intro: prefix_order.trans)

lemma evolves_ok: "evolves self s s' \<Longrightarrow> conn_ok self s'"
  by (simp add: evolves_def)

lemma rank_0 [simp]: "rank st = 0 \<longleftrightarrow> st = kConnecting"
  by (cases st) simp_all

lemma rank_le_3 [simp]: "rank st \<le> 3"
  by (cases st) simp_all

lemma evolves_up: "evolves self s s' \<Longrightarrow> tc_state s \<noteq> kConnecting \<Longrightarrow> tc_state s' \<noteq> kConnecting"
  unfolding evolves_def by (metis le_zero_eq rank_0)

lemma kept_evolves: "kept self s s' \<Longrightarrow> evolves self s s'"
  by (auto simp: kept_def evolves_def api_frame_def)

text \<open>An application that only calls the interface.\<close>

definition app_ok :: "nat \<Rightarrow> ('u, 'm) app \<Rightarrow> bool" where
  "app_ok self app \<longleftrightarrow> (\<forall>k s. \<exists>calls. app k s = foldr_res (api_step self) calls s)"

lemma api_steps_kept:
  assumes "conn_ok self s"
  shows "limited (kept self s) (foldr_res (api_step t) calls s)"
proof (rule barring_foldr_res)
  show "kept self s s" using assms by (rule kept_refl)
next
  fix k s' assume k: "kept self s s'"
  have "limited (kept self s') (api_step t k s')" by (rule api_step_kept) (use k in \<open>simp add: kept_def\<close>)
  then show "limited (kept self s) (api_step t k s')" by (rule barring_mono) (rule kept_trans [OF k])
qed

lemma phase_after_append:
  "phase_after (ks @ ls) p = (case phase_after ks p of None \<Rightarrow> None | Some q \<Rightarrow> phase_after ls q)"
  by (induction ks arbitrary: p) (auto split: option.splits)

text \<open>Pushing a call to the trace.\<close>

definition told :: "'u app_call \<Rightarrow> ('u, 'm) conn \<Rightarrow> ('u, 'm) conn" where
  "told k s = s\<lparr>trace := trace s @ [k]\<rparr>"

lemma told_fields [simp]:
  "trace (told k s) = trace s @ [k]" "tc_channel (told k s) = tc_channel s" "tc_obj (told k s) = tc_obj s"
  "use_count (told k s) = use_count s" "chans (told k s) = chans s" "tc_state (told k s) = tc_state s"
  "taken (told k s) = taken s" "tc_closeCallback (told k s) = tc_closeCallback s"
  "pl_channels (told k s) = pl_channels s" "wire (told k s) = wire s" "outputBuffer (told k s) = outputBuffer s"
  "timer_state (told k s) = timer_state s"
  by (simp_all add: told_def)

lemma told_ok:
  "conn_ok self s \<Longrightarrow> phase_ok (tc_state s) (trace s @ [k]) \<Longrightarrow> conn_ok self (told k s)"
  by (simp add: told_def conn_ok_def callbacks_set_def memory_ok_def)

lemma call_back_kept:
  assumes app: "app_ok self app" and ok: "conn_ok self (told (k u) s)"
  shows "limited (kept self (told (k u) s)) (call_back app k (Some u) s)"
  using app [unfolded app_ok_def, rule_format, of "k u" "told (k u) s"] api_steps_kept [OF ok]
  by (auto simp: call_back_def told_def)

text \<open>A callback that fits the state of the connection.\<close>

lemma call_back_evolves:
  assumes app: "app_ok self app" and ok: "conn_ok self s" and ph: "phase_ok (tc_state s) (trace s @ [k u])"
  shows "limited (\<lambda>s'. evolves self s s' \<and> api_frame (told (k u) s) s') (call_back app k (Some u) s)"
  by (rule barring_mono [OF call_back_kept [where k = k and u = u, OF app told_ok [OF ok ph]]])
    (auto simp: kept_def evolves_def api_frame_def dest: append_prefixD)

lemma phase_ok_push:
  assumes "phase_ok st ks" "\<And>p. p \<noteq> Before_Up \<Longrightarrow> next_phase k p = Some p" "st \<noteq> kConnecting"
  shows "phase_ok st (ks @ [k])"
  using assms by (auto simp: phase_ok_def phase_after_snoc split: conn_state.splits)

section \<open>Closing\<close>

definition registered :: "('u, 'm) conn \<Rightarrow> bool" where
  "registered s \<longleftrightarrow> (\<exists>ch. chans s (tc_channel s) = Some ch \<and> pl_channels s (ch_fd ch) = Some (tc_channel s))"

text \<open>The part that \<open>handleClose\<close> and \<open>connectDestroyed\<close> share.\<close>

lemma go_down:
  fixes s :: "('u, 'm) conn"
  assumes ok: "conn_ok self s" and live: "live s"
  shows "\<exists>s2. disableAll (tc_channel s) (setState kDisconnected s) = Inr s2 \<and>
    conn_ok self (told (On_Connection u) s2) \<and> poller_change (setState kDisconnected s) s2 \<and>
    map_option ch_revents (chans s2 (tc_channel s)) = map_option ch_revents (chans s (tc_channel s)) \<and>
    registered s2"
proof -
  let ?s = "setState kDisconnected s" and ?c = "tc_channel s"
  obtain ch where ch: "chans s ?c = Some ch"
      "link_ok (tc_state s) (contents (outputBuffer s)) (tc_obj s) ?c (pl_channels s) ch"
    by (rule conn_channel [OF ok])
  note link = live_link [OF live ch(2)]
  have lok: "loop_ok ?s" using conn_okD(1) [OF ok] by (simp add: setState_def)
  have "\<not> isNoneEvent ch" using link(2) by (auto simp: isNoneEvent_def isReading_def kNoneEvent_def)
  then have idx: "ch_index ch = kAdded"
    using poller_ok_index [OF loop_okD(1) [OF conn_okD(1) [OF ok]] ch(1)] link(1) by auto
  let ?ch = "ch\<lparr>ch_events := kNoneEvent, addedToLoop := True, ch_index := kDeleted\<rparr>"
  obtain s2 where s2: "set_interest (\<lambda>_. kNoneEvent) ?c ?s = Inr s2" "loop_ok s2" "poller_change ?s s2"
      "chans s2 = (chans ?s)(?c \<mapsto> ?ch)" "pl_channels s2 = (pl_channels ?s)(ch_fd ch \<mapsto> ?c)"
    using interest_change [OF lok, of ?c ch "\<lambda>_. kNoneEvent"] ch(1) link(1) idx by (auto simp: setState_def)
  note same = tcp_fields_change [OF s2(3)] loop_fields_change [OF s2(3)]
  have "registered s2" using s2(4,5) by (simp add: registered_def same setState_def)
  have "phase_after (trace s) Before_Up = Some Up"
    using conn_okD(9) [OF ok] live by (auto simp: phase_ok_def live_def)
  then have "phase_ok kDisconnected (trace s @ [On_Connection u])" by (simp add: phase_ok_def phase_after_snoc)
  moreover have "wired ?ch" using link(6) by (simp add: wired_def)
  ultimately have "conn_ok self (told (On_Connection u) s2)"
    using ok s2(2,4)
    by (simp add: conn_ok_def same told_def setState_def callbacks_set_def memory_ok_def link_ok_def isNoneEvent_def
      kAdded_def kDeleted_def)
  then show ?thesis using s2(1,3,4) \<open>registered s2\<close> ch(1) by (simp add: interest_ops setState_def)
qed

lemma conn_ok_lock: "conn_ok self s \<Longrightarrow> conn_ok self (lock_ptr obj s)"
  by (simp add: lock_ptr_def conn_ok_def callbacks_set_def memory_ok_def)

lemma conn_ok_unlock:
  "conn_ok self s \<Longrightarrow> 0 < n (tc_obj s) \<Longrightarrow> conn_ok self (s\<lparr>use_count := n\<rparr>)"
  by (simp add: conn_ok_def callbacks_set_def memory_ok_def)

text \<open>A guard that is not the last \<open>shared_ptr\<close>: after it the count is what it was.\<close>

lemma guard_evolves:
  assumes ev: "evolves self (lock_ptr obj s) s'" and n: "0 < use_count s obj" and ok: "0 < use_count s (tc_obj s)"
  shows "\<exists>s2. release_ptr exec obj s' = Inr s2 \<and> evolves self s s2 \<and> tc_state s2 = tc_state s'"
proof -
  let ?s2 = "s'\<lparr>use_count := (use_count s')(obj := use_count s' obj - 1)\<rparr>"
  have uc: "use_count s' = (use_count s)(obj := Suc (use_count s obj))"
    using ev by (simp add: evolves_def lock_ptr_def)
  have "conn_ok self ?s2"
    using conn_ok_unlock [of self s'] ev ok uc by (simp add: evolves_def lock_ptr_def)
  then have "evolves self s ?s2"
    using ev uc by (simp add: evolves_def lock_ptr_def fun_upd_idem)
  then show ?thesis using uc n by (simp add: release_ptr_def)
qed

lemma handleClose_ok:
  assumes app: "app_ok self app" and ok: "conn_ok self s" and live: "live s"
  shows "limited (\<lambda>s'. evolves self s s' \<and> tc_state s' = kDisconnected) (handleClose app self s)"
proof -
  obtain u where u: "tc_connectionCallback s = Some u" using conn_okD(5) [OF ok] by (auto simp: callbacks_set_def)
  obtain s2 where s2: "disableAll (tc_channel s) (setState kDisconnected s) = Inr s2"
      "conn_ok self (told (On_Connection u) s2)" "poller_change (setState kDisconnected s) s2"
      "map_option ch_revents (chans s2 (tc_channel s)) = map_option ch_revents (chans s (tc_channel s))"
    using go_down [OF ok live, of u] by blast
  note same = tcp_fields_change [OF s2(3)]
  let ?l = "lock_ptr (tc_obj s2) s2"
  have told_l: "told (On_Connection u) ?l = lock_ptr (tc_obj s2) (told (On_Connection u) s2)"
    by (simp add: told_def lock_ptr_def)
  have ev0: "evolves self (lock_ptr (tc_obj s2) s) (told (On_Connection u) ?l)"
    using conn_ok_lock [OF s2(2)] s2(4) unfolding told_l
    by (auto simp: evolves_def same told_def lock_ptr_def setState_def taken_def conn_ok_def split: conn_state.splits)
  have "limited (\<lambda>s3. evolves self (lock_ptr (tc_obj s) s) s3 \<and> api_frame (told (On_Connection u) ?l) s3)
      (call_back app On_Connection (Some u) ?l)"
  proof (rule barring_mono [OF call_back_kept [where k = On_Connection and u = u, OF app]])
    show "conn_ok self (told (On_Connection u) ?l)" using conn_ok_lock [OF s2(2)] told_l by simp
  next
    fix s3 assume k: "kept self (told (On_Connection u) ?l) s3"
    then show "evolves self (lock_ptr (tc_obj s) s) s3 \<and> api_frame (told (On_Connection u) ?l) s3"
      using evolves_trans [OF ev0 kept_evolves [OF k]] by (simp add: kept_def same setState_def)
  qed
  then have "limited (\<lambda>s'. evolves self s s' \<and> tc_state s' = kDisconnected)
      (bindr (call_back app On_Connection (Some u) ?l) (\<lambda>s.
         bindr (call_back app On_Close (tc_closeCallback s) s) (\<lambda>s.
         release_ptr (\<lambda>_. delete_TcpConnection self) (tc_obj s) s)))"
  proof (rule barring_bindr, elim conjE)
    fix s3 assume ev: "evolves self (lock_ptr (tc_obj s) s) s3" and fr: "api_frame (told (On_Connection u) ?l) s3"
    obtain v where v: "tc_closeCallback s3 = Some v"
      using conn_okD(5) [OF evolves_ok [OF ev]] by (auto simp: callbacks_set_def)
    have st: "tc_state s3 = kDisconnected" "trace s3 = trace s @ [On_Connection u]"
      using fr by (simp_all add: api_frame_def same setState_def lock_ptr_def)
    have "phase_ok (tc_state s3) (trace s3 @ [On_Close v])"
      using conn_okD(9) [OF ok] live by (auto simp: st phase_ok_def live_def phase_after_append)
    from call_back_evolves [where k = On_Close and u = v, OF app evolves_ok [OF ev] this]
    show "limited (\<lambda>s'. evolves self s s' \<and> tc_state s' = kDisconnected)
        (bindr (call_back app On_Close (tc_closeCallback s3) s3) (\<lambda>s.
         release_ptr (\<lambda>_. delete_TcpConnection self) (tc_obj s) s))"
      unfolding v
    proof (rule barring_bindr, elim conjE)
      fix s4 assume ev4: "evolves self s3 s4" and fr4: "api_frame (told (On_Close v) s3) s4"
      note ev' = evolves_trans [OF ev ev4]
      have "tc_obj s4 = tc_obj s" using ev' by (simp add: evolves_def lock_ptr_def)
      then show "limited (\<lambda>s'. evolves self s s' \<and> tc_state s' = kDisconnected)
          (release_ptr (\<lambda>_. delete_TcpConnection self) (tc_obj s4) s4)"
        using guard_evolves [OF ev' conn_okD(4) [OF ok] conn_okD(4) [OF ok], of "\<lambda>_. delete_TcpConnection self"]
          fr4 st(1) by (auto simp: api_frame_def)
    qed
  qed
  then show ?thesis
    using s2(1) live by (simp add: handleClose_def live_def Let_def same u setState_def lock_ptr_def)
qed

section \<open>Reading and writing\<close>

lemma handleError_eq: "conn_ok self s \<Longrightarrow> handleError s = Inr s"
  by (elim conn_channel) (simp add: handleError_def chan_Some)

lemma sys_readv_cases:
  obtains (none) e s' where "sys_readv s = (Readv_Error e, s')" "s' = s\<lparr>read_answers := read_answers s'\<rparr>"
    | (data) d rs where "sys_readv s = (Readv_Data d, s\<lparr>read_answers := rs\<rparr>)" "length d \<le> iov_room (inputBuffer s)"
proof (cases "read_answers s")
  case Nil
  then show ?thesis using none by (simp add: sys_readv_def)
next
  case (Cons a rs)
  then show ?thesis
    by (cases a) (auto simp: sys_readv_def intro: none data)
qed

lemma iov_room_le: "buf_inv b \<Longrightarrow> iov_room b \<le> max_size"
  using buf_invD [of b] unat_writableBytes [of b]
  by (auto simp: iov_room_def iovcnt_def extrabuf_size_def word_less_nat_alt max_size_def)

lemma evolves_before [simp]:
  "evolves self (s\<lparr>read_answers := rs, inputBuffer := b\<rparr>) s' = evolves self s s'"
  "evolves self (s\<lparr>write_answers := as\<rparr>) s' = evolves self s s'"
  by (simp_all add: evolves_def)

lemma handleRead_data:
  assumes app: "app_ok self app" and ok: "conn_ok self s" and live: "live s"
    and data: "sys_readv s = (Readv_Data d, s\<lparr>read_answers := rs\<rparr>)" "length d \<le> iov_room (inputBuffer s)"
  shows "limited (evolves self s) (handleRead app self t s)"
proof -
  obtain ch where ch: "chans s (tc_channel s) = Some ch" by (rule conn_channel [OF ok])
  note lim = readFd_limited [OF conn_okD(2) [OF ok] order.trans [OF data(2) iov_room_le [OF conn_okD(2) [OF ok]]]]
  have run: "handleRead app self t s =
    bindr (readFd (Readv_Data d) (inputBuffer s)) (\<lambda>(n, savedErrno, b).
      let s = s\<lparr>read_answers := rs, inputBuffer := b\<rparr>
      in if n > 0 then call_back app (\<lambda>u. On_Message u t) (tc_messageCallback s) s
         else if n = 0 then handleClose app self s else handleError s)"
    using ch data(1) by (simp add: handleRead_def chan_Some)
  obtain u where u: "tc_messageCallback s = Some u" using conn_okD(5) [OF ok] by (auto simp: callbacks_set_def)
  show ?thesis
    unfolding run
  proof (rule barring_bindr [OF lim], clarify)
    fix n e b assume b: "buf_inv b" "contents b = contents (inputBuffer s) @ d"
    let ?s = "s\<lparr>read_answers := rs, inputBuffer := b\<rparr>"
    have ok': "conn_ok self ?s" using conn_ok_input [of self "s\<lparr>read_answers := rs\<rparr>" b] ok b(1) by simp
    have live': "live ?s" using live by (simp add: live_def)
    have "phase_ok (tc_state ?s) (trace ?s @ [On_Message u t])"
      using conn_okD(9) [OF ok'] live' by (auto simp: phase_ok_def live_def phase_after_append)
    note msg = call_back_evolves [where k = "\<lambda>u. On_Message u t" and u = u, OF app ok' this]
    have "limited (evolves self s) (call_back app (\<lambda>u. On_Message u t) (Some u) ?s)"
      by (rule barring_mono [OF msg]) simp
    moreover have "limited (evolves self s) (handleClose app self ?s)"
      by (rule barring_mono [OF handleClose_ok [OF app ok' live']]) simp
    ultimately show "limited (evolves self s)
        (let s = ?s in if int (length d) > 0 then call_back app (\<lambda>u. On_Message u t) (tc_messageCallback s) s
           else if int (length d) = 0 then handleClose app self s else handleError s)"
      by (simp add: u Let_def)
  qed
qed

lemma handleRead_ok:
  assumes app: "app_ok self app" and ok: "conn_ok self s" and live: "live s"
  shows "limited (evolves self s) (handleRead app self t s)"
proof (cases rule: sys_readv_cases [of s])
  case (none e s')
  obtain ch where ch: "chans s (tc_channel s) = Some ch" by (rule conn_channel [OF ok])
  have s': "conn_ok self s'" "evolves self s s'"
    using ok by (subst none(2), simp add: evolves_def)+
  have "inputBuffer s' = inputBuffer s" by (subst none(2)) simp
  then have "handleRead app self t s = handleError s'"
    using none(1) ch by (simp add: handleRead_def chan_Some readFd_error)
  then show ?thesis using handleError_eq [OF s'(1)] s'(2) by simp
qed (rule handleRead_data [OF app ok live])

lemma conn_ok_output:
  assumes "conn_ok self s" "live s" "buf_inv b" "contents b = [] \<longleftrightarrow> contents (outputBuffer s) = []"
  shows "conn_ok self (s\<lparr>outputBuffer := b\<rparr>)"
  using assms
  by (auto simp: conn_ok_def link_ok_def live_def callbacks_set_def memory_ok_def split: conn_state.splits)

text \<open>What follows a write that took \<open>n\<close> bytes and left \<open>b\<close>.\<close>

lemma after_write:
  assumes ok: "conn_ok self s" and live: "live s" and b: "buf_inv b"
    and some: "contents (outputBuffer s) \<noteq> []"
  shows "\<exists>s'. (let s = s\<lparr>outputBuffer := b\<rparr> in
     if readableBytes (outputBuffer s) = 0
     then bindr (disableWriting (tc_channel s) s) (\<lambda>s.
            let s = queue_opt self' (map_option Write_Complete (tc_writeCompleteCallback s)) s
            in if tc_state s = kDisconnecting then shutdownInLoop s else Inr s)
     else Inr s) = Inr s' \<and>
    conn_ok self s' \<and> api_frame s s' \<and> outputBuffer s' = b \<and> wire s' = wire s \<and> tc_state s' = tc_state s \<and>
    write_answers s' = write_answers s \<and> wr_shut s' = (wr_shut s \<or> contents b = [] \<and> tc_state s = kDisconnecting)"
proof (cases "contents b = []")
  case False
  then show ?thesis
    using conn_ok_output [OF ok live b] some readable_eq_0_iff [OF b] by (simp add: api_frame_def)
next
  case True
  obtain ch where ch: "chans s (tc_channel s) = Some ch"
      "link_ok (tc_state s) (contents (outputBuffer s)) (tc_obj s) (tc_channel s) (pl_channels s) ch"
    by (rule conn_channel [OF ok])
  obtain s2 where s2: "set_interest (\<lambda>m. m AND NOT kWriteEvent) (tc_channel s) (s\<lparr>outputBuffer := b\<rparr>) = Inr s2"
      "conn_ok self s2" "poller_change (s\<lparr>outputBuffer := b\<rparr>) s2" "api_frame s s2"
    using conn_interest [OF ok b live ch(1), of "\<lambda>m. m AND NOT kWriteEvent"] live_link(2) [OF live ch(2)] True
    by (auto simp: isReading_def mask_simps)
  note same = tcp_fields_change [OF s2(3)]
  let ?s3 = "queue_opt self' (map_option Write_Complete (tc_writeCompleteCallback s2)) s2"
  have ok3: "conn_ok self ?s3" using s2(2) by (auto intro!: queue_opt_ok)
  have live3: "live ?s3" using live by (simp add: live_def same)
  have "api_frame s ?s3" using s2(4) by simp
  then have "\<exists>s'. (if tc_state ?s3 = kDisconnecting then shutdownInLoop ?s3 else Inr ?s3) = Inr s' \<and>
      conn_ok self s' \<and> api_frame s s' \<and> outputBuffer s' = b \<and> wire s' = wire s \<and> tc_state s' = tc_state s \<and>
      write_answers s' = write_answers s \<and> wr_shut s' = (wr_shut s \<or> contents b = [] \<and> tc_state s = kDisconnecting)"
    unfolding shutdownInLoop_eq [OF ok3 live3] using ok3 True by (simp add: same)
  then show ?thesis
    using True readable_eq_0_iff [OF b] s2(1) by (simp add: interest_ops Let_def)
qed

lemma writing_live:
  assumes "link_ok (tc_state s) out obj c pl ch" "tc_state s \<noteq> kConnecting" "isWriting ch"
  shows "live s"
  using assms by (auto simp: link_ok_def live_def isWriting_def isNoneEvent_def kNoneEvent_def split: conn_state.splits)

lemma handleWrite_some:
  assumes ok: "conn_ok self s" and live: "live s" and some: "contents (outputBuffer s) \<noteq> []"
    and wrote: "sys_write (contents (outputBuffer s)) s =
        (Wrote n, s\<lparr>write_answers := as, wire := wire s @ take n (contents (outputBuffer s))\<rparr>)"
    and n: "0 < n" "n \<le> length (contents (outputBuffer s))"
  shows "\<exists>s'. handleWrite self s = Inr s' \<and> conn_ok self s' \<and> api_frame s s' \<and>
    contents (outputBuffer s') = drop n (contents (outputBuffer s)) \<and>
    wire s' = wire s @ take n (contents (outputBuffer s)) \<and> tc_state s' = tc_state s \<and> write_answers s' = as \<and>
    wr_shut s' = (wr_shut s \<or> n = length (contents (outputBuffer s)) \<and> tc_state s = kDisconnecting)"
proof -
  let ?b = "outputBuffer s"
  let ?s = "s\<lparr>write_answers := as, wire := wire s @ take n (contents ?b)\<rparr>"
  obtain ch where ch: "chans s (tc_channel s) = Some ch"
      "link_ok (tc_state s) (contents ?b) (tc_obj s) (tc_channel s) (pl_channels s) ch"
    by (rule conn_channel [OF ok])
  have writing: "isWriting ch" using live_link(3) [OF live ch(2)] some by simp
  note binv = conn_okD(3) [OF ok]
  have data: "region (peek ?b) (peek ?b + readableBytes ?b) ?b = contents ?b"
    by (simp add: peek_def readableBytes_def contents_def)
  have un: "unat (of_nat n :: size_t) = n"
    using n(2) contents_bound [OF binv] by (simp add: unat_of_nat64 max_size_def)
  then obtain b where b: "retrieve (of_nat n) ?b = Inr b" "buf_inv b" "contents b = drop n (contents ?b)"
    using retrieve_spec [OF binv, of "of_nat n"] n(2) by auto
  have "conn_ok self ?s" "live ?s" "contents (outputBuffer ?s) \<noteq> []" using ok live some by (simp_all add: live_def)
  note aw = after_write [OF this(1,2) b(2) this(3), of self]
  have "handleWrite self s =
      (let s = ?s\<lparr>outputBuffer := b\<rparr> in
       if readableBytes (outputBuffer s) = 0
       then bindr (disableWriting (tc_channel s) s) (\<lambda>s.
              let s = queue_opt self (map_option Write_Complete (tc_writeCompleteCallback s)) s
              in if tc_state s = kDisconnecting then shutdownInLoop s else Inr s)
       else Inr s)"
    using writing ch(1) data wrote b(1) n by (simp add: handleWrite_def chan_Some Let_def)
  moreover have "api_frame ?s t = api_frame s t" for t by (simp add: api_frame_def)
  moreover have "drop n (contents ?b) = [] \<longleftrightarrow> n = length (contents ?b)" using n by auto
  ultimately show ?thesis using aw b(3) by auto
qed

lemma handleWrite_ok:
  assumes ok: "conn_ok self s" and st: "tc_state s \<noteq> kConnecting"
  shows "\<exists>s'. handleWrite self s = Inr s' \<and> evolves self s s' \<and> taken s' = taken s \<and>
    wr_shut s' = (wr_shut s \<or> contents (outputBuffer s) \<noteq> [] \<and> contents (outputBuffer s') = [] \<and> tc_state s = kDisconnecting)"
proof -
  let ?c = "tc_channel s" and ?b = "outputBuffer s"
  obtain ch where ch: "chans s ?c = Some ch"
      "link_ok (tc_state s) (contents ?b) (tc_obj s) ?c (pl_channels s) ch"
    by (rule conn_channel [OF ok])
  show ?thesis
  proof (cases "isWriting ch")
    case False
    then have "handleWrite self s = Inr s" using ch(1) by (simp add: handleWrite_def chan_Some)
    then show ?thesis using ok by (auto simp: evolves_refl)
  next
    case True
    have live: "live s" by (rule writing_live [OF ch(2) st True])
    have some: "contents ?b \<noteq> []" using live_link(3) [OF live ch(2)] True by simp
    have data: "region (peek ?b) (peek ?b + readableBytes ?b) ?b = contents ?b"
      by (simp add: peek_def readableBytes_def contents_def)
    show ?thesis
    proof (cases rule: sys_write_cases [of "contents ?b" s])
      case (failed e as)
      then show ?thesis
        using True ch(1) data ok some by (simp add: handleWrite_def chan_Some evolves_def)
    next
      case (wrote n as)
      show ?thesis
      proof (cases "n = 0")
        case n0: True
        then show ?thesis
          using True ch(1) data ok wrote some by (simp add: handleWrite_def chan_Some evolves_def taken_def)
      next
        case False
        then show ?thesis
          using handleWrite_some [OF ok live some wrote(1) _ wrote(2)] wrote(2)
          by (auto simp: evolves_def api_frame_def taken_def some)
      qed
    qed
  qed
qed

lemma forceCloseInLoop_ok:
  assumes app: "app_ok self app" and ok: "conn_ok self s"
  shows "limited (evolves self s) (forceCloseInLoop app self s)"
proof (cases "live s")
  case True
  show ?thesis
    using barring_mono [OF handleClose_ok [OF app ok True], of "evolves self s"] True
    by (simp add: forceCloseInLoop_def live_def)
next
  case False
  then show ?thesis using evolves_refl [OF ok] by (simp add: forceCloseInLoop_def live_def)
qed

text \<open>Every functor the connection may have queued.\<close>

lemma run_task_ok:
  assumes app: "app_ok self app" and ok: "conn_ok self s" and st: "tc_state s \<noteq> kConnecting" and f: "task_ok f"
  shows "limited (evolves self s) (run_task app self (Run f) s)"
proof -
  note kept = barring_mono [OF _ kept_evolves]
  note ph = conn_okD(9) [OF ok]
  show ?thesis
    using f
  proof (cases f)
    case (Send_In_Loop m)
    then show ?thesis using kept [OF send_mem_kept [OF ok st]] by simp
  next
    case (Send_Buffer_In_Loop b)
    then show ?thesis using kept [OF send_buffer_in_loop_kept [OF ok st]] by simp
  next
    case Shutdown_In_Loop
    then show ?thesis using kept [OF shutdownInLoop_kept [OF ok]] by simp
  next
    case Force_Close_In_Loop
    then show ?thesis using forceCloseInLoop_ok [OF app ok] by simp
  next
    case Force_Close_Weak
    note n = conn_okD(4) [OF ok]
    have "evolves self (lock_ptr (tc_obj s) s) (forceClose self (lock_ptr (tc_obj s) s))"
      by (rule kept_evolves [OF forceClose_kept [OF conn_ok_lock [OF ok]]])
    from guard_evolves [OF this n n] obtain s2 where
      "release_ptr (\<lambda>_. delete_TcpConnection self) (tc_obj s) (forceClose self (lock_ptr (tc_obj s) s)) = Inr s2" "evolves self s s2"
      by blast
    then show ?thesis using Force_Close_Weak n by (simp add: weak_callback_def)
  next
    case (Write_Complete u)
    have "phase_ok (tc_state s) (trace s @ [On_Write_Complete u])" by (rule phase_ok_push [OF ph _ st]) simp
    from barring_mono [OF call_back_evolves [where k = On_Write_Complete and u = u, OF app ok this]]
    show ?thesis using Write_Complete by simp
  next
    case (High_Water_Mark u n)
    have "phase_ok (tc_state s) (trace s @ [On_High_Water u n])" by (rule phase_ok_push [OF ph _ st]) simp
    from barring_mono [OF call_back_evolves [where k = "\<lambda>u. On_High_Water u n" and u = u, OF app ok this]]
    show ?thesis using High_Water_Mark by simp
  next
    case (User u)
    have "phase_ok (tc_state s) (trace s @ [On_User u])" by (rule phase_ok_push [OF ph _ st]) simp
    from barring_mono [OF call_back_evolves [where k = On_User and u = u, OF app ok this]]
    show ?thesis using User by simp
  qed simp_all
qed

section \<open>The owner's calls\<close>

lemma go_up:
  fixes s :: "('u, 'm) conn"
  assumes ok: "conn_ok self s" and st: "tc_state s = kConnecting"
  shows "\<exists>s2 ch2. bindr (upd_chan (tc_channel s) (ch_tie (tc_obj s)) (setState kConnected s)) (enableReading (tc_channel s)) = Inr s2 \<and>
    conn_ok self (told (On_Connection u) s2) \<and> poller_change (setState kConnected s) s2 \<and>
    map_option ch_revents (chans s2 (tc_channel s)) = map_option ch_revents (chans s (tc_channel s)) \<and>
    contents (outputBuffer s) = [] \<and> chans s2 (tc_channel s) = Some ch2 \<and> ch_events ch2 = kReadEvent"
proof -
  let ?c = "tc_channel s"
  obtain ch where ch: "chans s ?c = Some ch"
      "link_ok kConnecting (contents (outputBuffer s)) (tc_obj s) ?c (pl_channels s) ch"
    by (rule conn_channel [OF ok, unfolded st])
  then have link: "wired ch" "pl_channels s (ch_fd ch) = None" "ch_events ch = kNoneEvent" "contents (outputBuffer s) = []"
    by (auto simp: link_ok_def isNoneEvent_def)
  let ?ch = "ch_tie (tc_obj s) ch" and ?s = "put_chan ?c (ch_tie (tc_obj s) ch) (setState kConnected s)"
  have lok: "loop_ok ?s"
    by (rule put_chan_loop_ok [where ch = ch]) (use conn_okD(1) [OF ok] ch(1) in \<open>simp_all add: setState_def ch_tie_def\<close>)
  obtain s2 ch2 where s2: "set_interest (\<lambda>m. m OR kReadEvent) ?c ?s = Inr s2" "loop_ok s2" "poller_change ?s s2"
      "chans s2 = (chans ?s)(?c \<mapsto> ch2)" "pl_channels s2 = (pl_channels ?s)(ch_fd ch \<mapsto> ?c)"
      and ch2: "ch_events ch2 = kReadEvent" "ch_fd ch2 = ch_fd ch" "tied ch2" "tie_ptr ch2 = Some (tc_obj s)" "wired ch2"
        "ch_revents ch2 = ch_revents ch"
    using interest_change [OF lok, of ?c ?ch "\<lambda>m. m OR kReadEvent"] link
    by (auto simp: put_chan_def setState_def ch_tie_def wired_def kNoneEvent_def)
  note same = tcp_fields_change [OF s2(3)] loop_fields_change [OF s2(3)]
  have masks: "has kReadEvent kReadEvent" "\<not> has kReadEvent kWriteEvent"
    by (simp_all add: kReadEvent_def kWriteEvent_def has_def POLLIN_def POLLPRI_def POLLOUT_def)
  have "phase_ok kConnected (trace s @ [On_Connection u])"
    using conn_okD(9) [OF ok] st by (auto simp: phase_ok_def phase_after_append)
  then have "conn_ok self (told (On_Connection u) s2)"
    using ok s2(2,4,5) ch2 link(4) masks
    by (simp add: conn_ok_def same told_def put_chan_def setState_def callbacks_set_def memory_ok_def link_ok_def
      isReading_def isWriting_def)
  moreover have "poller_change (setState kConnected s) s2"
    using s2(3) by (simp add: poller_change_def put_chan_def)
  ultimately show ?thesis
    using s2(1,4) ch(1) ch2(1,6) link(4)
    by (simp add: upd_chan_def chan_def setState_def interest_ops put_chan_def)
qed

lemma connectEstablished_ok:
  assumes app: "app_ok self app" and ok: "conn_ok self s" and st: "tc_state s = kConnecting"
  shows "limited (evolves self s) (connectEstablished app s)"
proof -
  obtain u where u: "tc_connectionCallback s = Some u" using conn_okD(5) [OF ok] by (auto simp: callbacks_set_def)
  obtain s2 where s2: "bindr (upd_chan (tc_channel s) (ch_tie (tc_obj s)) (setState kConnected s))
        (enableReading (tc_channel s)) = Inr s2"
      "conn_ok self (told (On_Connection u) s2)" "poller_change (setState kConnected s) s2"
      "map_option ch_revents (chans s2 (tc_channel s)) = map_option ch_revents (chans s (tc_channel s))"
    using go_up [OF ok st, of u] by blast
  note same = tcp_fields_change [OF s2(3)]
  have ev: "evolves self s (told (On_Connection u) s2)"
    using s2(2,4) st by (simp add: evolves_def same setState_def) (simp add: taken_def same setState_def)
  have "limited (evolves self s) (call_back app On_Connection (Some u) s2)"
    by (rule barring_mono [OF call_back_kept [where k = On_Connection and u = u, OF app s2(2)]])
      (rule evolves_trans [OF ev kept_evolves])
  moreover obtain s1 where "upd_chan (tc_channel s) (ch_tie (tc_obj s)) (setState kConnected s) = Inr s1"
      "enableReading (tc_channel s) s1 = Inr s2" "tc_channel s1 = tc_channel s"
    using s2(1) by (cases "chans s (tc_channel s)") (auto simp: upd_chan_def chan_def setState_def put_chan_def)
  ultimately show ?thesis
    using st by (simp add: connectEstablished_def setState_def same u)
qed

text \<open>Taking a closed connection off its loop.\<close>

end
