(* ===== verification/ConnectionFrame.thy ===== *)
theory ConnectionFrame
  imports TcpConnection
begin

text \<open>
  What a connection leaves alone.  Whatever it does to its loop, the connection changes no channel
  but its own, and neither registers nor removes another; it removes its own (\<open>stay\<close> is false) only in
  \<open>connectDestroyed\<close>.  The facts below hold of every operation that returns, in any state.  The end of the theory takes a connection off its loop.
\<close>

section \<open>Operations on channels\<close>

abbreviation partly :: "('s \<Rightarrow> bool) \<Rightarrow> 's res \<Rightarrow> bool" where
  "partly \<equiv> barring (\<lambda>_. True)"

lemma partlyI: "(\<And>s. m = Inr s \<Longrightarrow> P s) \<Longrightarrow> partly P m"
  by (cases m) simp_all

lemma partly_ensure [simp]: "b \<and> partly P m \<Longrightarrow> partly P (ensure site b m)" "\<not> b \<Longrightarrow> partly P (ensure site b m)"
  by (simp_all add: ensure_def)

definition touches :: "bool \<Rightarrow> cid \<Rightarrow> ('f, 'm) poller_scheme \<Rightarrow> ('f, 'm) poller_scheme \<Rightarrow> bool" where
  "touches stay c s s' \<longleftrightarrow> poller_change s s' \<and> (\<forall>d. d \<noteq> c \<longrightarrow> chans s' d = chans s d) \<and>
     (\<forall>fd d. d \<noteq> c \<longrightarrow> (pl_channels s' fd = Some d \<longleftrightarrow> pl_channels s fd = Some d)) \<and>
     (stay \<longrightarrow> (\<forall>fd. pl_channels s fd = Some c \<longrightarrow> pl_channels s' fd = Some c))"

lemma touches_refl [simp]: "touches stay c s s"
  by (simp add: touches_def poller_change_iff)

lemma touches_trans: "touches stay c s t \<Longrightarrow> touches stay c t u \<Longrightarrow> touches stay c s u"
  by (auto simp: touches_def poller_change_iff)

lemma touches_put_chan [simp]: "touches stay c s (put_chan c ch s)"
  by (simp add: touches_def poller_change_iff put_chan_def)

lemma upd_chan_touches: "partly (touches stay c s) (upd_chan c f s)"
  by (simp add: upd_chan_def chan_def split: option.split)

lemma ep_update_touches: "partly (touches stay c s) (ep_update op c s)"
  by (rule partlyI) (auto simp: ep_update_def chan_def touches_def poller_change_iff res_simps split: option.splits)

text \<open>Two steps that touch one channel.\<close>

lemma touches_bindr:
  assumes "partly (touches stay c s) m" "\<And>t. touches stay c s t \<Longrightarrow> partly (touches stay c t) (k t)"
  shows "partly (touches stay c s) (bindr m k)"
  by (rule barring_bindr [OF assms(1)]) (use assms(2) touches_trans in \<open>blast intro: barring_mono\<close>)

lemma ep_updateChannel_touches: "partly (touches stay c s) (ep_updateChannel c s)"
proof -
  have add: "partly (touches stay c s') (bindr (upd_chan c (set_index kAdded) s') (ep_update EPOLL_CTL_ADD c))" for s' :: "('a, 'b) poller_scheme"
    by (rule touches_bindr [OF upd_chan_touches ep_update_touches])
  have del: "partly (touches stay c s) (bindr (ep_update EPOLL_CTL_DEL c s) (upd_chan c (set_index kDeleted)))"
    by (rule touches_bindr [OF ep_update_touches upd_chan_touches])
  have new: "touches stay c s (s\<lparr>pl_channels := (pl_channels s)(fd \<mapsto> c)\<rparr>)" if "pl_channels s fd = None" for fd
    using that by (auto simp: touches_def poller_change_iff)
  have added: "partly (touches stay c s) (bindr (upd_chan c (set_index kAdded) (s\<lparr>pl_channels := (pl_channels s)(fd \<mapsto> c)\<rparr>)) (ep_update EPOLL_CTL_ADD c))"
    if "pl_channels s fd = None" for fd
    by (rule barring_mono [OF add]) (rule touches_trans [OF new [OF that]])
  show ?thesis
    using add del added
    by (simp add: ep_update_touches ep_updateChannel_def chan_def Let_def ensure_def split: option.split)
qed

lemma ep_removeChannel_touches: "partly (touches False c s) (ep_removeChannel c s)"
proof -
  have gone: "touches False c s (s\<lparr>pl_channels := (pl_channels s)(fd := None)\<rparr>)" if "pl_channels s fd = Some c" for fd
    using that by (auto simp: touches_def poller_change_iff)
  have "partly (touches False c s') (bindr (if b then ep_update EPOLL_CTL_DEL c s' else Inr s') (upd_chan c (set_index kNew)))"
    for s' :: "('a, 'b) poller_scheme" and b
    by (rule touches_bindr [OF _ upd_chan_touches]) (simp add: ep_update_touches)
  then have "partly (touches False c s) (bindr (if b then ep_update EPOLL_CTL_DEL c (s\<lparr>pl_channels := (pl_channels s)(fd := None)\<rparr>)
      else Inr (s\<lparr>pl_channels := (pl_channels s)(fd := None)\<rparr>)) (upd_chan c (set_index kNew)))"
    if "pl_channels s fd = Some c" for fd b
    by (rule barring_mono) (rule touches_trans [OF gone [OF that]])
  then show ?thesis by (simp add: ep_removeChannel_def chan_def Let_def ensure_def split: option.split)
qed

lemma set_interest_touches: "partly (touches stay c s) (set_interest f c s)"
  unfolding set_interest_def ch_update_def loop_updateChannel_def
  by (intro touches_bindr upd_chan_touches) (simp add: chan_def ensure_def ep_updateChannel_touches split: option.split)

lemma ch_remove_touches: "partly (touches False c s) (ch_remove c s)"
proof -
  have "partly (touches False c s) (bindr (upd_chan c (addedToLoop_update (\<lambda>_. False)) s) (loop_removeChannel c))"
    by (rule touches_bindr [OF upd_chan_touches])
      (simp add: loop_removeChannel_def chan_def ensure_def ep_removeChannel_touches split: option.split)
  then show ?thesis by (simp add: ch_remove_def chan_def ensure_def split: option.split)
qed

section \<open>Operations of the connection\<close>

definition own_only :: "bool \<Rightarrow> ('u, 'm) conn \<Rightarrow> ('u, 'm) conn \<Rightarrow> bool" where
  "own_only stay s s' \<longleftrightarrow> tc_channel s' = tc_channel s \<and> lp_eventHandling s' = lp_eventHandling s \<and>
     wakeupChannel s' = wakeupChannel s \<and> timerfdChannel s' = timerfdChannel s \<and>
     (\<forall>d. d \<noteq> tc_channel s \<longrightarrow> chans s' d = chans s d) \<and>
     (\<forall>fd d. d \<noteq> tc_channel s \<longrightarrow> (pl_channels s' fd = Some d \<longleftrightarrow> pl_channels s fd = Some d)) \<and>
     (stay \<longrightarrow> (\<forall>fd. pl_channels s fd = Some (tc_channel s) \<longrightarrow> pl_channels s' fd = Some (tc_channel s)))"

lemma own_only_refl [simp]: "own_only stay s s"
  by (simp add: own_only_def)

lemma own_only_trans: "own_only stay s t \<Longrightarrow> own_only stay t u \<Longrightarrow> own_only stay s u"
  by (auto simp: own_only_def)

lemma own_only_channel: "own_only stay s s' \<Longrightarrow> tc_channel s' = tc_channel s"
  by (simp add: own_only_def)

lemma touches_own: "touches stay (tc_channel s) s s' \<Longrightarrow> own_only stay s s'"
  using timer_state_change [of s s']
  by (simp add: touches_def own_only_def timer_state_def tcp_fields_change(3) [of s s'] loop_fields_change(4,9) [of s s'])

lemma own_only_fields [simp]:
  "own_only stay s (s'\<lparr>tc_state := x1\<rparr>) = own_only stay s s'" "own_only stay s (s'\<lparr>outputBuffer := x2\<rparr>) = own_only stay s s'"
  "own_only stay s (s'\<lparr>inputBuffer := x3\<rparr>) = own_only stay s s'" "own_only stay s (s'\<lparr>wire := x4\<rparr>) = own_only stay s s'"
  "own_only stay s (s'\<lparr>write_answers := x5\<rparr>) = own_only stay s s'" "own_only stay s (s'\<lparr>read_answers := x6\<rparr>) = own_only stay s s'"
  "own_only stay s (s'\<lparr>user_bufs := x7\<rparr>) = own_only stay s s'" "own_only stay s (s'\<lparr>trace := x8\<rparr>) = own_only stay s s'"
  "own_only stay s (s'\<lparr>wr_shut := x9\<rparr>) = own_only stay s s'" "own_only stay s (s'\<lparr>tc_reading := x10\<rparr>) = own_only stay s s'"
  "own_only stay s (s'\<lparr>pendingFunctors := x11\<rparr>) = own_only stay s s'" "own_only stay s (s'\<lparr>eventfd_count := x12\<rparr>) = own_only stay s s'"
  "own_only stay s (s'\<lparr>callingPendingFunctors := x13\<rparr>) = own_only stay s s'" "own_only stay s (s'\<lparr>use_count := x14\<rparr>) = own_only stay s s'"
  by (simp_all add: own_only_def)

lemma own_only_timers [simp]:
  "own_only stay s (s'\<lparr>tq_heap := x1\<rparr>) = own_only stay s s'" "own_only stay s (s'\<lparr>numCreated := x2\<rparr>) = own_only stay s s'"
  "own_only stay s (s'\<lparr>timers := x3\<rparr>) = own_only stay s s'" "own_only stay s (s'\<lparr>activeTimers := x4\<rparr>) = own_only stay s s'"
  "own_only stay s (s'\<lparr>callingExpiredTimers := x5\<rparr>) = own_only stay s s'"
  "own_only stay s (s'\<lparr>cancelingTimers := x6\<rparr>) = own_only stay s s'" "own_only stay s (s'\<lparr>armed := x7\<rparr>) = own_only stay s s'"
  by (simp_all add: own_only_def)

lemma outside_own: "outside_queue s' = outside_queue s \<Longrightarrow> own_only stay s s'"
  by (drule outside_queue_eqD) (erule ssubst, simp)

lemma own_only_queue [simp]:
  "own_only stay s (queueInLoop self f s') = own_only stay s s'" "own_only stay s (queue_opt self g s') = own_only stay s s'"
  "own_only stay s (setState st s') = own_only stay s s'" "own_only stay s (shutdownWrite s') = own_only stay s s'"
  "own_only stay s (lock_ptr obj s') = own_only stay s s'"
  by (simp_all add: queueInLoop_def queue_wakeup_def queue_push_def wakeup_def queue_opt_def setState_def
    shutdownWrite_def lock_ptr_def split: option.split)

abbreviation framed :: "bool \<Rightarrow> ('u, 'm) conn \<Rightarrow> ('u, 'm) conn res \<Rightarrow> bool" where
  "framed stay s \<equiv> partly (own_only stay s)"

text \<open>Programs are composed: what the first part gives is a state the second starts from.\<close>

lemma framed_bindr:
  assumes "partly (\<lambda>x. own_only stay s (st x)) m" "\<And>x. own_only stay s (st x) \<Longrightarrow> framed stay (st x) (k x)"
  shows "framed stay s (bindr m k)"
  by (rule barring_bindr [OF assms(1)]) (use assms(2) own_only_trans in \<open>blast intro: barring_mono\<close>)

lemmas framed_seq = framed_bindr [where st = "\<lambda>x. x"]

lemma framed_from:
  assumes "own_only stay s t" "framed stay t m"
  shows "framed stay s m"
  by (rule barring_mono [OF assms(2) own_only_trans [OF assms(1)]])

lemma framed_own:
  "framed stay s (set_interest f (tc_channel s) s)" "framed False s (ch_remove (tc_channel s) s)" "framed stay s (upd_chan (tc_channel s) g s)"
  by (blast intro: barring_mono touches_own set_interest_touches ch_remove_touches upd_chan_touches)+

lemma framed_interest:
  "framed stay s (enableReading (tc_channel s) s)" "framed stay s (disableReading (tc_channel s) s)"
  "framed stay s (enableWriting (tc_channel s) s)" "framed stay s (disableWriting (tc_channel s) s)"
  "framed stay s (disableAll (tc_channel s) s)"
  by (simp_all add: interest_ops framed_own)

lemma sys_write_framed: "own_only stay s (snd (sys_write data s))"
  by (simp add: sys_write_def Let_def split: list.split write_answer.split)

lemma write_directly_framed: "own_only stay s (snd (snd (snd (write_directly self data s))))"
proof -
  obtain a s' where a: "sys_write data s = (a, s')" by (cases "sys_write data s")
  then have "own_only stay s s'" using sys_write_framed [of stay s data] by simp
  then show ?thesis using a by (simp add: write_directly_def Let_def split: write_answer.split)
qed

lemma buffer_rest_framed: "framed stay s (buffer_rest self data nwrote remaining s)"
proof -
  define s1 where "s1 = (if readableBytes (outputBuffer s) + remaining \<ge> highWaterMark s \<and> readableBytes (outputBuffer s) < highWaterMark s
               then queue_opt self
                 (map_option (\<lambda>cb. High_Water_Mark cb (readableBytes (outputBuffer s) + remaining)) (tc_highWaterMarkCallback s)) s
               else s)"
  have s1: "own_only stay s s1" by (simp add: s1_def)
  have "framed stay s (bindr (append_ptr (ptr_add (Ptr data 0) (int nwrote)) remaining (outputBuffer s1)) (\<lambda>b.
         let s = s1\<lparr>outputBuffer := b\<rparr>
         in bindr (chan (tc_channel s) s) (\<lambda>ch.
              if \<not> isWriting ch then enableWriting (tc_channel s) s else Inr s)))"
  proof (rule framed_bindr [where st = "\<lambda>b. s1\<lparr>outputBuffer := b\<rparr>"])
    show "partly (\<lambda>b. own_only stay s (s1\<lparr>outputBuffer := b\<rparr>)) (append_ptr (ptr_add (Ptr data 0) (int nwrote)) remaining (outputBuffer s1))"
      using s1 by (intro partlyI) simp
    fix b
    let ?s = "s1\<lparr>outputBuffer := b\<rparr>"
    have "framed stay ?s (enableWriting (tc_channel ?s) ?s)" by (rule framed_interest)
    then show "framed stay ?s (let s = s1\<lparr>outputBuffer := b\<rparr>
         in bindr (chan (tc_channel s) s) (\<lambda>ch. if \<not> isWriting ch then enableWriting (tc_channel s) s else Inr s))"
      by (simp add: Let_def chan_def split: option.split)
  qed
  then show ?thesis by (simp add: buffer_rest_def s1_def Let_def)
qed

lemma sendInLoop_framed: "framed stay s (sendInLoop self data s)"
proof -
  have "framed stay s (buffer_rest self data n r t)" if "own_only stay s t" for n r t
    using framed_from [OF that buffer_rest_framed] .
  moreover obtain n r f t where "write_directly self data s = (n, r, f, t)" by (cases "write_directly self data s")
  moreover have "own_only stay s t" if "write_directly self data s = (n, r, f, t)" for n r f t
    using write_directly_framed [of stay s self data] that by simp
  ultimately show ?thesis
    by (simp add: sendInLoop_def chan_def Let_def ensure_def split: option.split)
qed

lemma shutdownInLoop_framed: "framed stay s (shutdownInLoop s)"
  by (simp add: shutdownInLoop_def chan_def split: option.split)

lemma send_mem_framed: "framed stay s (send_mem_in_loop self m s)"
  by (simp add: send_mem_in_loop_def mem_at_def sendInLoop_framed split: option.split)

lemma send_buffer_in_loop_framed: "framed stay s (send_buffer_in_loop self b s)"
  unfolding send_buffer_in_loop_def
  by (rule framed_bindr [where st = "\<lambda>(data, buf). s\<lparr>user_bufs := (user_bufs s)(b := buf)\<rparr>"], rule partlyI)
    (auto simp: sendInLoop_framed)

lemma addTimer_framed: "framed stay s (addTimerInLoop clock a s)"
  by (rule partlyI) (auto simp: addTimerInLoop_def tq_insert_def timer_at_def ensure_def resetTimerfd_def own_only_def Let_def
    split: option.splits if_splits)

lemma tq_handleRead_framed:
  fixes s :: "('u, 'm) conn"
  assumes exec: "\<And>f s. framed stay s (exec (Run f) s)"
  shows "framed stay s (tq_handleRead exec now clock s)"
proof -
  have run: "framed stay s (run_timer exec e s)" for e and s :: "('u, 'm) conn"
    using exec by (simp add: run_timer_def timer_at_def split: option.split)
  have runs: "framed stay s (foldr_res (run_timer exec) es s)" for es and s :: "('u, 'm) conn"
    by (rule barring_foldr_res) (auto intro: framed_from [OF _ run])
  have reset: "framed stay t (reset clock es now (t\<lparr>callingExpiredTimers := False\<rparr>))" for es and t :: "('u, 'm) conn"
    by (rule framed_from [of _ _ "t\<lparr>callingExpiredTimers := False\<rparr>"], simp)
      (rule partlyI, drule reset_outside [where F = "\<lambda>_. True"], simp add: outside_own)
  show ?thesis
    unfolding tq_handleRead_def
  proof (rule framed_bindr [where st = snd])
    show "partly (\<lambda>x. own_only stay s (snd x)) (getExpired now (readTimerfd s))"
      by (rule partlyI) (auto simp: readTimerfd_def dest!: getExpired_outside intro: outside_own)
    fix x :: "entry list \<times> ('u, 'm) conn"
    obtain es t where x: "x = (es, t)" by (cases x)
    let ?t = "t\<lparr>callingExpiredTimers := True, cancelingTimers := {}\<rparr>"
    have "framed stay ?t (bindr (foldr_res (run_timer exec) es ?t) (\<lambda>s. reset clock es now (s\<lparr>callingExpiredTimers := False\<rparr>)))"
      by (rule framed_seq [OF runs reset])
    then have "framed stay t (bindr (foldr_res (run_timer exec) es ?t) (\<lambda>s. reset clock es now (s\<lparr>callingExpiredTimers := False\<rparr>)))"
      by (rule framed_from [rotated]) simp
    then show "framed stay (snd x) (case x of (expired, s) \<Rightarrow> let s = s\<lparr>callingExpiredTimers := True, cancelingTimers := {}\<rparr>
       in bindr (foldr_res (run_timer exec) expired s) (\<lambda>s. reset clock expired now (s\<lparr>callingExpiredTimers := False\<rparr>)))"
      by (simp add: x Let_def)
  qed
qed

lemma reading_framed:
  "framed stay s (startReadInLoop s)" "framed stay s (stopReadInLoop s)"
proof -
  have "framed stay s (bindr (enableReading (tc_channel s) s) (\<lambda>s. Inr (s\<lparr>tc_reading := b\<rparr>)))" for b
    by (rule framed_seq [OF framed_interest(1)]) simp
  then show "framed stay s (startReadInLoop s)" by (simp add: startReadInLoop_def chan_def split: option.split)
  have "framed stay s (bindr (disableReading (tc_channel s) s) (\<lambda>s. Inr (s\<lparr>tc_reading := b\<rparr>)))" for b
    by (rule framed_seq [OF framed_interest(2)]) simp
  then show "framed stay s (stopReadInLoop s)" by (simp add: stopReadInLoop_def chan_def split: option.split)
qed

lemma run_request_framed: "framed stay s (run_request self k s)"
proof (cases k)
  case (Run f)
  then show ?thesis
    by (cases f) (simp_all add: send_mem_framed send_buffer_in_loop_framed shutdownInLoop_framed reading_framed addTimer_framed)
qed simp_all

lemma runInLoop_framed: "framed stay s (runInLoop (run_request self) self' f s)"
  by (simp add: runInLoop_def run_request_framed)

lemma api_step_framed: "framed stay s (api_step t k s)"
proof (cases k)
  case (Api_Send m)
  then show ?thesis by (simp add: send_piece_def mem_at_def sendInLoop_framed runInLoop_framed split: option.split)
next
  case (Api_Send_Buffer b)
  have "framed stay s (bindr (sendInLoop t d s) (\<lambda>s. Inr (s\<lparr>user_bufs := (user_bufs s)(b := retrieveAll (user_bufs s b))\<rparr>)))" for d
    by (rule framed_seq [OF sendInLoop_framed]) simp
  then show ?thesis using Api_Send_Buffer by (simp add: send_buffer_def Let_def runInLoop_framed)
next
  case Api_Shutdown
  have "framed stay s (runInLoop (run_request t) t Shutdown_In_Loop (setState kDisconnecting s))"
    by (rule framed_from [OF _ runInLoop_framed]) simp
  then show ?thesis using Api_Shutdown by (simp add: shutdown_def)
qed (simp_all add: forceClose_def defaultMessageCallback_def)

lemma app_framed:
  assumes "app_ok self app"
  shows "framed stay s (app k s)"
proof -
  obtain calls where "app k s = foldr_res (api_step self) calls s" using assms by (auto simp: app_ok_def)
  moreover have "framed stay s (foldr_res (api_step self) calls s)"
    by (rule barring_foldr_res) (auto intro: framed_from [OF _ api_step_framed])
  ultimately show ?thesis by simp
qed

lemma call_back_framed:
  assumes "app_ok self app"
  shows "framed stay s (call_back app k cb s)"
proof -
  have "framed stay s (app (k u) (s\<lparr>trace := trace s @ [k u]\<rparr>))" for u
    by (rule framed_from [OF _ app_framed [OF assms]]) simp
  then show ?thesis by (simp add: call_back_def split: option.split)
qed

section \<open>Handlers\<close>

lemma delete_framed: "framed stay s (delete_TcpConnection self s)"
proof -
  have "framed stay s (delete_Channel self (tc_channel s) s)"
    by (rule partlyI) (auto simp: delete_Channel_def loop_hasChannel_def hasChannel_def res_simps ensure_def own_only_def
      split: if_splits)
  then show ?thesis by (simp add: delete_TcpConnection_def ensure_def)
qed

lemma release_framed:
  assumes "\<And>s. framed stay s (exec (Destroy obj) s)"
  shows "framed stay s (release_ptr exec obj s)"
proof -
  have "framed stay s (exec (Destroy obj) (s\<lparr>use_count := u\<rparr>))" for u
    by (rule framed_from [of _ _ "s\<lparr>use_count := u\<rparr>"]) (simp_all add: assms)
  then show ?thesis by (simp add: release_ptr_def Let_def)
qed

lemma handleClose_framed:
  assumes app: "app_ok self app"
  shows "framed stay s (handleClose app self s)"
proof -
  let ?s = "setState kDisconnected s"
  have "framed stay t (let s = lock_ptr (tc_obj t) t
           in bindr (call_back app On_Connection (tc_connectionCallback s) s) (\<lambda>s.
              bindr (call_back app On_Close (tc_closeCallback s) s) (\<lambda>s.
              release_ptr (\<lambda>_. delete_TcpConnection self) (tc_obj s) s)))" for t
    unfolding Let_def
    by (rule framed_from [of _ _ "lock_ptr (tc_obj t) t"], simp)
      (intro framed_seq call_back_framed [OF app] release_framed delete_framed)
  then have "framed stay ?s (bindr (disableAll (tc_channel ?s) ?s) (\<lambda>s.
           let s = lock_ptr (tc_obj s) s
           in bindr (call_back app On_Connection (tc_connectionCallback s) s) (\<lambda>s.
              bindr (call_back app On_Close (tc_closeCallback s) s) (\<lambda>s.
              release_ptr (\<lambda>_. delete_TcpConnection self) (tc_obj s) s))))"
    by (rule framed_seq [OF framed_interest(5)])
  then show ?thesis
    unfolding handleClose_def Let_def [of "setState kDisconnected s"] ensure_def
    using framed_from [of _ s ?s] by simp
qed

lemma handleRead_framed:
  assumes app: "app_ok self app"
  shows "framed stay s (handleRead app self t s)"
proof -
  obtain a s1 where a: "sys_readv s = (a, s1)" by (cases "sys_readv s")
  have s1: "own_only stay s s1" using a by (auto simp: sys_readv_def split: list.splits)
  have "framed stay s (bindr (readFd a (inputBuffer s1)) (\<lambda>(n, savedErrno, b).
            let s = s1\<lparr>inputBuffer := b\<rparr>
            in if n > 0 then call_back app (\<lambda>u. On_Message u t) (tc_messageCallback s) s
               else if n = 0 then handleClose app self s
               else handleError s))"
  proof (rule framed_bindr [where st = "\<lambda>(n, savedErrno, b). s1\<lparr>inputBuffer := b\<rparr>"])
    show "partly (\<lambda>x. own_only stay s (case x of (n, savedErrno, b) \<Rightarrow> s1\<lparr>inputBuffer := b\<rparr>)) (readFd a (inputBuffer s1))"
      using s1 by (intro partlyI) auto
  qed (auto simp: Let_def call_back_framed [OF app] handleClose_framed [OF app] handleError_def chan_def split: option.split)
  then show ?thesis by (simp add: handleRead_def chan_def a split: option.split)
qed

lemma handleWrite_framed:
  fixes s :: "('u, 'm) conn"
  shows "framed stay s (handleWrite self s)"
proof -
  let ?b = "outputBuffer s"
  obtain a s1 where a: "sys_write (region (peek ?b) (peek ?b + readableBytes ?b) ?b) s = (a, s1)" by fastforce
  have s1: "own_only stay s s1" using sys_write_framed [of stay s "region (peek ?b) (peek ?b + readableBytes ?b) ?b"] a by simp
  have done': "framed stay u (bindr (disableWriting (tc_channel u) u) (\<lambda>s.
                 let s = queue_opt self (map_option Write_Complete (tc_writeCompleteCallback s)) s
                 in if tc_state s = kDisconnecting then shutdownInLoop s else Inr s))" for u :: "('u, 'm) conn"
  proof (rule framed_seq [OF framed_interest(4)])
    fix v :: "('u, 'm) conn"
    let ?v = "queue_opt self (map_option Write_Complete (tc_writeCompleteCallback v)) v"
    have "framed stay v (shutdownInLoop ?v)" by (rule framed_from [OF _ shutdownInLoop_framed]) simp
    then show "framed stay v (let s = ?v in if tc_state s = kDisconnecting then shutdownInLoop s else Inr s)"
      by (simp add: Let_def)
  qed
  have "framed stay s (bindr (retrieve (of_nat n) (outputBuffer s1)) (\<lambda>b.
         let s = s1\<lparr>outputBuffer := b\<rparr>
         in if readableBytes (outputBuffer s) = 0
            then bindr (disableWriting (tc_channel s) s) (\<lambda>s.
                 let s = queue_opt self (map_option Write_Complete (tc_writeCompleteCallback s)) s
                 in if tc_state s = kDisconnecting then shutdownInLoop s else Inr s)
            else Inr s))" for n
  proof (rule framed_bindr [where st = "\<lambda>b. s1\<lparr>outputBuffer := b\<rparr>"])
    show "partly (\<lambda>b. own_only stay s (s1\<lparr>outputBuffer := b\<rparr>)) (retrieve (of_nat n) (outputBuffer s1))"
      using s1 by (intro partlyI) simp
  next
    fix b
    show "framed stay (s1\<lparr>outputBuffer := b\<rparr>) (let s = s1\<lparr>outputBuffer := b\<rparr>
         in if readableBytes (outputBuffer s) = 0
            then bindr (disableWriting (tc_channel s) s) (\<lambda>s.
                 let s = queue_opt self (map_option Write_Complete (tc_writeCompleteCallback s)) s
                 in if tc_state s = kDisconnecting then shutdownInLoop s else Inr s)
            else Inr s)"
      using done' [of "s1\<lparr>outputBuffer := b\<rparr>"] by (simp add: Let_def)
  qed
  then show ?thesis
    using s1 by (simp add: handleWrite_def chan_def a split: option.split write_answer.split)
qed

lemma weak_framed: "framed stay s (weak_callback (\<lambda>_. delete_TcpConnection self) obj (\<lambda>s. Inr (forceClose self s)) s)"
proof -
  have "framed stay s (release_ptr (\<lambda>_. delete_TcpConnection self) obj (forceClose self (lock_ptr obj s)))"
    by (rule framed_from [OF _ release_framed [OF delete_framed]]) (simp add: forceClose_def)
  then show ?thesis by (simp add: weak_callback_def)
qed

lemma run_task_framed:
  assumes app: "app_ok self app"
  shows "framed stay s (run_task app self k s)"
proof -
  have "framed stay s (run_task app self (Run f) s)" for f
    by (cases f) (simp_all add: send_mem_framed send_buffer_in_loop_framed shutdownInLoop_framed reading_framed addTimer_framed handleWrite_framed handleClose_framed [OF app]
      handleError_def chan_def forceCloseInLoop_def weak_framed call_back_framed [OF app] split: option.split)
  moreover have "framed stay s (run_task app self (Run_Read f t) s)" for f t
    by (cases f) (simp_all add: handleRead_framed [OF app])
  moreover have "framed stay s (run_task app self (Destroy obj) s)" for obj
    by (simp add: delete_framed)
  ultimately show ?thesis by (cases k) simp_all
qed

section \<open>Leaving the loop\<close>

lemma taken_off_loop:
  assumes ok: "conn_ok self s" and idle: "\<not> lp_eventHandling s" and st: "tc_state s = kDisconnected"
    and ch: "chans s (tc_channel s) = Some ch" and reg: "pl_channels s (ch_fd ch) = Some (tc_channel s)"
  shows "\<exists>s'. ch_remove (tc_channel s) s = Inr s' \<and> evolves self s s'"
proof -
  have link: "wired ch" "isNoneEvent ch"
    using conn_channel [OF ok] ch st by (auto simp: link_ok_def)
  obtain s' where s': "ch_remove (tc_channel s) s = Inr s'" "loop_ok s'" "poller_change s s'"
    using ch_remove_ok [OF conn_okD(1) [OF ok] ch reg link(2)] idle
    by (auto simp: view_channel_def)
  note same = tcp_fields_change [OF s'(3)] loop_fields_change [OF s'(3)]
  note chans' = ch_remove_chans [OF s'(1) ch]
  have "conn_ok self s'"
    using ok s'(2) chans' link st
    by (simp add: conn_ok_def same callbacks_set_def memory_ok_def link_ok_def wired_def isNoneEvent_def
      kNew_def kAdded_def)
  then show ?thesis
    using s'(1) chans' ch by (simp add: evolves_def same taken_def)
qed

lemma connectDestroyed_ok:
  assumes app: "app_ok self app" and ok: "conn_ok self s" and idle: "\<not> lp_eventHandling s"
    and st: "tc_state s = kConnected \<or> tc_state s = kDisconnected \<and> registered s"
  shows "limited (evolves self s) (connectDestroyed app s)"
proof (cases "tc_state s = kConnected")
  case False
  then show ?thesis
    using taken_off_loop [OF ok idle] st by (auto simp: registered_def connectDestroyed_def)
next
  case True
  then have live: "live s" by (simp add: live_def)
  obtain ch where ch: "chans s (tc_channel s) = Some ch"
      "link_ok (tc_state s) (contents (outputBuffer s)) (tc_obj s) (tc_channel s) (pl_channels s) ch"
    by (rule conn_channel [OF ok])
  obtain u where u: "tc_connectionCallback s = Some u" using conn_okD(5) [OF ok] by (auto simp: callbacks_set_def)
  obtain s2 where s2: "disableAll (tc_channel s) (setState kDisconnected s) = Inr s2"
      "conn_ok self (told (On_Connection u) s2)" "poller_change (setState kDisconnected s) s2"
      "map_option ch_revents (chans s2 (tc_channel s)) = map_option ch_revents (chans s (tc_channel s))"
      "registered s2"
    using go_down [OF ok live, of u] by blast
  note same = tcp_fields_change [OF s2(3)]
  have ev0: "evolves self s (told (On_Connection u) s2)"
    using s2(2,4) by (simp add: evolves_def same setState_def) (simp add: taken_def same setState_def)
  have idle2: "\<not> lp_eventHandling s2" using idle loop_fields_change(4) [OF s2(3)] by (simp add: setState_def)
  have "limited (evolves self s) (bindr (call_back app On_Connection (Some u) s2) (\<lambda>s. ch_remove (tc_channel s) s))"
  proof (rule barring_bindr [OF barring_conj [OF call_back_kept [where k = On_Connection and u = u, OF app s2(2)]
          call_back_framed [OF app]]])
    fix s3 assume "kept self (told (On_Connection u) s2) s3 \<and> own_only False s2 s3"
    then have k: "kept self (told (On_Connection u) s2) s3" and idle3: "\<not> lp_eventHandling s3"
      using idle2 by (simp_all add: own_only_def)
    then have "tc_state s3 = kDisconnected" "registered s3"
      using s2(5) by (auto simp: kept_def api_frame_def registered_def same setState_def)
    then obtain s4 where "ch_remove (tc_channel s3) s3 = Inr s4" "evolves self s3 s4"
      using taken_off_loop [of self s3] k idle3 by (auto simp: registered_def kept_def)
    then show "limited (evolves self s) (ch_remove (tc_channel s3) s3)"
      using evolves_trans [OF ev0 evolves_trans [OF kept_evolves [OF k]]] by simp
  qed
  then show ?thesis
    using s2(1) True by (simp add: connectDestroyed_def Let_def setState_def same u)
qed

end
