(* ===== verification/ConnectionRuns.thy ===== *)
theory ConnectionRuns
  imports ConnectionFrame
begin

text \<open>
  Runs of a connection: what its owner, its loop, the kernel and the application do to it.  The step
  of a run is \<open>conn_step\<close>; \<open>conn_promised\<close> is what the environment promises at the state it is in, and
  \<open>conn_fault\<close> says which calls of the owner fail there.  \<open>admissible\<close> picks the events that cannot fail,
  for the properties about runs in which nobody calls at the wrong time.
\<close>

section \<open>Events\<close>

datatype conn_event =
    Establish
  | Destroy_Connection
  | Io_Event mask timestamp
  | Pending_Batch
  | Call_From nat api_call

fun conn_step :: "('u, 'm) app \<Rightarrow> nat \<Rightarrow> conn_event \<Rightarrow> ('u, 'm) conn \<Rightarrow> ('u, 'm) conn res" where
  "conn_step app self Establish s = connectEstablished app s"
| "conn_step app self Destroy_Connection s = connectDestroyed app s"
| "conn_step app self (Io_Event m t) s =
     bindr (upd_chan (tc_channel s) (set_revents m) s) (handleEvent (run_task app self) (tc_channel s) t)"
| "conn_step app self Pending_Batch s = doPendingFunctors (run_task app self) s"
| "conn_step app self (Call_From t k) s = api_step t k s"

text \<open>
  The kernel reports a descriptor it watches for this channel.  A hang-up without \<open>POLLIN\<close> comes alone
  or with errors and \<open>POLLOUT\<close>: \<open>kReadEvent\<close> does not ask for \<open>POLLRDHUP\<close>, and a TCP socket reports
  \<open>POLLIN\<close> as soon as its receiving side is shut down, which a hang-up implies.  The code relies on it:
  \<open>hang_up_with_urgent_data\<close> below shows what its dispatch does otherwise.
\<close>

definition polled :: "mask \<Rightarrow> ('u, 'm) conn \<Rightarrow> bool" where
  "polled m s \<longleftrightarrow>
     (case chans s (tc_channel s) of
        None \<Rightarrow> False
      | Some ch \<Rightarrow> (case watched s (ch_fd ch) of None \<Rightarrow> False | Some (_, c) \<Rightarrow> c = tc_channel s)) \<and>
     (has m POLLHUP \<and> \<not> has m POLLIN \<longrightarrow> \<not> has m POLLPRI \<and> \<not> has m POLLRDHUP)"

definition is_registered :: "('u, 'm) conn \<Rightarrow> bool" where
  "is_registered s \<longleftrightarrow>
     (case chans s (tc_channel s) of None \<Rightarrow> False | Some ch \<Rightarrow> pl_channels s (ch_fd ch) = Some (tc_channel s))"

text \<open>
  What the environment promises: events are \<open>polled\<close>; \<open>connectDestroyed\<close> is a functor, so it never runs
  while the loop dispatches events; and \<open>connectEstablished\<close> is the first functor of a connection, which
  nobody else knows before.  Nothing is promised of when the owner calls.
\<close>

fun conn_promised :: "conn_event \<Rightarrow> ('u, 'm) conn \<Rightarrow> bool" where
  "conn_promised Destroy_Connection s \<longleftrightarrow> \<not> lp_eventHandling s"
| "conn_promised (Io_Event m t) s \<longleftrightarrow> polled m s"
| "conn_promised Pending_Batch s \<longleftrightarrow> tc_state s \<noteq> kConnecting"
| "conn_promised _ s \<longleftrightarrow> True"

text \<open>
  The calls of the owner that fail: \<open>connectEstablished\<close> a second time; \<open>connectDestroyed\<close> on a connection
  that is shutting down, whose channel it does not switch off; and \<open>connectDestroyed\<close> on one whose
  channel is not on the loop, because it was never established or is destroyed already.
\<close>

fun conn_fault :: "conn_event \<Rightarrow> ('u, 'm) conn \<Rightarrow> fault option" where
  "conn_fault Establish s = (if tc_state s = kConnecting then None else Some (Assert_Failed ''connectEstablished''))"
| "conn_fault Destroy_Connection s =
     (if tc_state s = kDisconnecting then Some (Assert_Failed ''remove: isNoneEvent'')
      else if tc_state s = kConnected \<or> is_registered s then None
      else case chans s (tc_channel s) of
             None \<Rightarrow> None
           | Some ch \<Rightarrow> Some (Assert_Failed
               (if pl_channels s (ch_fd ch) = None then ''removeChannel: known'' else ''removeChannel: same'')))"
| "conn_fault _ s = None"


text \<open>The events that are promised and do not fail.\<close>

fun admissible :: "conn_event \<Rightarrow> ('u, 'm) conn \<Rightarrow> bool" where
  "admissible Establish s \<longleftrightarrow> tc_state s = kConnecting"
| "admissible Destroy_Connection s \<longleftrightarrow> \<not> lp_eventHandling s \<and>
     (tc_state s = kConnected \<or> tc_state s = kDisconnected \<and> is_registered s)"
| "admissible (Io_Event m t) s \<longleftrightarrow> polled m s"
| "admissible Pending_Batch s \<longleftrightarrow> tc_state s \<noteq> kConnecting"
| "admissible (Call_From t k) s \<longleftrightarrow> True"

definition guarded_step :: "('u, 'm) app \<Rightarrow> nat \<Rightarrow> conn_event \<Rightarrow> ('u, 'm) conn \<Rightarrow> ('u, 'm) conn res" where
  "guarded_step app self ev s = (if admissible ev s then conn_step app self ev s else Inr s)"

section \<open>Every event keeps the invariant\<close>

text \<open>\<open>evolves\<close> without the events of the channel.\<close>

definition advances :: "nat \<Rightarrow> ('u, 'm) conn \<Rightarrow> ('u, 'm) conn \<Rightarrow> bool" where
  "advances self s s' \<longleftrightarrow>
     conn_ok self s' \<and> timer_state s' = timer_state s \<and> tc_channel s' = tc_channel s \<and> tc_obj s' = tc_obj s \<and> use_count s' = use_count s \<and>
     rank (tc_state s) \<le> rank (tc_state s') \<and> prefix (taken s) (taken s') \<and> prefix (trace s) (trace s')"

lemma advances_refl: "conn_ok self s \<Longrightarrow> advances self s s"
  by (simp add: advances_def)

lemma advances_trans: "advances self s t \<Longrightarrow> advances self t u \<Longrightarrow> advances self s u"
  unfolding advances_def by (auto intro: prefix_order.trans)

lemma evolves_advances: "evolves self s s' \<Longrightarrow> advances self s s'"
  by (simp add: evolves_def advances_def)

lemma advances_up: "advances self s s' \<Longrightarrow> tc_state s \<noteq> kConnecting \<Longrightarrow> tc_state s' \<noteq> kConnecting"
  unfolding advances_def by (metis le_zero_eq rank_0)

lemma registered_eq: "is_registered s = registered s"
  by (auto simp: is_registered_def registered_def split: option.splits)

lemma polled_live:
  assumes ok: "conn_ok self s" and m: "polled m s"
  shows "live s"
proof -
  obtain ch where ch: "chans s (tc_channel s) = Some ch"
      "link_ok (tc_state s) (contents (outputBuffer s)) (tc_obj s) (tc_channel s) (pl_channels s) ch"
    by (rule conn_channel [OF ok])
  then show ?thesis
    using m by (auto simp: polled_def watched_def link_ok_def live_def split: option.splits conn_state.splits if_splits)
qed

text \<open>Changes of the channel that only its dispatch sees.\<close>

definition same_channel :: "'f channel \<Rightarrow> 'f channel \<Rightarrow> bool" where
  "same_channel ch ch' \<longleftrightarrow> ch' = ch\<lparr>ch_revents := ch_revents ch', ch_eventHandling := ch_eventHandling ch'\<rparr>"

lemma same_channelD:
  assumes "same_channel ch ch'"
  shows "ch_fd ch' = ch_fd ch" "ch_index ch' = ch_index ch" "ch_events ch' = ch_events ch" "ch_loop ch' = ch_loop ch"
    "addedToLoop ch' = addedToLoop ch" "tied ch' = tied ch" "tie_ptr ch' = tie_ptr ch" "wired ch' = wired ch"
  by (subst assms [unfolded same_channel_def], simp add: wired_def)+

lemma put_chan_conn_ok:
  assumes ok: "conn_ok self s" and ch: "chans s (tc_channel s) = Some ch" and same: "same_channel ch ch'"
  shows "conn_ok self (put_chan (tc_channel s) ch' s)"
proof -
  note sd = same_channelD [OF same]
  have "loop_ok (put_chan (tc_channel s) ch' s)"
    by (rule put_chan_loop_ok [OF conn_okD(1) [OF ok] ch sd(1-5)])
  then show ?thesis
    using ok ch sd
    by (auto simp: conn_ok_def put_chan_def callbacks_set_def memory_ok_def link_ok_def isNoneEvent_def isReading_def
      isWriting_def split: conn_state.splits)
qed

text \<open>A runner that does with the connection's callbacks and functors what \<open>run_task\<close> does.\<close>

definition serves :: "('u, 'm) app \<Rightarrow> nat \<Rightarrow> ('u task, ('u, 'm) conn) runner \<Rightarrow> bool" where
  "serves app self exec \<longleftrightarrow>
     (\<forall>s. exec (Run Conn_Handle_Close) s = handleClose app self s \<and> exec (Run Conn_Handle_Error) s = handleError s \<and>
        exec (Run Conn_Handle_Write) s = handleWrite self s) \<and>
     (\<forall>t s. exec (Run_Read Conn_Handle_Read t) s = handleRead app self t s) \<and>
     (\<forall>obj s. exec (Destroy obj) s = delete_TcpConnection self s) \<and>
     (\<forall>f s. task_ok f \<longrightarrow> exec (Run f) s = run_task app self (Run f) s)"

lemma servesD:
  assumes "serves app self exec"
  shows "exec (Run Conn_Handle_Close) s = handleClose app self s" "exec (Run Conn_Handle_Error) s = handleError s"
    "exec (Run Conn_Handle_Write) s = handleWrite self s" "exec (Run_Read Conn_Handle_Read t) s = handleRead app self t s"
    "exec (Destroy obj) s = delete_TcpConnection self s" "task_ok f \<Longrightarrow> exec (Run f) s = run_task app self (Run f) s"
  using assms by (simp_all add: serves_def)

lemma run_task_serves: "serves app self (run_task app self)"
  by (simp add: serves_def)

lemma dispatch_ok:
  assumes app: "app_ok self app" and exec: "serves app self exec" and ok: "conn_ok self s" and live: "live s"
    and ch: "chans s (tc_channel s) = Some ch" "ch_revents ch = m"
    and m: "has m POLLHUP \<and> \<not> has m POLLIN \<longrightarrow> \<not> has m POLLPRI \<and> \<not> has m POLLRDHUP"
  shows "limited (advances self s) (handleEventWithGuard exec (tc_channel s) t s)"
proof -
  let ?c = "tc_channel s" and ?exec = exec
  note run = servesD(1-5) [OF exec]
  let ?hup = "has m POLLHUP \<and> \<not> has m POLLIN"
  define s0 where "s0 = put_chan ?c (ch\<lparr>ch_eventHandling := True\<rparr>) s"
  have ok0: "conn_ok self s0"
    unfolding s0_def by (rule put_chan_conn_ok [OF ok ch(1)]) (simp add: same_channel_def)
  have ev0: "advances self s s0" using ok0 by (simp add: s0_def advances_def put_chan_def taken_def)
  have here: "\<exists>x. chans s1 ?c = Some x \<and> ch_revents x = m \<and> wired x \<and> tc_channel s1 = ?c" if "evolves self s0 s1" for s1
  proof -
    have "map_option ch_revents (chans s1 ?c) = Some m" "conn_ok self s1" "tc_channel s1 = ?c"
      using that ch(2) by (simp_all add: evolves_def s0_def put_chan_def)
    then show ?thesis using conn_okD(10) [of self s1] by (auto simp: link_ok_def)
  qed
  let ?P1 = "\<lambda>s1. evolves self s0 s1 \<and> (live s1 \<or> ?hup \<and> tc_state s1 = kDisconnected)"
  let ?P3 = "\<lambda>s1. evolves self s0 s1 \<and> tc_state s1 \<noteq> kConnecting"
  have P13: "?P3 s1" if "?P1 s1" for s1 using that by (auto simp: live_def)
  show ?thesis
    unfolding handleEventWithGuard_def upd_chan_Some [OF ch(1)] bindr.simps s0_def [symmetric]
  proof (rule barring_bindr [where P = ?P1])
    have live0: "live s0" "tc_channel s0 = ?c" using live by (simp_all add: s0_def live_def put_chan_def)
    obtain x where x: "chans s0 ?c = Some x" "ch_revents x = m" "wired x" using here [OF evolves_refl [OF ok0]] by auto
    show "limited ?P1 (fire ?exec ?c (\<lambda>r. has r POLLHUP \<and> \<not> has r POLLIN) (\<lambda>ch. map_option Run (closeCallback ch)) s0)"
      by (rule fire_barring [OF x(1)])
        (use x handleClose_ok [OF app ok0 live0(1)] live0 ok0 in
          \<open>auto simp: run wired_def evolves_refl elim!: barring_mono\<close>)
  next
    fix s1 assume s1: "?P1 s1"
    then have ok1: "conn_ok self s1" using evolves_ok by blast
    obtain x where x: "chans s1 ?c = Some x" "ch_revents x = m" "wired x" using here s1 by blast
    have err: "limited ?P1 (fire ?exec ?c (\<lambda>r. has r (POLLERR OR POLLNVAL)) (\<lambda>ch. map_option Run (errorCallback ch)) s1)"
      by (rule fire_barring [OF x(1)]) (use x s1 handleError_eq [OF ok1] in \<open>simp_all add: run wired_def\<close>)
    show "limited (advances self s)
       (bindr (fire ?exec ?c (\<lambda>r. has r (POLLERR OR POLLNVAL)) (\<lambda>ch. map_option Run (errorCallback ch)) s1) (\<lambda>s.
        bindr (fire ?exec ?c (\<lambda>r. has r (POLLIN OR POLLPRI OR POLLRDHUP))
              (\<lambda>ch. map_option (\<lambda>f. Run_Read f t) (readCallback ch)) s) (\<lambda>s.
        bindr (fire ?exec ?c (\<lambda>r. has r POLLOUT) (\<lambda>ch. map_option Run (writeCallback ch)) s) (\<lambda>s.
        upd_chan ?c (ch_eventHandling_update (\<lambda>_. False)) s))))"
    proof (rule barring_bindr [OF err])
      fix s2 assume s2: "?P1 s2"
      then have ok2: "conn_ok self s2" using evolves_ok by blast
      obtain x where x: "chans s2 ?c = Some x" "ch_revents x = m" "wired x" using here s2 by blast
      have "limited ?P3 (handleRead app self t s2)" if "has m (POLLIN OR POLLPRI OR POLLRDHUP)"
      proof -
        have l2: "live s2" using s2 that m by (auto simp: has_OR)
        show ?thesis
        proof (rule barring_mono [OF handleRead_ok [OF app ok2 l2]])
          fix s3 assume "evolves self s2 s3"
          then show "?P3 s3" using s2 evolves_trans evolves_up live_not_connecting [OF l2] by blast
        qed
      qed
      then have read: "limited ?P3 (fire ?exec ?c (\<lambda>r. has r (POLLIN OR POLLPRI OR POLLRDHUP))
          (\<lambda>ch. map_option (\<lambda>f. Run_Read f t) (readCallback ch)) s2)"
        by (intro fire_barring [OF x(1)]) (use x s2 in \<open>auto simp: run wired_def live_def\<close>)
      show "limited (advances self s)
         (bindr (fire ?exec ?c (\<lambda>r. has r (POLLIN OR POLLPRI OR POLLRDHUP))
              (\<lambda>ch. map_option (\<lambda>f. Run_Read f t) (readCallback ch)) s2) (\<lambda>s.
          bindr (fire ?exec ?c (\<lambda>r. has r POLLOUT) (\<lambda>ch. map_option Run (writeCallback ch)) s) (\<lambda>s.
          upd_chan ?c (ch_eventHandling_update (\<lambda>_. False)) s)))"
      proof (rule barring_bindr [OF read])
        fix s3 assume s3: "?P3 s3"
        then have ok3: "conn_ok self s3" using evolves_ok by blast
        obtain x where x: "chans s3 ?c = Some x" "ch_revents x = m" "wired x" using here s3 by blast
        have wr: "limited (evolves self s3) (fire ?exec ?c (\<lambda>r. has r POLLOUT) (\<lambda>ch. map_option Run (writeCallback ch)) s3)"
          by (rule fire_barring [OF x(1)])
            (use x s3 handleWrite_ok [OF ok3] evolves_refl [OF ok3] in \<open>auto simp: run wired_def\<close>)
        show "limited (advances self s)
           (bindr (fire ?exec ?c (\<lambda>r. has r POLLOUT) (\<lambda>ch. map_option Run (writeCallback ch)) s3) (\<lambda>s.
            upd_chan ?c (ch_eventHandling_update (\<lambda>_. False)) s))"
        proof (rule barring_bindr [OF wr])
          fix s4 assume "evolves self s3 s4"
          then have s4: "evolves self s0 s4" using s3 evolves_trans by blast
          then obtain x where x: "chans s4 ?c = Some x" "tc_channel s4 = ?c" using here by blast
          have "conn_ok self (put_chan ?c (x\<lparr>ch_eventHandling := False\<rparr>) s4)"
            using put_chan_conn_ok [OF evolves_ok [OF s4], of x] x by (simp add: same_channel_def)
          then have "advances self s4 (put_chan ?c (x\<lparr>ch_eventHandling := False\<rparr>) s4)"
            by (simp add: advances_def put_chan_def taken_def)
          then show "limited (advances self s) (upd_chan ?c (ch_eventHandling_update (\<lambda>_. False)) s4)"
            using advances_trans [OF ev0 advances_trans [OF evolves_advances [OF s4]]] by (simp add: upd_chan_Some [OF x(1)])
        qed
      qed
    qed
  qed
qed

lemma handleEvent_ok:
  assumes app: "app_ok self app" and exec: "serves app self exec" and ok: "conn_ok self s" and live: "live s"
    and ch: "chans s (tc_channel s) = Some ch" "ch_revents ch = m"
    and m: "has m POLLHUP \<and> \<not> has m POLLIN \<longrightarrow> \<not> has m POLLPRI \<and> \<not> has m POLLRDHUP"
  shows "limited (advances self s) (handleEvent exec (tc_channel s) t s)"
proof -
  let ?obj = "tc_obj s"
  have tie: "tied ch" "tie_ptr ch = Some ?obj"
    using conn_okD(10) [OF ok] ch(1) live_link(4,5) [OF live] by auto
  note n = conn_okD(4) [OF ok]
  let ?l = "lock_ptr ?obj s"
  have l: "conn_ok self ?l" "live ?l" "chans ?l (tc_channel ?l) = Some ch" "tc_channel ?l = tc_channel s"
    using conn_ok_lock [OF ok] live ch by (simp_all add: lock_ptr_def live_def)
  from dispatch_ok [OF app exec l(1-3) ch(2) m, of t]
  have "limited (advances self s) (bindr (handleEventWithGuard exec (tc_channel s) t ?l)
      (release_ptr exec ?obj))"
    unfolding l(4)
  proof (rule barring_bindr)
    fix s' assume s': "advances self ?l s'"
    then have uc: "use_count s' = (use_count s)(?obj := Suc (use_count s ?obj))" "tc_obj s' = ?obj"
      by (simp_all add: advances_def lock_ptr_def)
    have "conn_ok self s'" using s' by (simp add: advances_def)
    from conn_ok_unlock [OF this] have "conn_ok self (s'\<lparr>use_count := (use_count s')(?obj := use_count s' ?obj - 1)\<rparr>)"
      using uc n by simp
    then show "limited (advances self s) (release_ptr exec ?obj s')"
      using s' uc n by (simp add: release_ptr_def servesD(5) [OF exec] advances_def lock_ptr_def fun_upd_idem taken_def)
  qed
  then show ?thesis using n tie ch(1) by (simp add: handleEvent_def chan_Some)
qed

lemma io_event_ok:
  assumes app: "app_ok self app" and ok: "conn_ok self s" and m: "polled m s"
  shows "limited (advances self s) (conn_step app self (Io_Event m t) s)"
proof -
  let ?c = "tc_channel s"
  obtain ch where ch: "chans s ?c = Some ch" by (rule conn_channel [OF ok])
  let ?s = "put_chan ?c (set_revents m ch) s"
  have ok': "conn_ok self ?s"
    by (rule put_chan_conn_ok [OF ok ch]) (simp add: same_channel_def set_revents_def)
  have live: "live ?s" using polled_live [OF ok m] by (simp add: live_def put_chan_def)
  have adv: "advances self s ?s" using ok' by (simp add: advances_def put_chan_def taken_def)
  have "limited (advances self ?s) (handleEvent (run_task app self) (tc_channel ?s) t ?s)"
    by (rule handleEvent_ok [OF app run_task_serves ok' live])
      (use m in \<open>auto simp: put_chan_def set_revents_def polled_def\<close>)
  then have "limited (advances self s) (handleEvent (run_task app self) (tc_channel ?s) t ?s)"
    by (rule barring_mono) (rule advances_trans [OF adv])
  then show ?thesis by (simp add: upd_chan_Some [OF ch] put_chan_def)
qed

lemma conn_ok_calling [simp]: "conn_ok self (s\<lparr>callingPendingFunctors := b\<rparr>) = conn_ok self s"
  by (simp add: conn_ok_def callbacks_set_def memory_ok_def)

lemma batch_ok:
  assumes app: "app_ok self app" and exec: "serves app self exec" and ok: "conn_ok self s" and st: "tc_state s \<noteq> kConnecting"
  shows "limited (advances self s) (doPendingFunctors exec s)"
proof -
  let ?s = "s\<lparr>callingPendingFunctors := True, pendingFunctors := []\<rparr>"
  have ok': "conn_ok self ?s" using ok by (simp add: conn_ok_def callbacks_set_def memory_ok_def)
  have "limited (advances self s) (foldr_res (\<lambda>f. exec (Run f)) (pendingFunctors s) ?s)"
  proof (rule barring_foldr_res)
    show "advances self s ?s" using ok' by (simp add: advances_def taken_def)
  next
    fix f s1 assume "f \<in> set (pendingFunctors s)" and s1: "advances self s s1"
    then have "task_ok f" "conn_ok self s1" "tc_state s1 \<noteq> kConnecting"
      using conn_okD(7) [OF ok] advances_up [OF s1 st] by (auto simp: advances_def)
    from run_task_ok [OF app this(2,3,1)]
    show "limited (advances self s) (exec (Run f) s1)"
      unfolding servesD(6) [OF exec \<open>task_ok f\<close>] by (rule barring_mono) (rule advances_trans [OF s1 evolves_advances])
  qed
  then have "limited (advances self s) (bindr (foldr_res (\<lambda>f. exec (Run f)) (pendingFunctors s) ?s)
      (\<lambda>s. Inr (s\<lparr>callingPendingFunctors := False\<rparr>)))"
    by (rule barring_bindr) (simp add: advances_def)
  then show ?thesis by (simp add: doPendingFunctors_def)
qed

text \<open>An event that nobody is to blame for.\<close>

lemma conn_step_ok:
  assumes app: "app_ok self app" and ok: "conn_ok self s" and promise: "conn_promised ev s" and none: "conn_fault ev s = None"
  shows "limited (advances self s) (conn_step app self ev s)"
proof (cases ev)
  case Establish
  then have "tc_state s = kConnecting" using none by (simp split: if_splits)
  then show ?thesis using barring_mono [OF connectEstablished_ok [OF app ok] evolves_advances] Establish by simp
next
  case Destroy_Connection
  obtain ch where ch: "chans s (tc_channel s) = Some ch"
      "link_ok (tc_state s) (contents (outputBuffer s)) (tc_obj s) (tc_channel s) (pl_channels s) ch"
    by (rule conn_channel [OF ok])
  then have "tc_state s \<noteq> kConnecting \<or> \<not> is_registered s" by (auto simp: link_ok_def is_registered_def)
  then have "tc_state s = kConnected \<or> tc_state s = kDisconnected \<and> is_registered s"
    using none ch(1) Destroy_Connection by (cases "tc_state s") (simp_all split: if_splits)
  then show ?thesis
    using barring_mono [OF connectDestroyed_ok [OF app ok] evolves_advances] promise Destroy_Connection
    by (simp add: registered_eq)
next
  case (Io_Event m t)
  then show ?thesis using io_event_ok [OF app ok] promise by simp
next
  case Pending_Batch
  then show ?thesis using batch_ok [OF app run_task_serves ok] promise by simp
next
  case (Call_From t k)
  have "limited (advances self s) (api_step t k s)"
    by (rule barring_mono [OF api_step_kept [OF ok]]) (rule evolves_advances [OF kept_evolves])
  then show ?thesis using Call_From by simp
qed


lemma admissible_no_fault: "admissible ev s \<Longrightarrow> conn_promised ev s \<and> conn_fault ev s = None"
  by (cases ev) auto

lemma guarded_step_ok:
  assumes app: "app_ok self app" and adv: "advances self s0 s"
  shows "limited (advances self s0) (guarded_step app self ev s)"
proof -
  have ok: "conn_ok self s" using adv by (simp add: advances_def)
  have "limited (advances self s) (guarded_step app self ev s)"
    using conn_step_ok [OF app ok, of ev] admissible_no_fault [of ev s] advances_refl [OF ok] by (auto simp: guarded_step_def)
  then show ?thesis by (rule barring_mono) (rule advances_trans [OF adv])
qed

interpretation connection: service "\<lambda>e. e = Length_Error" "advances self s0" "\<lambda>_. app_ok self app"
  "guarded_step app self" for self app s0
  by unfold_locales (rule guarded_step_ok)


lemma run_advances:
  assumes "conn_ok self s" "app_ok self app"
  shows "limited (advances self s) (foldr_res (guarded_step app self) evs s)"
  using connection.run_safe [where self = self and ?s0.0 = s and s = s and app = app and ops = evs] advances_refl assms by blast

section \<open>A new connection\<close>

lemma wired_new: "wired (wire_callbacks ch)"
  by (simp add: wired_def wire_callbacks_def setErrorCallback_def setCloseCallback_def setWriteCallback_def
    setReadCallback_def)

lemma wire_callbacks_fields [simp]:
  "ch_fd (wire_callbacks ch) = ch_fd ch" "ch_index (wire_callbacks ch) = ch_index ch"
  "ch_events (wire_callbacks ch) = ch_events ch" "ch_loop (wire_callbacks ch) = ch_loop ch"
  "addedToLoop (wire_callbacks ch) = addedToLoop ch"
  by (simp_all add: wire_callbacks_def setErrorCallback_def setCloseCallback_def setWriteCallback_def
    setReadCallback_def)

lemma new_connection_ok:
  fixes s :: "('u, 'm) conn"
  assumes lok: "loop_ok s" and fresh: "chans s c = None" "pl_channels s sockfd = None"
    and held: "0 < use_count s obj" "memory_ok s" "\<forall>f \<in> set (pendingFunctors s). task_ok f" "\<not> lp_eventHandling s"
  shows "\<exists>s'. new_TcpConnection name obj c sockfd s = Inr s' \<and> tc_state s' = kConnecting \<and> trace s' = [] \<and>
    taken s' = [] \<and> tc_channel s' = c \<and> tc_reading s' \<and> \<not> wr_shut s' \<and>
    conn_ok (threadId s) (tc_setConnectionCallback (Some u) (tc_setMessageCallback (Some v)
      (tc_setCloseCallback (Some w) s')))"
proof -
  obtain b where b: "new_Buffer kInitialSize = Inr b" "buf_inv b" "contents b = []"
    using new_Buffer_spec [of kInitialSize] by (auto simp: kInitialSize_def max_size_def)
  let ?s0 = "s\<lparr>tc_name := name, tc_state := kConnecting, tc_reading := True,
              tc_channel := c, tc_obj := obj, tc_connectionCallback := None, tc_messageCallback := None,
              tc_writeCompleteCallback := None, tc_highWaterMarkCallback := None, tc_closeCallback := None,
              highWaterMark := 64 * 1024 * 1024, inputBuffer := b,
              outputBuffer := b, wr_shut := False, wire := [], trace := []\<rparr>"
  let ?n = "new_Channel (loop_id s) sockfd :: 'u task channel"
  let ?s1 = "create_Channel c sockfd ?s0"
  let ?s2 = "(put_chan c (wire_callbacks ?n) ?s1)\<lparr>so_keepalive := True\<rparr>"
  have "loop_ok ?s0 = loop_ok s" by (rule loop_ok_cong) simp_all
  then have lok0: "loop_ok ?s0" using lok by simp
  have fresh0: "chans ?s0 c = None" using fresh(1) by simp
  have c1: "chans ?s1 c = Some ?n" by (simp add: create_Channel_def put_chan_def)
  have lok1: "loop_ok (put_chan c (wire_callbacks ?n) ?s1)"
    by (rule put_chan_loop_ok [OF create_Channel_ok(1) [OF lok0 fresh0] c1]) simp_all
  let ?t = "tc_setConnectionCallback (Some u) (tc_setMessageCallback (Some v) (tc_setCloseCallback (Some w) ?s2))"
  have "loop_ok ?t = loop_ok (put_chan c (wire_callbacks ?n) ?s1)"
    by (rule loop_ok_cong) (simp_all add: tc_setConnectionCallback_def tc_setMessageCallback_def tc_setCloseCallback_def)
  then have "conn_ok (threadId s) ?t"
    using lok1 held fresh wired_new [of ?n] b(2,3)
    by (simp add: conn_ok_def tc_setConnectionCallback_def tc_setMessageCallback_def tc_setCloseCallback_def
      create_Channel_def put_chan_def callbacks_set_def memory_ok_def phase_ok_def link_ok_def isNoneEvent_def
      new_Channel_def kNoneEvent_def)
  then show ?thesis
    using b c1 by (simp add: new_TcpConnection_def upd_chan_Some taken_def create_Channel_def put_chan_def)
qed

text \<open>A connection on a loop of its own.\<close>

definition sample_env :: "(nat, unit) conn" where
  "sample_env = (case new_EventLoop 0 1 9 3 Loop_Read of
     Inl _ \<Rightarrow> undefined
   | Inr l \<Rightarrow> (loop.extend l (tqueue_ext Map.empty 0 [] {} False {} 4 None
       (tcp_ext [] kDisconnected False 0 0 None None None None None 0
          \<lparr>buf_mem = [], readerIndex = 0, writerIndex = 0\<rparr> \<lparr>buf_mem = [], readerIndex = 0, writerIndex = 0\<rparr>
          False False False [] [Wrote 2] [Readv_Data [1, 2, 3]] (\<lambda>_. Some [104, 105, 33])
          (\<lambda>_. \<lparr>buf_mem = replicate 8 0, readerIndex = 8, writerIndex = 8\<rparr>) (Timestamp 0) [] ())))
       \<lparr>use_count := \<lambda>_. 1\<rparr>)"

definition sample_conn :: "(nat, unit) conn" where
  "sample_conn = (case new_TcpConnection ''sample'' 0 7 12 sample_env of
     Inl _ \<Rightarrow> undefined
   | Inr s \<Rightarrow> tc_setConnectionCallback (Some 1) (tc_setMessageCallback (Some 2) (tc_setCloseCallback (Some 3) s)))"

lemma sample_env_ok:
  "loop_ok sample_env" "chans sample_env 7 = None" "pl_channels sample_env 12 = None" "use_count sample_env 0 = 1"
  "memory_ok sample_env" "pendingFunctors sample_env = []" "threadId sample_env = 1" "\<not> lp_eventHandling sample_env"
proof -
  obtain l where l: "new_EventLoop 0 1 9 3 (Loop_Read :: nat task) = Inr l" "loop_ok l" "pendingFunctors l = []"
      "threadId l = 1" "\<not> lp_eventHandling l"
      "views l = [3 \<mapsto> \<lparr>cv_fd = 9, cv_events = kReadEvent, cv_registered = True, cv_handling = False, cv_waiting = False\<rparr>]"
    using new_EventLoop_ok [of 0 1 9 3 "Loop_Read :: nat task"] by blast
  have same: "chans sample_env = chans l" "pl_channels sample_env = pl_channels l" "ctl_log sample_env = ctl_log l"
      "event_capacity sample_env = event_capacity l" "loop_id sample_env = loop_id l"
    by (simp_all add: sample_env_def l(1) [unfolded One_nat_def] loop.defs)
  have "loop_ok sample_env = loop_ok l" by (rule loop_ok_cong) (simp_all add: same)
  then show "loop_ok sample_env" using l(2) by simp
  have v: "views l 7 = None" "\<And>c v. views l c = Some v \<Longrightarrow> cv_fd v = 9" by (auto simp: l(6) split: if_splits)
  then show "chans sample_env 7 = None" by (simp add: same views_def split: option.splits)
  show "pl_channels sample_env 12 = None"
  proof (cases "pl_channels l 12")
    case (Some c)
    then obtain ch where "chans l c = Some ch" "ch_fd ch = 12"
      using poller_okD(1) [OF loop_okD(1) [OF l(2)]] by (auto simp: entry_ok_def)
    then show ?thesis using v(2) [of c] by (simp add: views_def view_channel_def)
  qed (simp add: same)
  show "use_count sample_env 0 = 1" "pendingFunctors sample_env = []" "threadId sample_env = 1"
      "\<not> lp_eventHandling sample_env"
    by (simp_all add: sample_env_def l(1) [unfolded One_nat_def] l(3-5) loop.defs)
  show "memory_ok sample_env"
    by (simp add: sample_env_def l(1) [unfolded One_nat_def] loop.defs memory_ok_def buf_inv_def max_size_def)
qed

lemma sample_conn_ok:
  "conn_ok 1 sample_conn" "tc_state sample_conn = kConnecting" "trace sample_conn = []" "taken sample_conn = []"
  "tc_reading sample_conn" "\<not> wr_shut sample_conn"
proof -
  obtain s where s: "new_TcpConnection ''sample'' 0 7 12 sample_env = Inr s" "tc_state s = kConnecting" "trace s = []"
      "taken s = []" "tc_reading s" "\<not> wr_shut s"
      "conn_ok 1 (tc_setConnectionCallback (Some 1) (tc_setMessageCallback (Some 2) (tc_setCloseCallback (Some 3) s)))"
    using new_connection_ok [OF sample_env_ok(1-3), of 0 "''sample''" 1 2 3] sample_env_ok(4-8) by auto
  then show "conn_ok 1 sample_conn" "tc_state sample_conn = kConnecting" "trace sample_conn = []" "taken sample_conn = []"
      "tc_reading sample_conn" "\<not> wr_shut sample_conn"
    by (simp_all add: sample_conn_def tc_setConnectionCallback_def tc_setMessageCallback_def tc_setCloseCallback_def
      taken_def)
qed

lemma sample_conn_idle: "\<not> lp_eventHandling sample_conn"
proof -
  obtain b where b: "new_Buffer kInitialSize = Inr b"
    using new_Buffer_spec [of kInitialSize] by (auto simp: kInitialSize_def max_size_def)
  show ?thesis
    using sample_env_ok(8)
    by (simp add: sample_conn_def new_TcpConnection_def b create_Channel_def put_chan_def upd_chan_def chan_def
      tc_setConnectionCallback_def tc_setMessageCallback_def tc_setCloseCallback_def)
qed

definition sample_app :: "(nat, unit) app" where
  "sample_app k s = foldr_res (api_step 1) (case k of On_Message u t \<Rightarrow> [Api_Send 5, Api_Consume, Api_Shutdown] | _ \<Rightarrow> []) s"

lemma sample_app_ok: "app_ok 1 sample_app"
  by (auto simp: app_ok_def sample_app_def)

lemma quiet_app_ok: "app_ok self (\<lambda>_. Inr)"
  by (auto simp: app_ok_def intro: exI [of _ "[]"])

section \<open>The protocol of the callbacks\<close>

fun is_up_down :: "'u app_call \<Rightarrow> bool" where
  "is_up_down (On_Connection u) = True" | "is_up_down _ = False"

fun is_message :: "'u app_call \<Rightarrow> bool" where
  "is_message (On_Message u t) = True" | "is_message _ = False"

fun is_close :: "'u app_call \<Rightarrow> bool" where
  "is_close (On_Close u) = True" | "is_close _ = False"

text \<open>How often the connection callback has run in a phase.\<close>

fun ups :: "phase \<Rightarrow> nat" where
  "ups Before_Up = 0" | "ups Up = 1" | "ups Down = 2" | "ups Gone = 2"

definition well_told :: "'u app_call list \<Rightarrow> bool" where
  "well_told ks \<longleftrightarrow>
     length (filter is_up_down ks) \<le> 2 \<and> length (filter is_close ks) \<le> 1 \<and>
     (\<forall>i < length ks. is_message (ks ! i) \<longrightarrow> length (filter is_up_down (take i ks)) = 1) \<and>
     (\<forall>i < length ks. is_close (ks ! i) \<longrightarrow> length (filter is_up_down (take i ks)) = 2)"

lemma next_phase_counts:
  assumes "next_phase k p = Some q"
  shows "ups q = ups p + (if is_up_down k then 1 else 0)"
    and "(q = Gone) = (p = Gone \<or> is_close k)" and "is_close k \<Longrightarrow> p = Down" and "is_message k \<Longrightarrow> p = Up"
  using assms by (cases k; cases p; auto split: if_splits)+

lemma phase_well_told:
  "phase_after ks Before_Up = Some p \<Longrightarrow>
    well_told ks \<and> length (filter is_up_down ks) = ups p \<and> length (filter is_close ks) = (if p = Gone then 1 else 0)"
proof (induction ks arbitrary: p rule: rev_induct)
  case Nil
  then show ?case by (auto simp: well_told_def)
next
  case (snoc k ks)
  then obtain q where q: "phase_after ks Before_Up = Some q" "next_phase k q = Some p"
    by (auto simp: phase_after_snoc split: option.splits)
  note c = next_phase_counts [OF q(2)] and ih = snoc.IH [OF q(1)]
  have two: "ups p \<le> 2" by (cases p) simp_all
  have "p \<noteq> Gone \<or> \<not> (q = Gone \<and> is_close k)" using c(3) by auto
  then show ?case
    using ih c two by (auto simp: well_told_def nth_append less_Suc_eq)
qed

section \<open>Properties\<close>



text \<open>C12: the callbacks of a new connection come in order, in every run: the connection callback
  at most twice (up and down), message callbacks only between the two, the close callback at most
  once and only after the second; and while the connection is up it has been told exactly once.\<close>

theorem callback_protocol:
  assumes "conn_ok self s" "app_ok self app" "trace s = []"
  shows "case foldr_res (guarded_step app self) evs s of
      Inl e \<Rightarrow> e = Length_Error
    | Inr s' \<Rightarrow> well_told (trace s') \<and>
        length (filter is_up_down (trace s')) =
          (case tc_state s' of kConnecting \<Rightarrow> 0 | kDisconnected \<Rightarrow> 2 | _ \<Rightarrow> 1)"
proof (cases "foldr_res (guarded_step app self) evs s")
  case (Inl e)
  then show ?thesis using run_advances [OF assms(1,2), of evs] by simp
next
  case (Inr s')
  then have "phase_ok (tc_state s') (trace s')"
    using run_advances [OF assms(1,2), of evs] conn_okD(9) by (auto simp: advances_def)
  then show ?thesis
    using Inr phase_well_told [of "trace s'"] by (auto simp: phase_ok_def split: conn_state.splits)
qed

text \<open>C3: the stream is never torn.  \<open>sendInLoop\<close> takes over all of the data, behind what
  is still waiting, unless the kernel reports a broken connection; \<open>handleWrite\<close> moves bytes
  from the output buffer to the wire and neither loses nor reorders any; and in no run of events
  does what the connection has taken over (on the wire or in the output buffer) change but by
  growing at its end.\<close>

theorem stream_integrity:
  assumes "conn_ok self s" "app_ok self app" "live s" "length data \<le> max_size"
  shows "(case sendInLoop self data s of
        Inl e \<Rightarrow> e = Length_Error
      | Inr s' \<Rightarrow> taken s' = taken s @ data \<or> peer_gone s \<and> contents (outputBuffer s) = [] \<and> taken s' = taken s) \<and>
    (\<exists>s'. handleWrite self s = Inr s' \<and> taken s' = taken s) \<and>
    (case foldr_res (guarded_step app self) evs s of
        Inl e \<Rightarrow> e = Length_Error
      | Inr s' \<Rightarrow> prefix (taken s) (taken s'))"
proof (intro conjI)
  have st: "tc_state s \<noteq> kConnecting" "tc_state s \<noteq> kDisconnected" using assms(3) by (auto simp: live_def)
  show "case sendInLoop self data s of
        Inl e \<Rightarrow> e = Length_Error
      | Inr s' \<Rightarrow> taken s' = taken s @ data \<or> peer_gone s \<and> contents (outputBuffer s) = [] \<and> taken s' = taken s"
    using sendInLoop_ok [OF assms(1) st(1) assms(4), of self] st(2)
    by (cases "sendInLoop self data s") auto
  show "\<exists>s'. handleWrite self s = Inr s' \<and> taken s' = taken s"
    using handleWrite_ok [OF assms(1) st(1)] by blast
  show "case foldr_res (guarded_step app self) evs s of Inl e \<Rightarrow> e = Length_Error | Inr s' \<Rightarrow> prefix (taken s) (taken s')"
    using run_advances [OF assms(1,2), of evs]
    by (cases "foldr_res (guarded_step app self) evs s") (simp_all add: advances_def)
qed

lemma drain_step:
  assumes ok: "conn_ok self s" and live: "live s" and ans: "write_answers s = Wrote (Suc k) # as"
  shows "\<exists>s'. handleWrite self s = Inr s' \<and> conn_ok self s' \<and> live s' \<and> taken s' = taken s \<and> tc_state s' = tc_state s \<and>
    contents (outputBuffer s') = drop (Suc k) (contents (outputBuffer s)) \<and>
    (contents (outputBuffer s) \<noteq> [] \<longrightarrow> write_answers s' = as) \<and>
    (contents (outputBuffer s) = [] \<longrightarrow> s' = s) \<and>
    wr_shut s' = (wr_shut s \<or> contents (outputBuffer s) \<noteq> [] \<and> contents (outputBuffer s') = [] \<and> tc_state s = kDisconnecting)"
proof (cases "contents (outputBuffer s) = []")
  case True
  obtain ch where "chans s (tc_channel s) = Some ch" "\<not> isWriting ch"
    using conn_okD(10) [OF ok] live_link(3) [OF live] True by blast
  then show ?thesis using True ok live by (simp add: handleWrite_def chan_Some)
next
  case False
  let ?out = "contents (outputBuffer s)"
  have "0 < min (Suc k) (length ?out)" "min (Suc k) (length ?out) \<le> length ?out" using False by auto
  moreover have "sys_write ?out s = (Wrote (min (Suc k) (length ?out)),
      s\<lparr>write_answers := as, wire := wire s @ take (min (Suc k) (length ?out)) ?out\<rparr>)"
    using ans by (simp add: sys_write_def Let_def)
  moreover have "drop (min (Suc k) (length ?out)) ?out = drop (Suc k) ?out" by (simp add: min_def)
  moreover have "min (Suc k) (length ?out) = length ?out \<longleftrightarrow> drop (Suc k) ?out = []" by (auto simp: min_def)
  ultimately obtain s' where "handleWrite self s = Inr s'" "conn_ok self s'" "tc_state s' = tc_state s"
      "contents (outputBuffer s') = drop (Suc k) ?out" "wire s' = wire s @ take (min (Suc k) (length ?out)) ?out"
      "write_answers s' = as" "wr_shut s' = (wr_shut s \<or> drop (Suc k) ?out = [] \<and> tc_state s = kDisconnecting)"
    using handleWrite_some [OF ok live False, of "min (Suc k) (length ?out)" as] by auto
  then show ?thesis using False live by (simp add: taken_def live_def min_def)
qed

lemma drained:
  assumes "conn_ok self s" "live s" "contents (outputBuffer s) = []"
  shows "foldr_res (\<lambda>_. handleWrite self) ks s = Inr s"
proof -
  obtain ch where "chans s (tc_channel s) = Some ch" "\<not> isWriting ch"
    using conn_okD(10) [OF assms(1)] live_link(3) [OF assms(2)] assms(3) by blast
  then have "handleWrite self s = Inr s" by (simp add: handleWrite_def chan_Some)
  then show ?thesis by (induction ks) simp_all
qed

text \<open>C13: output drains.  When every \<open>write\<close> the loop tries makes progress, as many write
  events as there are bytes left (or fewer) empty the output buffer: every byte taken over is on
  the wire, and a connection that was shutting down has then shut its writing side down, not
  earlier than with the last byte.\<close>

theorem output_drains:
  assumes "conn_ok self s" "live s" "write_answers s = map (\<lambda>k. Wrote (Suc k)) ks"
    and "length (contents (outputBuffer s)) \<le> length ks"
  shows "\<exists>s'. foldr_res (\<lambda>_. handleWrite self) ks s = Inr s' \<and> contents (outputBuffer s') = [] \<and>
    wire s' = taken s \<and> wr_shut s' = (wr_shut s \<or> contents (outputBuffer s) \<noteq> [] \<and> tc_state s = kDisconnecting)"
  using assms
proof (induction ks arbitrary: s)
  case Nil
  then show ?case by (simp add: taken_def)
next
  case (Cons k ks)
  note ok = Cons.prems(1,2)
  show ?case
  proof (cases "contents (outputBuffer s) = []")
    case True
    then show ?thesis using drained [OF ok True, of "k # ks"] by (simp add: taken_def)
  next
    case False
    obtain s1 where s1: "handleWrite self s = Inr s1" "conn_ok self s1" "live s1" "taken s1 = taken s"
        "tc_state s1 = tc_state s" "contents (outputBuffer s1) = drop (Suc k) (contents (outputBuffer s))"
        "write_answers s1 = map (\<lambda>k. Wrote (Suc k)) ks"
        "wr_shut s1 = (wr_shut s \<or> contents (outputBuffer s1) = [] \<and> tc_state s = kDisconnecting)"
      using drain_step [OF ok Cons.prems(3) [unfolded list.map]] False by blast
    moreover have "length (contents (outputBuffer s1)) \<le> length ks" using s1(6) Cons.prems(4) by simp
    ultimately show ?thesis using Cons.IH [OF s1(2,3,7)] False by auto
  qed
qed

text \<open>C29: reading switched off breaks the close.  After \<open>stopRead\<close> the channel of an idle
  connection watches nothing and is off \<open>epoll\<close>; \<open>forceClose\<close> then runs \<open>disableAll\<close>, which
  adds the descriptor again with an empty mask.  The closed connection stays registered, and the
  hang-up the kernel goes on reporting runs \<open>handleClose\<close> a second time, whose assertion fails.\<close>

theorem stop_read_breaks_close:
  fixes s :: "('u, 'm) conn"
  assumes "conn_ok self s" "live s" "contents (outputBuffer s) = []" "tc_reading s"
    and "chans s (tc_channel s) = Some ch" "ch_events ch = kReadEvent"
  shows "\<exists>s1 s2. stopReadInLoop s = Inr s1 \<and> watched s1 (ch_fd ch) = None \<and>
    forceCloseInLoop (\<lambda>_. Inr) self s1 = Inr s2 \<and> tc_state s2 = kDisconnected \<and>
    watched s2 (ch_fd ch) = Some (kNoneEvent, tc_channel s) \<and>
    handleClose (\<lambda>_. Inr) self s2 = Inl (Assert_Failed ''handleClose'')"
proof -
  let ?c = "tc_channel s" and ?fd = "ch_fd ch"
  note ok = assms(1) and live = assms(2)
  have reg: "pl_channels s ?fd = Some ?c"
    using conn_okD(10) [OF ok] live_link(1) [OF live] assms(5) by auto
  have "\<not> isNoneEvent ch"
    using assms(6) by (simp add: isNoneEvent_def kNoneEvent_def kReadEvent_def POLLIN_def POLLPRI_def)
  then have idx: "ch_index ch = kAdded"
    using poller_ok_index [OF loop_okD(1) [OF conn_okD(1) [OF ok]] assms(5)] reg by auto
  obtain s1 where s1: "set_interest (\<lambda>m. m AND NOT kReadEvent) ?c s = Inr s1" "loop_ok s1" "poller_change s s1"
      "chans s1 = (chans s)(?c \<mapsto> ch\<lparr>ch_events := kNoneEvent, addedToLoop := True, ch_index := kDeleted\<rparr>)"
      "pl_channels s1 = (pl_channels s)(?fd \<mapsto> ?c)"
    using interest_change [OF conn_okD(1) [OF ok] assms(5), of "\<lambda>m. m AND NOT kReadEvent"] reg idx
    by (auto simp: assms(6) kNoneEvent_def)
  note same1 = tcp_fields_change [OF s1(3)]
  let ?t1 = "s1\<lparr>tc_reading := False\<rparr>" and ?u1 = "s1\<lparr>tc_reading := False, tc_state := kDisconnected\<rparr>"
  have stop: "stopReadInLoop s = Inr ?t1"
    using assms(4,5) s1(1) by (simp add: stopReadInLoop_def chan_Some interest_ops)
  have w1: "watched ?t1 ?fd = None" using s1(4,5) by (simp add: watched_def kDeleted_def kAdded_def)
  have "loop_ok ?u1 = loop_ok s1" by (rule loop_ok_cong) simp_all
  then have lok: "loop_ok ?u1" using s1(2) by simp
  obtain s2 where s2: "set_interest (\<lambda>_. kNoneEvent) ?c ?u1 = Inr s2" "poller_change ?u1 s2"
      "chans s2 = (chans s1)(?c \<mapsto> ch\<lparr>ch_events := kNoneEvent, addedToLoop := True, ch_index := kAdded\<rparr>)"
      "pl_channels s2 = (pl_channels s1)(?fd \<mapsto> ?c)"
    using interest_change [OF lok, of ?c "ch\<lparr>ch_events := kNoneEvent, addedToLoop := True, ch_index := kDeleted\<rparr>"
        "\<lambda>_. kNoneEvent"] s1(4,5)
    by (auto simp: kDeleted_def kAdded_def)
  note same2 = tcp_fields_change [OF s2(2)]
  obtain u v where uv: "tc_connectionCallback s = Some u" "tc_closeCallback s = Some v"
    using conn_okD(5) [OF ok] by (auto simp: callbacks_set_def)
  let ?s2 = "s2\<lparr>trace := trace s2 @ [On_Connection u, On_Close v]\<rparr>"
  have "release_ptr (\<lambda>_. delete_TcpConnection self) (tc_obj s)
      ((lock_ptr (tc_obj s) s2)\<lparr>trace := trace s2 @ [On_Connection u, On_Close v]\<rparr>) = Inr ?s2"
    using conn_okD(4) [OF ok] by (simp add: release_ptr_def lock_ptr_def same2 same1)
  then have "forceCloseInLoop (\<lambda>_. Inr) self ?t1 = Inr ?s2"
    using live s2(1) uv
    by (simp add: forceCloseInLoop_def handleClose_def setState_def live_def same1 same2 interest_ops call_back_def
      lock_ptr_def)
  moreover have "watched ?s2 ?fd = Some (kNoneEvent, ?c)" using s2(3,4) by (simp add: watched_def)
  moreover have "tc_state ?s2 = kDisconnected" by (simp add: same2)
  ultimately show ?thesis using stop w1 by (simp add: handleClose_def)
qed

text \<open>A connection that is shutting down cannot be destroyed.  \<open>TcpServer\<close>'s destructor
  runs \<open>connectDestroyed\<close> on every connection; on one in \<open>kDisconnecting\<close> it does not
  switch the channel off, and \<open>Channel::remove\<close>'s assertion fails.\<close>

theorem destroy_disconnecting_fails:
  assumes "conn_ok self s" "tc_state s = kDisconnecting"
  shows "connectDestroyed app s = Inl (Assert_Failed ''remove: isNoneEvent'')"
proof -
  have live: "live s" using assms(2) by (simp add: live_def)
  obtain ch where ch: "chans s (tc_channel s) = Some ch" "isReading ch"
    using conn_okD(10) [OF assms(1)] live_link(2) [OF live] by blast
  then have "\<not> isNoneEvent ch" by (auto simp: isNoneEvent_def isReading_def kNoneEvent_def)
  then show ?thesis using ch(1) assms(2) by (simp add: connectDestroyed_def ch_remove_def chan_Some)
qed

text \<open>
  What the promise about hang-ups is for: on \<open>POLLHUP\<close> with \<open>POLLPRI\<close> and without \<open>POLLIN\<close> the dispatch
  closes the connection and then goes on to read from it; at the end of the stream it closes it again,
  and the assertion of \<open>handleClose\<close> fails.
\<close>

lemma handleClose_quiet:
  assumes ok: "conn_ok self s" and live: "live s"
  shows "\<exists>s'. handleClose (\<lambda>_. Inr) self s = Inr s' \<and> conn_ok self s' \<and> tc_state s' = kDisconnected \<and>
    read_answers s' = read_answers s \<and> inputBuffer s' = inputBuffer s \<and> tc_channel s' = tc_channel s \<and>
    map_option ch_revents (chans s' (tc_channel s)) = map_option ch_revents (chans s (tc_channel s))"
proof -
  obtain u v where uv: "tc_connectionCallback s = Some u" "tc_closeCallback s = Some v"
    using conn_okD(5) [OF ok] by (auto simp: callbacks_set_def)
  obtain s2 where s2: "disableAll (tc_channel s) (setState kDisconnected s) = Inr s2"
      "poller_change (setState kDisconnected s) s2"
    using go_down [OF ok live, of u] by blast
  note same = tcp_fields_change [OF s2(2)]
  let ?s2 = "s2\<lparr>trace := trace s2 @ [On_Connection u, On_Close v]\<rparr>"
  have "release_ptr (\<lambda>_. delete_TcpConnection self) (tc_obj s)
      ((lock_ptr (tc_obj s) s2)\<lparr>trace := trace s2 @ [On_Connection u, On_Close v]\<rparr>) = Inr ?s2"
    using conn_okD(4) [OF ok] by (simp add: release_ptr_def lock_ptr_def same setState_def)
  then have run: "handleClose (\<lambda>_. Inr) self s = Inr ?s2"
    using live s2(1) uv
    by (simp add: handleClose_def live_def same call_back_def lock_ptr_def setState_def)
  moreover have "evolves self s ?s2"
    using handleClose_ok [OF quiet_app_ok ok live] run by simp
  ultimately show ?thesis by (simp add: evolves_def same setState_def)
qed

lemma hang_up_with_urgent_data:
  assumes ok: "conn_ok self s" and live: "live s" and eof: "read_answers s = Readv_Data [] # as"
    and m: "has m POLLHUP" "\<not> has m POLLIN" "has m POLLPRI" "\<not> has m (POLLERR OR POLLNVAL)"
  shows "conn_step (\<lambda>_. Inr) self (Io_Event m t) s = Inl (Assert_Failed ''handleClose'')"
proof -
  let ?c = "tc_channel s" and ?exec = "run_task (\<lambda>_. Inr) self"
  note run = servesD(1-4) [OF run_task_serves [of "\<lambda>_. Inr" self]]
  obtain ch where ch: "chans s ?c = Some ch"
      "link_ok (tc_state s) (contents (outputBuffer s)) (tc_obj s) ?c (pl_channels s) ch"
    by (rule conn_channel [OF ok])
  have tie: "tied ch" "tie_ptr ch = Some (tc_obj s)" "wired ch"
    using live_link(4,5) [OF live ch(2)] ch(2) by (simp_all add: link_ok_def)
  define u where "u = put_chan ?c (set_revents m ch) s"
  have u: "conn_ok self u" "chans u ?c = Some (set_revents m ch)" "tc_channel u = ?c" "tc_obj u = tc_obj s" "live u"
      "read_answers u = read_answers s" "use_count u = use_count s"
    unfolding u_def using put_chan_conn_ok [OF ok ch(1), of "set_revents m ch"] live
    by (simp_all add: same_channel_def set_revents_def put_chan_def live_def)
  define l where "l = lock_ptr (tc_obj s) u"
  have l: "conn_ok self l" "chans l ?c = Some (set_revents m ch)" "tc_channel l = ?c" "live l" "read_answers l = read_answers s"
    using conn_ok_lock [OF u(1)] u by (simp_all add: l_def lock_ptr_def live_def)
  define s0 where "s0 = put_chan ?c (ch_eventHandling_update (\<lambda>_. True) (set_revents m ch)) l"
  have s0: "conn_ok self s0" "live s0" "tc_channel s0 = ?c" "read_answers s0 = read_answers s"
      "chans s0 ?c = Some (ch_eventHandling_update (\<lambda>_. True) (set_revents m ch))"
    unfolding s0_def using put_chan_conn_ok [OF l(1), of "set_revents m ch" "ch_eventHandling_update (\<lambda>_. True) (set_revents m ch)"] l
    by (simp_all add: same_channel_def put_chan_def live_def)
  obtain s1 where s1: "handleClose (\<lambda>_. Inr) self s0 = Inr s1" "conn_ok self s1" "tc_state s1 = kDisconnected"
      "read_answers s1 = Readv_Data [] # as" "tc_channel s1 = ?c" "map_option ch_revents (chans s1 ?c) = Some m"
    using handleClose_quiet [OF s0(1,2)] s0 eof by (auto simp: set_revents_def)
  then obtain x where x: "chans s1 ?c = Some x" "ch_revents x = m" "wired x"
    using conn_okD(10) [OF s1(2)] by (auto simp: link_ok_def)
  obtain b where b: "readFd (Readv_Data []) (inputBuffer s1) = Inr (0, None, b)"
    using readFd_split(1) [OF conn_okD(2) [OF s1(2)], of "[]"] by auto
  have close: "fire ?exec ?c (\<lambda>r. has r POLLHUP \<and> \<not> has r POLLIN) (\<lambda>ch. map_option Run (closeCallback ch)) s0 = Inr s1"
    using s0(5) s1(1) m(1,2) tie(3) by (simp add: fire_def chan_Some set_revents_def wired_def run)
  have quiet: "fire ?exec ?c (\<lambda>r. has r (POLLERR OR POLLNVAL)) (\<lambda>ch. map_option Run (errorCallback ch)) s1 = Inr s1"
    using x m(4) by (simp add: fire_def chan_Some)
  have "handleRead (\<lambda>_. Inr) self t s1 = Inl (Assert_Failed ''handleClose'')"
    using s1 x(1) b by (simp add: handleRead_def chan_Some sys_readv_def handleClose_def ensure_def Let_def)
  then have reading: "fire ?exec ?c (\<lambda>r. has r (POLLIN OR POLLPRI OR POLLRDHUP))
      (\<lambda>ch. map_option (\<lambda>f. Run_Read f t) (readCallback ch)) s1 = Inl (Assert_Failed ''handleClose'')"
    using x m(3) by (simp add: fire_def chan_Some wired_def has_OR run)
  have "handleEventWithGuard ?exec ?c t l = Inl (Assert_Failed ''handleClose'')"
    unfolding handleEventWithGuard_def upd_chan_Some [OF l(2)] bindr.simps s0_def [symmetric] close quiet reading ..
  then have "handleEvent ?exec ?c t u = Inl (Assert_Failed ''handleClose'')"
    using u conn_okD(4) [OF u(1)] tie by (simp add: handleEvent_def chan_Some set_revents_def l_def)
  then show ?thesis by (simp add: upd_chan_Some [OF ch(1)] u_def)
qed

text \<open>\<open>send\<close> from another thread keeps only the \<open>StringPiece\<close>: it queues the address of the
  user's bytes, and when the user has freed them before the loop runs the functor, \<open>sendInLoop\<close>
  reads freed memory.\<close>

theorem send_from_thread_dangles:
  assumes "tc_state s = kConnected" "t \<noteq> threadId s"
  shows "send_piece t m s = Inr (queueInLoop t (Send_In_Loop m) s) \<and>
    last (pendingFunctors (queueInLoop t (Send_In_Loop m) s)) = Send_In_Loop m \<and>
    run_task app self (Run (Send_In_Loop m)) ((queueInLoop t (Send_In_Loop m) s)\<lparr>user_mem := (user_mem s)(m := None)\<rparr>) =
      Inl Use_After_Free"
  using assms
  by (simp add: send_piece_def runInLoop_def isInLoopThread_def queueInLoop_def queue_push_def queue_wakeup_def
    wakeup_def send_mem_in_loop_def mem_at_def)

section \<open>The sample connection, up and shutting down\<close>

lemma established:
  assumes "conn_ok self s" "tc_state s = kConnecting"
  shows "\<exists>s' ch. connectEstablished (\<lambda>_. Inr) s = Inr s' \<and> conn_ok self s' \<and> tc_state s' = kConnected \<and>
    contents (outputBuffer s') = [] \<and> chans s' (tc_channel s') = Some ch \<and> ch_events ch = kReadEvent \<and>
    tc_reading s' = tc_reading s \<and> wire s' = wire s \<and> wr_shut s' = wr_shut s \<and> threadId s' = threadId s \<and>
    use_count s' = use_count s \<and> user_mem s' = user_mem s"
proof -
  obtain u where u: "tc_connectionCallback s = Some u" using conn_okD(5) [OF assms(1)] by (auto simp: callbacks_set_def)
  obtain s2 ch2 where s2: "bindr (upd_chan (tc_channel s) (ch_tie (tc_obj s)) (setState kConnected s))
        (enableReading (tc_channel s)) = Inr s2"
      "conn_ok self (told (On_Connection u) s2)" "poller_change (setState kConnected s) s2"
      "contents (outputBuffer s) = []" "chans s2 (tc_channel s) = Some ch2" "ch_events ch2 = kReadEvent"
    using go_up [OF assms, of u] by blast
  note same = tcp_fields_change [OF s2(3)]
  obtain s1 where "upd_chan (tc_channel s) (ch_tie (tc_obj s)) (setState kConnected s) = Inr s1"
      "enableReading (tc_channel s) s1 = Inr s2" "tc_channel s1 = tc_channel s"
    using s2(1) by (cases "chans s (tc_channel s)") (auto simp: upd_chan_def chan_def setState_def put_chan_def)
  then show ?thesis
    using assms(2) s2(2,4-6) by (simp add: connectEstablished_def setState_def same u call_back_def told_def)
qed

definition sample_up :: "(nat, unit) conn" where
  "sample_up = (case connectEstablished (\<lambda>_. Inr) sample_conn of Inl _ \<Rightarrow> undefined | Inr s \<Rightarrow> s)"

lemma sample_up_ok:
  "conn_ok 1 sample_up" "tc_state sample_up = kConnected" "contents (outputBuffer sample_up) = []"
  "\<exists>ch. chans sample_up (tc_channel sample_up) = Some ch \<and> ch_events ch = kReadEvent"
  "tc_reading sample_up" "wire sample_up = []" "\<not> wr_shut sample_up" "threadId sample_up = 1"
proof -
  show "conn_ok 1 sample_up" "tc_state sample_up = kConnected" "contents (outputBuffer sample_up) = []"
    "\<exists>ch. chans sample_up (tc_channel sample_up) = Some ch \<and> ch_events ch = kReadEvent"
    "tc_reading sample_up" "wire sample_up = []" "\<not> wr_shut sample_up" "threadId sample_up = 1"
    using established [OF sample_conn_ok(1,2)] sample_conn_ok(4-6) conn_okD(8) [OF sample_conn_ok(1)]
    by (auto simp: sample_up_def taken_def)
qed

lemma sample_up_live: "live sample_up"
  by (simp add: live_def sample_up_ok(2))

definition sample_out :: "(nat, unit) conn" where
  "sample_out = (case set_interest (\<lambda>m. m OR kWriteEvent) (tc_channel sample_up) (sample_up\<lparr>outputBuffer := sample_buffer\<rparr>) of
     Inl _ \<Rightarrow> undefined
   | Inr s \<Rightarrow> setState kDisconnecting (s\<lparr>write_answers := [Wrote 1, Wrote 1]\<rparr>))"

lemma sample_out_ok:
  "conn_ok 1 sample_out" "tc_state sample_out = kDisconnecting" "contents (outputBuffer sample_out) = [72, 105]"
  "write_answers sample_out = [Wrote 1, Wrote 1]" "wire sample_out = []" "live sample_out"
proof -
  obtain ch where ch: "chans sample_up (tc_channel sample_up) = Some ch" "ch_events ch = kReadEvent"
    using sample_up_ok(4) by blast
  have masks: "has (kReadEvent OR kWriteEvent) kReadEvent" "has (kReadEvent OR kWriteEvent) kWriteEvent"
    by (simp_all add: mask_simps)
  obtain s where s: "set_interest (\<lambda>m. m OR kWriteEvent) (tc_channel sample_up) (sample_up\<lparr>outputBuffer := sample_buffer\<rparr>) = Inr s"
      "conn_ok 1 s" "poller_change (sample_up\<lparr>outputBuffer := sample_buffer\<rparr>) s"
    using conn_interest [OF sample_up_ok(1) sample_buffer_inv sample_up_live ch(1), of "\<lambda>m. m OR kWriteEvent"] masks
    by (auto simp: ch(2) sample_buffer_contents)
  note same = tcp_fields_change [OF s(3)]
  have "live (s\<lparr>write_answers := [Wrote 1, Wrote 1]\<rparr>)" using sample_up_ok(2) by (simp add: live_def same)
  then show "conn_ok 1 sample_out"
    using disconnecting_ok(1) [of 1 "s\<lparr>write_answers := [Wrote 1, Wrote 1]\<rparr>"] s(1,2) by (simp add: sample_out_def)
  show "tc_state sample_out = kDisconnecting" "contents (outputBuffer sample_out) = [72, 105]"
    "write_answers sample_out = [Wrote 1, Wrote 1]" "wire sample_out = []" "live sample_out"
    using s(1) sample_up_ok(6) by (simp_all add: sample_out_def setState_def same sample_buffer_contents live_def)
qed



theorem callback_protocol_witness:
  "case foldr_res (guarded_step sample_app 1) [Establish, Io_Event POLLIN (Timestamp 9), Pending_Batch] sample_conn of
      Inl e \<Rightarrow> e = Length_Error
    | Inr s' \<Rightarrow> well_told (trace s')"
  using callback_protocol [OF sample_conn_ok(1) sample_app_ok sample_conn_ok(3),
      of "[Establish, Io_Event POLLIN (Timestamp 9), Pending_Batch]"]
  by (auto split: sum.splits)

theorem stream_integrity_witness:
  "case sendInLoop 1 [1, 2, 3] sample_up of
      Inl e \<Rightarrow> e = Length_Error
    | Inr s' \<Rightarrow> taken s' = [1, 2, 3] \<or> peer_gone sample_up"
  using stream_integrity [OF sample_up_ok(1) sample_app_ok sample_up_live, of "[1, 2, 3]"] sample_up_ok(3,6)
  by (auto simp: max_size_def taken_def split: sum.splits)

theorem output_drains_witness:
  "\<exists>s'. foldr_res (\<lambda>_. handleWrite 1) [0, 0 :: nat] sample_out = Inr s' \<and> wire s' = [72, 105] \<and> wr_shut s'"
  using output_drains [OF sample_out_ok(1,6), of "[0, 0]"] sample_out_ok(2-5) by (auto simp: taken_def)

theorem stop_read_breaks_close_witness:
  "\<exists>s1 s2 fd. stopReadInLoop sample_up = Inr s1 \<and> forceCloseInLoop (\<lambda>_. Inr) 1 s1 = Inr s2 \<and>
     watched s2 fd = Some (kNoneEvent, tc_channel sample_up) \<and>
     handleClose (\<lambda>_. Inr) 1 s2 = Inl (Assert_Failed ''handleClose'')"
proof -
  obtain ch where "chans sample_up (tc_channel sample_up) = Some ch" "ch_events ch = kReadEvent"
    using sample_up_ok(4) by blast
  from stop_read_breaks_close [OF sample_up_ok(1) sample_up_live sample_up_ok(3,5) this]
  show ?thesis by blast
qed

theorem destroy_disconnecting_fails_witness:
  "connectDestroyed sample_app sample_out = Inl (Assert_Failed ''remove: isNoneEvent'')"
  using destroy_disconnecting_fails [OF sample_out_ok(1,2)] .

theorem send_from_thread_dangles_witness:
  "send_piece 2 5 sample_up = Inr (queueInLoop 2 (Send_In_Loop 5) sample_up)"
  using send_from_thread_dangles [OF sample_up_ok(2), of 2 5] sample_up_ok(8) by simp

end
