(* ===== verification/InetAddress.thy ===== *)
theory InetAddress
  imports Endian Format
begin

text \<open>
  \<open>net/InetAddress.h\<close>, \<open>net/InetAddress.cc\<close> and the parts of \<open>net/SocketsOps.cc\<close> that handle
  addresses.  A socket address is the kernel's structure with its fields in network byte order, as
  integers of a host of byte order \<open>e\<close>.  \<open>inet_ntop\<close> and \<open>inet_pton\<close> are the C library's, for
  dotted decimal text.  A character array is the string before its zero.
\<close>

section \<open>Addresses\<close>

record sockaddr_in =
  sin_family :: "16 word"
  sin_port :: "16 word"
  s_addr :: "32 word"

definition AF_INET :: "16 word" where "AF_INET = 2"
definition INET_ADDRSTRLEN :: nat where "INET_ADDRSTRLEN = 16"
definition kInaddrAny :: "32 word" where "kInaddrAny = 0"
definition kInaddrLoopback :: "32 word" where "kInaddrLoopback = 0x7f000001"

definition zero_addr :: sockaddr_in where
  "zero_addr = \<lparr>sin_family = 0, sin_port = 0, s_addr = 0\<rparr>"

section \<open>The C library\<close>

definition inet_ntop :: "endianness \<Rightarrow> 32 word \<Rightarrow> string" where
  "inet_ntop e a =
     (case map (\<lambda>b. dec_nat (unat b)) (host_bytes e 4 a) of
        [] \<Rightarrow> []
      | p # ps \<Rightarrow> p @ concat (map (\<lambda>p. CHR ''.'' # p) ps))"

fun split_dots :: "string \<Rightarrow> string list" where
  "split_dots [] = [[]]"
| "split_dots (c # cs) =
     (if c = CHR ''.'' then [] # split_dots cs
      else case split_dots cs of [] \<Rightarrow> [[c]] | p # ps \<Rightarrow> (c # p) # ps)"

text \<open>One to three digits without a leading zero, at most 255.\<close>

definition octet :: "string \<Rightarrow> byte option" where
  "octet p =
     (if p \<noteq> [] \<and> length p \<le> 3 \<and> (\<forall>c \<in> set p. is_digit c) \<and> (1 < length p \<longrightarrow> hd p \<noteq> CHR ''0'') \<and> val_dec p \<le> 255
      then Some (of_nat (val_dec p)) else None)"

definition inet_pton :: "endianness \<Rightarrow> string \<Rightarrow> 32 word option" where
  "inet_pton e s =
     (case map octet (split_dots s) of
        [Some a, Some b, Some c, Some d] \<Rightarrow> Some (of_host_bytes e [a, b, c, d])
      | _ \<Rightarrow> None)"

section \<open>SocketsOps\<close>

text \<open>A text that is not an address is only reported; the address part then keeps its value.\<close>

definition fromIpPort :: "endianness \<Rightarrow> string \<Rightarrow> 16 word \<Rightarrow> sockaddr_in \<Rightarrow> sockaddr_in" where
  "fromIpPort e ip port addr =
     (let addr = addr\<lparr>sin_family := AF_INET, sin_port := hostToNetwork16 e port\<rparr>
      in case inet_pton e ip of None \<Rightarrow> addr | Some a \<Rightarrow> addr\<lparr>s_addr := a\<rparr>)"

definition toIp :: "endianness \<Rightarrow> string \<Rightarrow> nat \<Rightarrow> sockaddr_in \<Rightarrow> string res" where
  "toIp e buf len addr =
     (if sin_family addr = AF_INET
      then ensure ''toIp: size'' (INET_ADDRSTRLEN \<le> len) (Inr (inet_ntop e (s_addr addr)))
      else Inr buf)"

definition toIpPort :: "endianness \<Rightarrow> string \<Rightarrow> nat \<Rightarrow> sockaddr_in \<Rightarrow> string res" where
  "toIpPort e buf len addr =
     bindr (toIp e buf len addr) (\<lambda>buf.
       let port = networkToHost16 e (sin_port addr)
       in ensure ''toIpPort: size'' (length buf < len)
            (Inr (buf @ snprintf (len - length buf) (CHR '':'' # dec_nat (unat port)))))"

text \<open>\<open>None\<close> is a failed \<open>getsockname\<close> or \<open>getpeername\<close>, which leaves the zeros of \<open>memset\<close>.\<close>

definition getLocalAddr :: "sockaddr_in option \<Rightarrow> sockaddr_in" where
  "getLocalAddr answer = (case answer of None \<Rightarrow> zero_addr | Some addr \<Rightarrow> addr)"

definition getPeerAddr :: "sockaddr_in option \<Rightarrow> sockaddr_in" where
  "getPeerAddr answer = (case answer of None \<Rightarrow> zero_addr | Some addr \<Rightarrow> addr)"

definition isSelfConnect :: "sockaddr_in option \<Rightarrow> sockaddr_in option \<Rightarrow> bool" where
  "isSelfConnect local peer =
     (let localaddr = getLocalAddr local; peeraddr = getPeerAddr peer
      in if sin_family localaddr = AF_INET
         then sin_port localaddr = sin_port peeraddr \<and> s_addr localaddr = s_addr peeraddr
         else False)"

section \<open>The class\<close>

type_synonym inet_address = sockaddr_in

definition InetAddress_port :: "endianness \<Rightarrow> 16 word \<Rightarrow> bool \<Rightarrow> inet_address" where
  "InetAddress_port e port loopbackOnly =
     (let ip = (if loopbackOnly then kInaddrLoopback else kInaddrAny)
      in zero_addr\<lparr>sin_family := AF_INET, s_addr := hostToNetwork32 e ip, sin_port := hostToNetwork16 e port\<rparr>)"

definition InetAddress_ip :: "endianness \<Rightarrow> string \<Rightarrow> 16 word \<Rightarrow> inet_address" where
  "InetAddress_ip e ip port = fromIpPort e ip port zero_addr"

definition ia_toIpPort :: "endianness \<Rightarrow> inet_address \<Rightarrow> string res" where
  "ia_toIpPort e a = toIpPort e [] 64 a"

definition ia_toIp :: "endianness \<Rightarrow> inet_address \<Rightarrow> string res" where
  "ia_toIp e a = toIp e [] 64 a"

definition ipNetEndian :: "inet_address \<Rightarrow> 32 word res" where
  "ipNetEndian a = ensure ''ipNetEndian'' (sin_family a = AF_INET) (Inr (s_addr a))"

definition toPort :: "endianness \<Rightarrow> inet_address \<Rightarrow> 16 word" where
  "toPort e a = networkToHost16 e (sin_port a)"

text \<open>The resolver's answer: the family, the length and the address of the entry it found, if any.\<close>

definition ia_resolve :: "(16 word \<times> nat \<times> 32 word) option \<Rightarrow> inet_address \<Rightarrow> (bool \<times> inet_address) res" where
  "ia_resolve answer out =
     (case answer of
        None \<Rightarrow> Inr (False, out)
      | Some (h_addrtype, h_length, h_addr) \<Rightarrow>
          ensure ''resolve'' (h_addrtype = AF_INET \<and> h_length = 4) (Inr (True, out\<lparr>s_addr := h_addr\<rparr>)))"

section \<open>Dotted decimal\<close>

lemma split_dots_part: "CHR ''.'' \<notin> set p \<Longrightarrow> split_dots (p @ CHR ''.'' # s) = p # split_dots s"
  by (induction p) auto

lemma split_dots_last: "CHR ''.'' \<notin> set p \<Longrightarrow> split_dots p = [p]"
  by (induction p) auto

lemma no_dot [simp]: "CHR ''.'' \<notin> set (dec_nat n)"
  using dec_nat_digits [of "CHR ''.''" n] by auto

lemma hd_dec_nat: "0 < n \<Longrightarrow> hd (dec_nat n) \<noteq> CHR ''0''"
proof (induction n rule: dec_nat.induct)
  case (1 n)
  show ?case
  proof (cases "n < 10")
    case True
    have "digit n \<noteq> CHR ''0''"
    proof
      assume "digit n = CHR ''0''"
      then have "digit_val (digit n) = 0" by (simp add: digit_val_def)
      then show False using True 1(2) by simp
    qed
    then show ?thesis using True by (simp add: dec_nat.simps [of n])
  next
    case False
    then have "hd (dec_nat (n div 10)) \<noteq> CHR ''0''" using 1 by simp
    then show ?thesis using False by (simp add: dec_nat.simps [of n])
  qed
qed

lemma unat_small: "unat (b :: byte) < 256" "unat (p :: 16 word) < 65536"
  using unsigned_less [of b, where ?'a = nat] unsigned_less [of p, where ?'a = nat] by simp_all

lemma octet_dec [simp]: "octet (dec_nat (unat b)) = Some b" for b :: byte
proof -
  have n: "unat b \<le> 255" using unat_small(1) [of b] by simp
  then have l: "length (dec_nat (unat b)) \<le> 3" by (intro length_dec_nat_le) simp_all
  have "hd (dec_nat (unat b)) \<noteq> CHR ''0''" if "1 < length (dec_nat (unat b))"
  proof (rule hd_dec_nat)
    show "0 < unat b" using that by (cases "unat b") (simp_all add: dec_nat.simps)
  qed
  then show ?thesis using n l by (auto simp: octet_def dec_nat_digits)
qed

lemma four_bytes: "\<exists>a b c d. host_bytes e 4 w = [a, b, c, d]"
proof -
  have "length (host_bytes e 4 w) = 4" by simp
  then show ?thesis by (auto simp: length_Suc_conv numeral_eq_Suc simp del: length_host_bytes)
qed

lemma pton_ntop: "inet_pton e (inet_ntop e w) = Some w"
proof -
  obtain a b c d where h: "host_bytes e 4 w = [a, b, c, d]" using four_bytes by blast
  then have "of_host_bytes e [a, b, c, d] = w" using of_host_bytes_host_bytes [of 4 e w] by simp
  then show ?thesis
    by (simp add: inet_ntop_def inet_pton_def h split_dots_part split_dots_last)
qed

lemma length_inet_ntop: "length (inet_ntop e w) \<le> 15"
proof -
  obtain a b c d where h: "host_bytes e 4 w = [a, b, c, d]" using four_bytes by blast
  have "length (dec_nat (unat x)) \<le> 3" for x :: byte
    using unat_small(1) [of x] by (intro length_dec_nat_le) simp_all
  from this [of a] this [of b] this [of c] this [of d] show ?thesis by (simp add: inet_ntop_def h)
qed

lemma port_digits: "length (dec_nat (unat p)) \<le> 5" for p :: "16 word"
  using unat_small(2) [of p] by (intro length_dec_nat_le) simp_all

lemma toIpPort_eq:
  assumes "sin_family a = AF_INET"
  shows "ia_toIpPort e a = Inr (inet_ntop e (s_addr a) @ '':'' @ dec_nat (unat (toPort e a)))"
    "length (inet_ntop e (s_addr a) @ '':'' @ dec_nat (unat (toPort e a))) \<le> 21"
  using assms length_inet_ntop [of e "s_addr a"] port_digits [of "toPort e a"]
  by (simp_all add: ia_toIpPort_def toIpPort_def toIp_def INET_ADDRSTRLEN_def toPort_def)

section \<open>Properties\<close>

text \<open>C33: the text of an address is read back as the address, on a host of either byte order, and
  no assertion fails: \<open>toIp\<close> and \<open>toPort\<close> of an IPv4 address rebuild it with the constructor, and
  \<open>toIpPort\<close> is the two with a colon, at most 21 characters, of which the 64 of its array hold all.\<close>

theorem ip_text_roundtrip:
  assumes "sin_family a = AF_INET"
  shows "\<exists>ip. ia_toIp e a = Inr ip \<and> InetAddress_ip e ip (toPort e a) = a \<and>
    ia_toIpPort e a = Inr (ip @ '':'' @ dec_nat (unat (toPort e a))) \<and> length ip + 6 \<le> 21"
proof (intro exI conjI)
  show "ia_toIp e a = Inr (inet_ntop e (s_addr a))"
    using assms by (simp add: ia_toIp_def toIp_def INET_ADDRSTRLEN_def)
  have "hostToNetwork16 e (networkToHost16 e (sin_port a)) = sin_port a"
    by (simp add: hostToNetwork16_def networkToHost16_def htobe_htobe)
  then show "InetAddress_ip e (inet_ntop e (s_addr a)) (toPort e a) = a"
    using assms by (simp add: InetAddress_ip_def fromIpPort_def pton_ntop toPort_def zero_addr_def)
qed (use toIpPort_eq [OF assms] length_inet_ntop in simp_all)

theorem ip_text_roundtrip_witness:
  "\<exists>ip. ia_toIp Little (InetAddress_port Little 8080 True) = Inr ip \<and>
     InetAddress_ip Little ip (toPort Little (InetAddress_port Little 8080 True)) = InetAddress_port Little 8080 True"
  using ip_text_roundtrip [of "InetAddress_port Little 8080 True" Little]
  by (auto simp: InetAddress_port_def)

end
