(* ===== verification/Connector.thy ===== *)
theory Connector
  imports TimerQueue InetAddress
begin

text \<open>
  \<open>net/Connector.h\<close> and \<open>net/Connector.cc\<close>: connecting to a server, with retries.  The state
  extends the loop with its timers by the members of the class, the kernel's answers to come
  (any lists), and \<open>cn_open\<close>, the descriptors the connector has created and neither closed nor
  handed to its user.  The user's callback and the allocators are parameters.
\<close>

section \<open>The class\<close>

datatype cn_state = cnDisconnected | cnConnecting | cnConnected

datatype cn_task =
    Cn_Handle_Write | Cn_Handle_Error | Cn_Start_In_Loop | Cn_Stop_In_Loop | Cn_Reset_Channel
  | Cn_Add_Timer taddr
  | Cn_Remove_Connector   \<comment> \<open>\<open>removeConnector\<close> of \<open>TcpClient.cc\<close>, which does nothing\<close>
  | Cn_Loop_Read   \<comment> \<open>the loop's own \<open>handleRead\<close>\<close>

record connector = "cn_task tqueue" +
  cn_connect :: bool
  cn_state :: cn_state
  cn_channel :: "cid option"
  newConnectionCallback_set :: bool
  retryDelayMs :: int
  cn_open :: "int set"
  cn_handed :: "int list"
  socket_answers :: "int list"
  connect_answers :: "int list"
  so_errors :: "int list"
  sock_names :: "(sockaddr_in option \<times> sockaddr_in option) list"
  cn_clock :: timestamp

definition kMaxRetryDelayMs :: int where "kMaxRetryDelayMs = 30 * 1000"
definition kInitRetryDelayMs :: int where "kInitRetryDelayMs = 500"

text \<open>The error numbers of \<open>connect\<close>, as the three groups of the code's \<open>switch\<close>.\<close>

definition EINTR :: int where "EINTR = 4"
definition cn_EAGAIN :: int where "cn_EAGAIN = 11"
definition EBADF :: int where "EBADF = 9"
definition EADDRINUSE :: int where "EADDRINUSE = 98"
definition EADDRNOTAVAIL :: int where "EADDRNOTAVAIL = 99"
definition ENETUNREACH :: int where "ENETUNREACH = 101"
definition EISCONN :: int where "EISCONN = 106"
definition ECONNREFUSED :: int where "ECONNREFUSED = 111"
definition EINPROGRESS :: int where "EINPROGRESS = 115"

definition in_progress :: "int \<Rightarrow> bool" where
  "in_progress e \<longleftrightarrow> e \<in> {0, EINPROGRESS, EINTR, EISCONN}"

definition worth_a_retry :: "int \<Rightarrow> bool" where
  "worth_a_retry e \<longleftrightarrow> e \<in> {cn_EAGAIN, EADDRINUSE, EADDRNOTAVAIL, ECONNREFUSED, ENETUNREACH}"

section \<open>The kernel\<close>

text \<open>A failed \<open>socket(2)\<close> gives -1, which \<open>createNonblockingOrDie\<close> passes on.\<close>

definition createNonblockingOrDie :: "'m connector_scheme \<Rightarrow> int \<times> 'm connector_scheme" where
  "createNonblockingOrDie s =
     (case socket_answers s of
        [] \<Rightarrow> (- 1, s)
      | fd # fds \<Rightarrow>
          (let s = s\<lparr>socket_answers := fds\<rparr>
           in if fd < 0 then (- 1, s) else (fd, s\<lparr>cn_open := insert fd (cn_open s)\<rparr>)))"

definition sys_connect :: "int \<Rightarrow> 'm connector_scheme \<Rightarrow> int \<times> 'm connector_scheme" where
  "sys_connect fd s =
     (if fd < 0 then (EBADF, s)
      else case connect_answers s of
             [] \<Rightarrow> (EINPROGRESS, s)
           | e # es \<Rightarrow> (e, s\<lparr>connect_answers := es\<rparr>))"

definition sys_close :: "int \<Rightarrow> 'm connector_scheme \<Rightarrow> 'm connector_scheme" where
  "sys_close fd s = s\<lparr>cn_open := cn_open s - {fd}\<rparr>"

definition getSocketError :: "'m connector_scheme \<Rightarrow> int \<times> 'm connector_scheme" where
  "getSocketError s = (case so_errors s of [] \<Rightarrow> (0, s) | e # es \<Rightarrow> (e, s\<lparr>so_errors := es\<rparr>))"

text \<open>The kernel's names of the two ends of the socket decide whether it is connected to itself.\<close>

definition cn_isSelfConnect :: "'m connector_scheme \<Rightarrow> bool \<times> 'm connector_scheme" where
  "cn_isSelfConnect s =
     (case sock_names s of
        [] \<Rightarrow> (isSelfConnect None None, s)
      | (local, peer) # names \<Rightarrow> (isSelfConnect local peer, s\<lparr>sock_names := names\<rparr>))"

section \<open>Operations\<close>

definition cn_setState :: "cn_state \<Rightarrow> 'm connector_scheme \<Rightarrow> 'm connector_scheme" where
  "cn_setState st s = s\<lparr>cn_state := st\<rparr>"

text \<open>The functor with which \<open>runAfter\<close> enters the loop's thread.\<close>

fun cn_request :: "cn_task call \<Rightarrow> 'm connector_scheme \<Rightarrow> 'm connector_scheme res" where
  "cn_request (Run (Cn_Add_Timer a)) s = addTimerInLoop (cn_clock s) a s"
| "cn_request k s = Inr s"

definition retry_seconds :: "int \<Rightarrow> dbl" where
  "retry_seconds ms = dbl_div_int (int_to_dbl ms) 1000"

definition cn_retry ::
  "('m connector_scheme \<Rightarrow> taddr option) \<Rightarrow> nat \<Rightarrow> int \<Rightarrow> 'm connector_scheme \<Rightarrow> 'm connector_scheme res" where
  "cn_retry alloc self sockfd s =
     (let s = cn_setState cnDisconnected (sys_close sockfd s)
      in if cn_connect s
         then bindr (runAfter cn_request alloc Cn_Add_Timer self (cn_clock s) (retry_seconds (retryDelayMs s))
                       Cn_Start_In_Loop s) (\<lambda>(_, s).
                Inr (s\<lparr>retryDelayMs := min (retryDelayMs s * 2) kMaxRetryDelayMs\<rparr>))
         else Inr s)"

definition cn_callbacks :: "cn_task channel \<Rightarrow> cn_task channel" where
  "cn_callbacks ch = setErrorCallback (Some Cn_Handle_Error) (setWriteCallback (Some Cn_Handle_Write) ch)"

definition cn_connecting ::
  "('m connector_scheme \<Rightarrow> cid option) \<Rightarrow> int \<Rightarrow> 'm connector_scheme \<Rightarrow> 'm connector_scheme res" where
  "cn_connecting fresh sockfd s =
     (let s = cn_setState cnConnecting s
      in ensure ''connecting: !channel_'' (cn_channel s = None)
           (case fresh s of
              None \<Rightarrow> Inl Bad_Alloc
            | Some c \<Rightarrow>
                let s = (create_Channel c sockfd s)\<lparr>cn_channel := Some c\<rparr>
                in bindr (upd_chan c cn_callbacks s) (enableWriting c)))"

definition cn_connect_now ::
  "('m connector_scheme \<Rightarrow> taddr option) \<Rightarrow> ('m connector_scheme \<Rightarrow> cid option) \<Rightarrow> nat \<Rightarrow>
   'm connector_scheme \<Rightarrow> 'm connector_scheme res" where
  "cn_connect_now alloc fresh self s =
     (let (sockfd, s) = createNonblockingOrDie s;
          (savedErrno, s) = sys_connect sockfd s
      in if in_progress savedErrno then cn_connecting fresh sockfd s
         else if worth_a_retry savedErrno then cn_retry alloc self sockfd s
         else Inr (sys_close sockfd s))"

definition cn_startInLoop ::
  "('m connector_scheme \<Rightarrow> taddr option) \<Rightarrow> ('m connector_scheme \<Rightarrow> cid option) \<Rightarrow> nat \<Rightarrow>
   'm connector_scheme \<Rightarrow> 'm connector_scheme res" where
  "cn_startInLoop alloc fresh self s =
     ensure ''startInLoop: state_'' (cn_state s = cnDisconnected)
       (if cn_connect s then cn_connect_now alloc fresh self s else Inr s)"

definition cn_restart ::
  "('m connector_scheme \<Rightarrow> taddr option) \<Rightarrow> ('m connector_scheme \<Rightarrow> cid option) \<Rightarrow> nat \<Rightarrow>
   'm connector_scheme \<Rightarrow> 'm connector_scheme res" where
  "cn_restart alloc fresh self s =
     cn_startInLoop alloc fresh self
       ((cn_setState cnDisconnected s)\<lparr>retryDelayMs := kInitRetryDelayMs, cn_connect := True\<rparr>)"

definition removeAndResetChannel :: "nat \<Rightarrow> 'm connector_scheme \<Rightarrow> (int \<times> 'm connector_scheme) res" where
  "removeAndResetChannel self s =
     (case cn_channel s of
        None \<Rightarrow> Inl Null_Deref
      | Some c \<Rightarrow>
          bindr (disableAll c s) (\<lambda>s.
          bindr (ch_remove c s) (\<lambda>s.
          bindr (chan c s) (\<lambda>ch. Inr (ch_fd ch, queueInLoop self Cn_Reset_Channel s)))))"

definition cn_resetChannel :: "nat \<Rightarrow> 'm connector_scheme \<Rightarrow> 'm connector_scheme res" where
  "cn_resetChannel self s =
     (case cn_channel s of
        None \<Rightarrow> Inr s
      | Some c \<Rightarrow> bindr (delete_Channel self c s) (\<lambda>s. Inr (s\<lparr>cn_channel := None\<rparr>)))"

definition cn_stopInLoop ::
  "('m connector_scheme \<Rightarrow> taddr option) \<Rightarrow> nat \<Rightarrow> 'm connector_scheme \<Rightarrow> 'm connector_scheme res" where
  "cn_stopInLoop alloc self s =
     (if cn_state s = cnConnecting
      then bindr (removeAndResetChannel self (cn_setState cnDisconnected s)) (\<lambda>(sockfd, s).
             cn_retry alloc self sockfd s)
      else Inr s)"

text \<open>\<open>handover\<close> is the user's \<open>newConnectionCallback_\<close>; the socket is then the user's.\<close>

definition cn_handleWrite ::
  "('m connector_scheme \<Rightarrow> taddr option) \<Rightarrow> (int \<Rightarrow> 'm connector_scheme \<Rightarrow> 'm connector_scheme res) \<Rightarrow>
   nat \<Rightarrow> 'm connector_scheme \<Rightarrow> 'm connector_scheme res" where
  "cn_handleWrite alloc handover self s =
     (if cn_state s = cnConnecting
      then bindr (removeAndResetChannel self s) (\<lambda>(sockfd, s).
             let (err, s) = getSocketError s
             in if err \<noteq> 0 then cn_retry alloc self sockfd s
                else let (self_connected, s) = cn_isSelfConnect s
                     in if self_connected then cn_retry alloc self sockfd s
                        else let s = cn_setState cnConnected s
                             in if cn_connect s
                                then if newConnectionCallback_set s
                                     then handover sockfd (s\<lparr>cn_open := cn_open s - {sockfd},
                                            cn_handed := cn_handed s @ [sockfd]\<rparr>)
                                     else Inl Bad_Function_Call
                                else Inr (sys_close sockfd s))
      else ensure ''handleWrite: state_'' (cn_state s = cnDisconnected) (Inr s))"

definition cn_handleError ::
  "('m connector_scheme \<Rightarrow> taddr option) \<Rightarrow> nat \<Rightarrow> 'm connector_scheme \<Rightarrow> 'm connector_scheme res" where
  "cn_handleError alloc self s =
     (if cn_state s = cnConnecting
      then bindr (removeAndResetChannel self s) (\<lambda>(sockfd, s).
             let (err, s) = getSocketError s in cn_retry alloc self sockfd s)
      else Inr s)"

fun run_cn ::
  "('m connector_scheme \<Rightarrow> taddr option) \<Rightarrow> ('m connector_scheme \<Rightarrow> cid option) \<Rightarrow>
   (int \<Rightarrow> 'm connector_scheme \<Rightarrow> 'm connector_scheme res) \<Rightarrow> nat \<Rightarrow>
   cn_task call \<Rightarrow> 'm connector_scheme \<Rightarrow> 'm connector_scheme res" where
  "run_cn alloc fresh handover self (Run Cn_Handle_Write) s = cn_handleWrite alloc handover self s"
| "run_cn alloc fresh handover self (Run Cn_Handle_Error) s = cn_handleError alloc self s"
| "run_cn alloc fresh handover self (Run Cn_Start_In_Loop) s = cn_startInLoop alloc fresh self s"
| "run_cn alloc fresh handover self (Run Cn_Stop_In_Loop) s = cn_stopInLoop alloc self s"
| "run_cn alloc fresh handover self (Run Cn_Reset_Channel) s = cn_resetChannel self s"
| "run_cn alloc fresh handover self (Run Cn_Loop_Read) s = Inr (loop_handleRead s)"
| "run_cn alloc fresh handover self k s = cn_request k s"

definition cn_start ::
  "('m connector_scheme \<Rightarrow> taddr option) \<Rightarrow> ('m connector_scheme \<Rightarrow> cid option) \<Rightarrow>
   (int \<Rightarrow> 'm connector_scheme \<Rightarrow> 'm connector_scheme res) \<Rightarrow> nat \<Rightarrow>
   'm connector_scheme \<Rightarrow> 'm connector_scheme res" where
  "cn_start alloc fresh handover self s =
     runInLoop (run_cn alloc fresh handover self) self Cn_Start_In_Loop (s\<lparr>cn_connect := True\<rparr>)"

definition cn_stop :: "nat \<Rightarrow> 'm connector_scheme \<Rightarrow> 'm connector_scheme" where
  "cn_stop self s = queueInLoop self Cn_Stop_In_Loop (s\<lparr>cn_connect := False\<rparr>)"

definition new_Connector :: "'m connector_scheme \<Rightarrow> 'm connector_scheme" where
  "new_Connector s = s\<lparr>cn_connect := False, cn_state := cnDisconnected, cn_channel := None,
     newConnectionCallback_set := False, retryDelayMs := kInitRetryDelayMs, cn_open := {}, cn_handed := []\<rparr>"

definition delete_Connector :: "'m connector_scheme \<Rightarrow> 'm connector_scheme res" where
  "delete_Connector s = ensure ''~Connector'' (cn_channel s = None) (Inr s)"

definition setNewConnectionCallback :: "'m connector_scheme \<Rightarrow> 'm connector_scheme" where
  "setNewConnectionCallback s = s\<lparr>newConnectionCallback_set := True\<rparr>"

section \<open>Timers\<close>

text \<open>What a call on the timer queue changes.\<close>

definition tq_change :: "('f, 'm) tqueue_scheme \<Rightarrow> ('f, 'm) tqueue_scheme \<Rightarrow> bool" where
  "tq_change s s' \<longleftrightarrow> s' = s\<lparr>tq_heap := tq_heap s', numCreated := numCreated s', timers := timers s',
     activeTimers := activeTimers s', armed := armed s'\<rparr>"

lemma tq_change_trans: "tq_change s t \<Longrightarrow> tq_change t u \<Longrightarrow> tq_change s u"
  unfolding tq_change_def by (cases s, cases t, cases u) simp

lemma tq_change_loop:
  assumes "tq_change s s'"
  shows "threadId s' = threadId s" "chans s' = chans s" "pl_channels s' = pl_channels s" "ctl_log s' = ctl_log s"
    "event_capacity s' = event_capacity s" "loop_id s' = loop_id s" "pendingFunctors s' = pendingFunctors s"
    "lp_eventHandling s' = lp_eventHandling s" "use_count s' = use_count s"
  by (subst assms [unfolded tq_change_def], simp)+

lemma addTimerInLoop_change: "addTimerInLoop clock a s = Inr s' \<Longrightarrow> tq_change s s'"
  by (auto simp: addTimerInLoop_def tq_insert_def timer_at_def ensure_def resetTimerfd_def tq_change_def Let_def
    split: option.splits if_splits)

lemma create_Timer_change:
  "create_Timer alloc cb when interval s = Inr (a, s') \<Longrightarrow>
    tq_change s s' \<and> tq_heap s' a = Some (new_Timer cb when interval (numCreated s + 1))"
  by (auto simp: create_Timer_def tq_change_def split: option.splits)

lemma runAfter_ok:
  assumes ok: "queue_ok (\<lambda>_. True) {} s" and alloc: "alloc_ok alloc" and self: "isInLoopThread self s"
    and exec: "\<And>a s. exec (Run (add a)) s = addTimerInLoop (clk s) a s"
  shows "alloc s = None \<and> runAfter exec alloc add self clock delay cb s = Inl Bad_Alloc \<or>
    (\<exists>a s'. runAfter exec alloc add self clock delay cb s = Inr ((a, numCreated s + 1), s') \<and>
      queue_ok (\<lambda>_. True) {} s' \<and> tq_change s s' \<and>
      tq_heap s' a = Some (new_Timer cb (addTime clock delay) (Dbl 0 0) (numCreated s + 1)) \<and>
      (addTime clock delay, a) \<in> set (timers s'))"
proof -
  have i: "interval_ok (Dbl 0 0)" by (simp add: interval_ok_def)
  let ?when = "addTime clock delay"
  show ?thesis
    using create_Timer_ok [OF ok alloc i, of cb ?when]
  proof (elim disjE exE conjE)
    assume "create_Timer alloc cb ?when (Dbl 0 0) s = Inl Bad_Alloc"
    then show ?thesis by (simp add: runAfter_def runAt_def addTimer_def) (simp add: create_Timer_def split: option.splits)
  next
    fix a s1 assume c: "create_Timer alloc cb ?when (Dbl 0 0) s = Inr (a, s1)" and ok1: "queue_ok (\<lambda>_. True) {a} s1"
    note ch = create_Timer_change [OF c]
    have self1: "isInLoopThread self s1"
      using self tq_change_loop(1) [OF ch [THEN conjunct1]] by (simp add: isInLoopThread_def)
    obtain s2 where s2: "addTimerInLoop (clk s1) a s1 = Inr s2" "queue_ok (\<lambda>_. True) {} s2"
      using addTimerInLoop_ok [OF ok1, of a "clk s1"] by auto
    have h: "tq_heap s2 a = Some (new_Timer cb ?when (Dbl 0 0) (numCreated s + 1))"
      using ch addTimerInLoop_heap [OF s2(1)] by simp
    note tok = queue_okD(1) [OF s2(2)]
    obtain w where w: "(w, a) \<in> set (timers s2)"
      using tq_okD(4) [OF tok] h by (force simp: dom_def)
    then have "w = ?when" using tq_okD(2) [OF tok w] h by (simp add: new_Timer_def)
    moreover have "tq_change s s2" using tq_change_trans [OF _ addTimerInLoop_change [OF s2(1)]] ch by blast
    ultimately show ?thesis
      using c s2 self1 h w exec
      by (simp add: runAfter_def runAt_def addTimer_def runInLoop_def timer_at_def new_Timer_def)
  qed
qed

section \<open>The invariant\<close>

definition cn_wired :: "cn_task channel \<Rightarrow> bool" where
  "cn_wired ch \<longleftrightarrow> readCallback ch = None \<and> closeCallback ch = None \<and> \<not> tied ch \<and>
     writeCallback ch = Some Cn_Handle_Write \<and> errorCallback ch = Some Cn_Handle_Error"

text \<open>
  State, channel and sockets agree.  While the connector waits for its socket the channel watches
  it for writing, and the socket is the only one open; otherwise no socket is open, and a channel
  that is still there is off the loop and waits for the one pending \<open>resetChannel\<close>.
\<close>

definition cn_link :: "bool \<Rightarrow> cn_state \<Rightarrow> int set \<Rightarrow> 'm connector_scheme \<Rightarrow> bool" where
  "cn_link handling st op s \<longleftrightarrow>
     (if st = cnConnecting
      then \<exists>c ch. cn_channel s = Some c \<and> chans s c = Some ch \<and> cn_wired ch \<and> ch_eventHandling ch = handling \<and>
        pl_channels s (ch_fd ch) = Some c \<and> ch_events ch = kWriteEvent \<and> op = {ch_fd ch} \<and>
        Cn_Reset_Channel \<notin> set (pendingFunctors s)
      else op = {} \<and>
        (case cn_channel s of
           None \<Rightarrow> Cn_Reset_Channel \<notin> set (pendingFunctors s)
         | Some c \<Rightarrow> count_list (pendingFunctors s) Cn_Reset_Channel = 1 \<and>
             (\<exists>ch. chans s c = Some ch \<and> cn_wired ch \<and> ch_eventHandling ch = handling \<and>
                pl_channels s (ch_fd ch) \<noteq> Some c)))"

definition cn_core :: "nat \<Rightarrow> 'm connector_scheme \<Rightarrow> bool" where
  "cn_core self s \<longleftrightarrow> loop_ok s \<and> queue_ok (\<lambda>_. True) {} s \<and> threadId s = self \<and> \<not> lp_eventHandling s \<and>
     newConnectionCallback_set s \<and> set (pendingFunctors s) \<subseteq> {Cn_Stop_In_Loop, Cn_Reset_Channel, Cn_Start_In_Loop} \<and>
     kInitRetryDelayMs \<le> retryDelayMs s \<and> retryDelayMs s \<le> kMaxRetryDelayMs"

definition cn_ok :: "bool \<Rightarrow> nat \<Rightarrow> 'm connector_scheme \<Rightarrow> bool" where
  "cn_ok handling self s \<longleftrightarrow> cn_core self s \<and> cn_link handling (cn_state s) (cn_open s) s"

lemma loop_ok_cn [simp]:
  "loop_ok (s\<lparr>cn_state := x1\<rparr>) = loop_ok s" "loop_ok (s\<lparr>cn_open := x2\<rparr>) = loop_ok s"
  "loop_ok (s\<lparr>so_errors := x3\<rparr>) = loop_ok s" "loop_ok (s\<lparr>sock_names := x4\<rparr>) = loop_ok s"
  "loop_ok (s\<lparr>cn_handed := x5\<rparr>) = loop_ok s" "loop_ok (s\<lparr>retryDelayMs := x6\<rparr>) = loop_ok s"
  "loop_ok (s\<lparr>cn_connect := x7\<rparr>) = loop_ok s" "loop_ok (s\<lparr>cn_channel := x8\<rparr>) = loop_ok s"
  "loop_ok (s\<lparr>socket_answers := x9\<rparr>) = loop_ok s" "loop_ok (s\<lparr>connect_answers := x10\<rparr>) = loop_ok s"
  by (rule loop_ok_cong; simp)+

lemma cn_core_frame [simp]:
  "cn_core self (s\<lparr>cn_state := x1\<rparr>) = cn_core self s" "cn_core self (s\<lparr>cn_open := x2\<rparr>) = cn_core self s"
  "cn_core self (s\<lparr>so_errors := x3\<rparr>) = cn_core self s" "cn_core self (s\<lparr>sock_names := x4\<rparr>) = cn_core self s"
  "cn_core self (s\<lparr>cn_handed := x5\<rparr>) = cn_core self s" "cn_core self (s\<lparr>cn_connect := x7\<rparr>) = cn_core self s"
  "cn_core self (s\<lparr>cn_channel := x8\<rparr>) = cn_core self s"
  "cn_core self (s\<lparr>socket_answers := x9\<rparr>) = cn_core self s"
  "cn_core self (s\<lparr>connect_answers := x10\<rparr>) = cn_core self s"
  by (simp_all add: cn_core_def queue_ok_def tq_ok_def set_for_def seq_of_def)

lemma cn_link_frame [simp]:
  "cn_link h st op (s\<lparr>cn_state := x1\<rparr>) = cn_link h st op s" "cn_link h st op (s\<lparr>cn_open := x2\<rparr>) = cn_link h st op s"
  "cn_link h st op (s\<lparr>so_errors := x3\<rparr>) = cn_link h st op s"
  "cn_link h st op (s\<lparr>sock_names := x4\<rparr>) = cn_link h st op s"
  "cn_link h st op (s\<lparr>cn_handed := x5\<rparr>) = cn_link h st op s" "cn_link h st op (s\<lparr>retryDelayMs := x6\<rparr>) = cn_link h st op s"
  "cn_link h st op (s\<lparr>cn_connect := x7\<rparr>) = cn_link h st op s"
  "cn_link h st op (s\<lparr>socket_answers := x9\<rparr>) = cn_link h st op s"
  "cn_link h st op (s\<lparr>connect_answers := x10\<rparr>) = cn_link h st op s"
  by (simp_all add: cn_link_def split: option.split)

text \<open>What belongs to the connector's user: its members, the loop they share, and whether to connect.\<close>

definition cn_view :: "'m connector_scheme \<Rightarrow> 'm \<times> nat \<times> bool" where
  "cn_view s = (connector.more s, loop_id s, cn_connect s)"

lemma cn_view_frame [simp]:
  "cn_view (s\<lparr>cn_state := x1\<rparr>) = cn_view s" "cn_view (s\<lparr>cn_open := x2\<rparr>) = cn_view s"
  "cn_view (s\<lparr>so_errors := x3\<rparr>) = cn_view s" "cn_view (s\<lparr>sock_names := x4\<rparr>) = cn_view s"
  "cn_view (s\<lparr>cn_handed := x5\<rparr>) = cn_view s" "cn_view (s\<lparr>retryDelayMs := x6\<rparr>) = cn_view s"
  "cn_view (s\<lparr>cn_channel := x8\<rparr>) = cn_view s"
  "cn_view (s\<lparr>socket_answers := x9\<rparr>) = cn_view s" "cn_view (s\<lparr>connect_answers := x10\<rparr>) = cn_view s"
  "cn_view (s\<lparr>pendingFunctors := x11\<rparr>) = cn_view s" "cn_view (s\<lparr>chans := x12\<rparr>) = cn_view s"
  "cn_view (put_chan c ch s) = cn_view s" "cn_view (create_Channel c fd s) = cn_view s"
  by (simp_all add: cn_view_def put_chan_def create_Channel_def)

lemma cn_fields_poller:
  assumes "poller_change s s'"
  shows "cn_connect s' = cn_connect s" "cn_state s' = cn_state s" "cn_channel s' = cn_channel s"
    "newConnectionCallback_set s' = newConnectionCallback_set s" "retryDelayMs s' = retryDelayMs s"
    "cn_open s' = cn_open s" "cn_handed s' = cn_handed s" "tq_heap s' = tq_heap s" "numCreated s' = numCreated s"
    "timers s' = timers s" "activeTimers s' = activeTimers s" "armed s' = armed s" "cn_clock s' = cn_clock s"
    "so_errors s' = so_errors s" "sock_names s' = sock_names s"
    "socket_answers s' = socket_answers s" "connect_answers s' = connect_answers s" "cn_view s' = cn_view s"
  by (subst assms [unfolded poller_change_def], simp add: cn_view_def)+

lemma cn_fields_timer:
  assumes "tq_change s s'"
  shows "cn_connect s' = cn_connect s" "cn_state s' = cn_state s" "cn_channel s' = cn_channel s"
    "newConnectionCallback_set s' = newConnectionCallback_set s" "retryDelayMs s' = retryDelayMs s"
    "cn_open s' = cn_open s" "cn_handed s' = cn_handed s" "cn_view s' = cn_view s"
    "socket_answers s' = socket_answers s" "connect_answers s' = connect_answers s"
  by (subst assms [unfolded tq_change_def], simp add: cn_view_def)+

lemma queue_ok_poller:
  fixes s :: "'m connector_scheme"
  shows "poller_change s s' \<Longrightarrow> queue_ok D X s' = queue_ok D X s"
  by (rule queue_ok_cong) (simp_all add: cn_fields_poller)

lemma queued_fields [simp]:
  "pendingFunctors (queueInLoop self f s) = pendingFunctors s @ [f]" "chans (queueInLoop self f s) = chans s"
  "pl_channels (queueInLoop self f s) = pl_channels s" "threadId (queueInLoop self f s) = threadId s"
  "lp_eventHandling (queueInLoop self f s) = lp_eventHandling s"
  by (simp_all add: queueInLoop_def queue_wakeup_def queue_push_def wakeup_def)

lemma queued_cn [simp]:
  "cn_connect (queueInLoop self f s) = cn_connect s" "cn_state (queueInLoop self f s) = cn_state s"
  "cn_channel (queueInLoop self f s) = cn_channel s" "retryDelayMs (queueInLoop self f s) = retryDelayMs s"
  "newConnectionCallback_set (queueInLoop self f s) = newConnectionCallback_set s"
  "cn_open (queueInLoop self f s) = cn_open s" "cn_handed (queueInLoop self f s) = cn_handed s"
  "so_errors (queueInLoop self f s) = so_errors s" "sock_names (queueInLoop self f s) = sock_names s"
  "socket_answers (queueInLoop self f s) = socket_answers s"
  "connect_answers (queueInLoop self f s) = connect_answers s"
  "cn_view (queueInLoop self f s) = cn_view s"
  by (simp_all add: queueInLoop_def queue_wakeup_def queue_push_def wakeup_def cn_view_def)

lemma queued_ok [simp]:
  "loop_ok (queueInLoop self f s) = loop_ok s" "queue_ok D X (queueInLoop self f s) = queue_ok D X s"
  by (auto simp: queueInLoop_def queue_wakeup_def queue_push_def wakeup_def queue_ok_def tq_ok_def set_for_def
    seq_of_def)

lemma cn_coreD:
  assumes "cn_core self s"
  shows "loop_ok s" "queue_ok (\<lambda>_. True) {} s" "threadId s = self" "\<not> lp_eventHandling s"
    "newConnectionCallback_set s" "set (pendingFunctors s) \<subseteq> {Cn_Stop_In_Loop, Cn_Reset_Channel, Cn_Start_In_Loop}"
    "kInitRetryDelayMs \<le> retryDelayMs s" "retryDelayMs s \<le> kMaxRetryDelayMs"
  using assms by (simp_all add: cn_core_def)

section \<open>Steps that keep it\<close>

lemma removeAndResetChannel_ok:
  assumes core: "cn_core self s" and link: "cn_link h cnConnecting op s"
  shows "\<exists>fd s'. removeAndResetChannel self s = Inr (fd, s') \<and> op = {fd} \<and> cn_core self s' \<and>
    (\<forall>st. st \<noteq> cnConnecting \<longrightarrow> cn_link h st {} s') \<and> cn_open s' = cn_open s \<and> cn_state s' = cn_state s \<and>
    cn_connect s' = cn_connect s \<and> cn_handed s' = cn_handed s \<and> retryDelayMs s' = retryDelayMs s \<and>
    cn_channel s' = cn_channel s \<and> so_errors s' = so_errors s \<and> sock_names s' = sock_names s \<and>
    socket_answers s' = socket_answers s \<and> connect_answers s' = connect_answers s \<and>
    pendingFunctors s' = pendingFunctors s @ [Cn_Reset_Channel] \<and> cn_view s' = cn_view s"
proof -
  note D = cn_coreD [OF core]
  obtain c ch where ch: "cn_channel s = Some c" "chans s c = Some ch" "cn_wired ch" "ch_eventHandling ch = h"
      "pl_channels s (ch_fd ch) = Some c" "op = {ch_fd ch}" "Cn_Reset_Channel \<notin> set (pendingFunctors s)"
    using link by (auto simp: cn_link_def)
  obtain s1 where s1: "set_interest (\<lambda>_. kNoneEvent) c s = Inr s1" "loop_ok s1" "poller_change s s1"
      "chans s1 = (chans s)(c \<mapsto> ch\<lparr>ch_events := kNoneEvent, addedToLoop := True,
         ch_index := if ch_index ch = kAdded \<and> kNoneEvent = kNoneEvent then kDeleted else kAdded\<rparr>)"
      "pl_channels s1 = (pl_channels s)(ch_fd ch \<mapsto> c)"
    using interest_change [OF D(1) ch(2), of "\<lambda>_. kNoneEvent"] ch(5) by auto
  note f1 = loop_fields_change [OF s1(3)] cn_fields_poller [OF s1(3)]
  let ?ch1 = "ch\<lparr>ch_events := kNoneEvent, addedToLoop := True,
         ch_index := if ch_index ch = kAdded \<and> kNoneEvent = kNoneEvent then kDeleted else kAdded\<rparr>"
  have c1: "chans s1 c = Some ?ch1" using s1(4) by simp
  obtain s2 where s2: "ch_remove c s1 = Inr s2" "loop_ok s2" "poller_change s1 s2"
    using ch_remove_ok [OF s1(2) c1] s1(5) D(4) f1 by (auto simp: isNoneEvent_def view_channel_def)
  note f2 = loop_fields_change [OF s2(3)] cn_fields_poller [OF s2(3)]
  have c2: "chans s2 c = Some (?ch1\<lparr>addedToLoop := False, ch_index := kNew\<rparr>)"
    using ch_remove_chans [OF s2(1) c1] by simp
  have unreg: "pl_channels s2 (ch_fd ch) \<noteq> Some c"
    using loop_okD(3) [OF s2(2) c2] by simp
  have "cn_core self s2"
    using core s2(2) queue_ok_poller [OF s1(3)] queue_ok_poller [OF s2(3)] by (simp add: cn_core_def f1 f2)
  then have "cn_core self (queueInLoop self Cn_Reset_Channel s2)" by (simp add: cn_core_def)
  moreover have "cn_link h st {} (queueInLoop self Cn_Reset_Channel s2)" if "st \<noteq> cnConnecting" for st
    using that ch(1,3,4,7) c2 unreg by (simp add: cn_link_def f1 f2 cn_wired_def count_list_0_iff)
  ultimately show ?thesis
    using s1(1) s2(1) c2 ch(1,6) by (simp add: removeAndResetChannel_def interest_ops chan_Some f1 f2)
qed

lemma cn_retry_ok:
  assumes core: "cn_core self s" and link: "cn_link h cnDisconnected {} s" and op: "cn_open s \<subseteq> {fd}"
    and alloc: "alloc_ok alloc"
  shows "safe (\<lambda>s'. cn_ok h self s' \<and> cn_state s' = cnDisconnected \<and> cn_channel s' = cn_channel s \<and> chans s' = chans s \<and>
      cn_handed s' = cn_handed s \<and> cn_connect s' = cn_connect s \<and> cn_view s' = cn_view s \<and>
      retryDelayMs s' = (if cn_connect s then min (retryDelayMs s * 2) kMaxRetryDelayMs else retryDelayMs s) \<and>
      pendingFunctors s' = pendingFunctors s \<and> pl_channels s' = pl_channels s \<and>
      socket_answers s' = socket_answers s \<and> connect_answers s' = connect_answers s)
    (cn_retry alloc self fd s)"
proof -
  let ?s = "cn_setState cnDisconnected (sys_close fd s)"
  have op': "cn_open ?s = {}" using op by (auto simp: cn_setState_def sys_close_def)
  have core': "cn_core self ?s" and link': "cn_link h cnDisconnected {} ?s"
    using core link by (simp_all add: cn_setState_def sys_close_def)
  show ?thesis
  proof (cases "cn_connect s")
    case False
    then show ?thesis
      using core' link' op' by (simp add: cn_retry_def cn_ok_def Let_def) (simp add: cn_setState_def sys_close_def)
  next
    case True
    note D = cn_coreD [OF core']
    let ?run = "runAfter cn_request alloc Cn_Add_Timer self (cn_clock ?s) (retry_seconds (retryDelayMs ?s)) Cn_Start_In_Loop ?s"
    consider "?run = Inl Bad_Alloc" | a s1 where "?run = Inr ((a, numCreated ?s + 1), s1)" "queue_ok (\<lambda>_. True) {} s1" "tq_change ?s s1"
      using runAfter_ok [OF D(2) alloc, of self cn_request Cn_Add_Timer cn_clock "cn_clock ?s" "retry_seconds (retryDelayMs ?s)" Cn_Start_In_Loop]
        D(3) by (auto simp: isInLoopThread_def)
    then show ?thesis
    proof cases
      case 1
      then show ?thesis using True by (simp add: cn_retry_def Let_def cn_setState_def sys_close_def)
    next
      case 2
      note f = tq_change_loop [OF 2(3)] cn_fields_timer [OF 2(3)]
      have "loop_ok s1 = loop_ok ?s" by (rule loop_ok_cong) (simp_all add: f)
      then have "cn_core self (s1\<lparr>retryDelayMs := min (retryDelayMs s1 * 2) kMaxRetryDelayMs\<rparr>)"
        using D 2(2) by (simp add: cn_core_def f kInitRetryDelayMs_def kMaxRetryDelayMs_def queue_ok_def tq_ok_def set_for_def seq_of_def)
      moreover have "cn_link h cnDisconnected {} s1"
        using link' by (simp add: cn_link_def f split: option.splits)
      moreover have "cn_state s1 = cnDisconnected" "cn_open s1 = {}" "cn_channel s1 = cn_channel s" "chans s1 = chans s"
          "cn_handed s1 = cn_handed s" "retryDelayMs s1 = retryDelayMs s" "cn_connect ?s" "cn_connect s1 = cn_connect s" "cn_view s1 = cn_view s"
          "pendingFunctors s1 = pendingFunctors s" "pl_channels s1 = pl_channels s"
          "socket_answers s1 = socket_answers s" "connect_answers s1 = connect_answers s"
        using op' True by (simp_all add: f) (simp_all add: cn_setState_def sys_close_def)
      ultimately show ?thesis
        using 2(1) True by (simp add: cn_retry_def Let_def cn_ok_def)
    qed
  qed
qed


text \<open>The allocator of channels gives free addresses.\<close>

definition fresh_ok :: "('m connector_scheme \<Rightarrow> cid option) \<Rightarrow> bool" where
  "fresh_ok fresh \<longleftrightarrow> (\<forall>s c. fresh s = Some c \<longrightarrow> chans s c = None)"

lemma cn_callbacks_fields [simp]:
  "ch_fd (cn_callbacks ch) = ch_fd ch" "ch_index (cn_callbacks ch) = ch_index ch"
  "ch_events (cn_callbacks ch) = ch_events ch" "ch_loop (cn_callbacks ch) = ch_loop ch"
  "addedToLoop (cn_callbacks ch) = addedToLoop ch" "ch_eventHandling (cn_callbacks ch) = ch_eventHandling ch"
  by (simp_all add: cn_callbacks_def setErrorCallback_def setWriteCallback_def)

lemma cn_wired_new: "cn_wired (cn_callbacks (new_Channel l fd))"
  by (simp add: cn_wired_def cn_callbacks_def setErrorCallback_def setWriteCallback_def new_Channel_def)

lemma cn_connecting_run:
  assumes core: "cn_core self s" and none: "cn_channel s = None" "Cn_Reset_Channel \<notin> set (pendingFunctors s)"
    and op: "cn_open s = {fd}" and free: "pl_channels s fd = None" and fresh: "fresh_ok fresh"
    and Some: "fresh (cn_setState cnConnecting s) = Some c"
  shows "\<exists>s'. cn_connecting fresh fd s = Inr s' \<and> cn_ok False self s' \<and> cn_state s' = cnConnecting \<and>
    cn_handed s' = cn_handed s \<and> cn_open s' = {fd} \<and> pendingFunctors s' = pendingFunctors s \<and> cn_connect s' = cn_connect s \<and>
    so_errors s' = so_errors s \<and> sock_names s' = sock_names s \<and> socket_answers s' = socket_answers s \<and>
    connect_answers s' = connect_answers s \<and> cn_view s' = cn_view s \<and> pl_channels s' = (pl_channels s)(fd \<mapsto> c)"
proof -
  note D = cn_coreD [OF core]
  let ?s0 = "s\<lparr>cn_state := cnConnecting\<rparr>"
  let ?n = "new_Channel (loop_id s) fd :: cn_task channel"
  let ?s1 = "(create_Channel c fd ?s0)\<lparr>cn_channel := Some c\<rparr>" and ?s2 = "put_chan c (cn_callbacks ?n) ((create_Channel c fd ?s0)\<lparr>cn_channel := Some c\<rparr>)"
  have c0: "chans ?s0 c = None" using fresh [unfolded fresh_ok_def, rule_format, OF Some] by (simp add: cn_setState_def)
  have lok0: "loop_ok ?s0" using D(1) by simp
  have lok1: "loop_ok ?s1" using create_Channel_ok(1) [OF lok0 c0] by simp
  have c1: "chans ?s1 c = Some ?n" by (simp add: create_Channel_def put_chan_def)
  have lok2: "loop_ok ?s2" by (rule put_chan_loop_ok [OF lok1 c1]) simp_all
  have c2: "chans ?s2 c = Some (cn_callbacks ?n)" by (simp add: put_chan_def)
  have pl2: "pl_channels ?s2 = pl_channels s" by (simp add: put_chan_def create_Channel_def)
  have fdn: "ch_fd (cn_callbacks ?n) = fd" "ch_events (cn_callbacks ?n) = 0" "\<not> ch_eventHandling (cn_callbacks ?n)"
    by (simp_all add: new_Channel_def)
  obtain s3 ch3 where s3: "set_interest (\<lambda>m. m OR kWriteEvent) c ?s2 = Inr s3" "loop_ok s3" "poller_change ?s2 s3"
      "chans s3 c = Some ch3" "pl_channels s3 fd = Some c"
      "ch_fd ch3 = fd" "ch_events ch3 = kWriteEvent" "cn_wired ch3" "\<not> ch_eventHandling ch3"
      "pl_channels s3 = (pl_channels s)(fd \<mapsto> c)"
    using interest_change [OF lok2 c2, of "\<lambda>m. m OR kWriteEvent"] free pl2 fdn cn_wired_new [of "loop_id s" fd]
    by (auto simp: cn_wired_def)
  note f = loop_fields_change [OF s3(3)] cn_fields_poller [OF s3(3)]
  have g: "cn_state ?s2 = cnConnecting" "cn_open ?s2 = {fd}" "cn_channel ?s2 = Some c" "pendingFunctors ?s2 = pendingFunctors s"
      "threadId ?s2 = threadId s" "lp_eventHandling ?s2 = lp_eventHandling s" "cn_handed ?s2 = cn_handed s"
      "newConnectionCallback_set ?s2 = newConnectionCallback_set s" "retryDelayMs ?s2 = retryDelayMs s"
      "cn_connect ?s2 = cn_connect s" "so_errors ?s2 = so_errors s" "sock_names ?s2 = sock_names s"
      "socket_answers ?s2 = socket_answers s" "connect_answers ?s2 = connect_answers s" "cn_view ?s2 = cn_view s"
    using op by (simp_all add: put_chan_def create_Channel_def)
  have "queue_ok (\<lambda>_. True) {} ?s2 = queue_ok (\<lambda>_. True) {} s"
    by (rule queue_ok_cong) (simp_all add: put_chan_def create_Channel_def)
  then have "cn_core self s3"
    using core s3(2) queue_ok_poller [OF s3(3)] by (simp add: cn_core_def f g)
  moreover have "cn_link False cnConnecting {fd} s3"
    using s3(4-9) none by (simp add: cn_link_def f g)
  ultimately show ?thesis
    using none Some s3(1,10) c1
    by (simp add: cn_connecting_def Let_def cn_setState_def upd_chan_Some interest_ops cn_ok_def f g)
qed

lemma cn_connecting_ok:
  assumes core: "cn_core self s" and none: "cn_channel s = None" "Cn_Reset_Channel \<notin> set (pendingFunctors s)"
    and op: "cn_open s = {fd}" and free: "pl_channels s fd = None" and fresh: "fresh_ok fresh"
  shows "safe (\<lambda>s'. cn_ok False self s' \<and> cn_state s' = cnConnecting \<and> cn_handed s' = cn_handed s \<and> cn_view s' = cn_view s) (cn_connecting fresh fd s)"
proof (cases "fresh (cn_setState cnConnecting s)")
  case None
  then show ?thesis using none by (simp add: cn_connecting_def cn_setState_def)
next
  case (Some c)
  then show ?thesis using cn_connecting_run [OF assms] by fastforce
qed

text \<open>A socket the kernel hands out is not on the loop already.\<close>

definition next_socket_free :: "'m connector_scheme \<Rightarrow> bool" where
  "next_socket_free s \<longleftrightarrow> (case socket_answers s of [] \<Rightarrow> True | fd # _ \<Rightarrow> fd < 0 \<or> pl_channels s fd = None)"

text \<open>Whether \<open>connect\<close>, called now, would go on to \<open>connecting\<close>.\<close>

definition connect_waits :: "'m connector_scheme \<Rightarrow> bool" where
  "connect_waits s =
     (let (sockfd, s) = createNonblockingOrDie s; (savedErrno, s) = sys_connect sockfd s in in_progress savedErrno)"

text \<open>
  The assertion that \<open>startInLoop\<close>, called now with \<open>connect_\<close> as given, fails: the connector must be
  disconnected, and the channel of an earlier attempt gone when a new one is to wait.
\<close>

definition start_fault :: "bool \<Rightarrow> 'm connector_scheme \<Rightarrow> fault option" where
  "start_fault wanted s =
     (if cn_state s \<noteq> cnDisconnected then Some (Assert_Failed ''startInLoop: state_'')
      else if wanted \<and> cn_channel s \<noteq> None \<and> connect_waits s then Some (Assert_Failed ''connecting: !channel_'')
      else None)"

lemma connect_waits_frame [simp]:
  "connect_waits (s\<lparr>cn_connect := x1\<rparr>) = connect_waits s" "connect_waits (s\<lparr>pendingFunctors := x2\<rparr>) = connect_waits s"
  "connect_waits (s\<lparr>cn_state := x3\<rparr>) = connect_waits s" "connect_waits (s\<lparr>retryDelayMs := x4\<rparr>) = connect_waits s"
  by (auto simp: connect_waits_def createNonblockingOrDie_def sys_connect_def Let_def split: list.splits)

lemma start_fault_frame [simp]:
  "start_fault w (s\<lparr>cn_connect := x1\<rparr>) = start_fault w s" "start_fault w (s\<lparr>pendingFunctors := x2\<rparr>) = start_fault w s"
  by (simp_all add: start_fault_def)

lemma next_socket_free_frame [simp]:
  "next_socket_free (s\<lparr>cn_connect := x1\<rparr>) = next_socket_free s" "next_socket_free (s\<lparr>pendingFunctors := x2\<rparr>) = next_socket_free s"
  "next_socket_free (s\<lparr>cn_state := x3\<rparr>) = next_socket_free s" "next_socket_free (s\<lparr>retryDelayMs := x4\<rparr>) = next_socket_free s"
  by (simp_all add: next_socket_free_def split: list.splits)

lemma createNonblocking_cases:
  obtains (failed) fds where "createNonblockingOrDie s = (- 1, s\<lparr>socket_answers := fds\<rparr>)"
    | (socket) fd fds where "createNonblockingOrDie s = (fd, s\<lparr>socket_answers := fds, cn_open := insert fd (cn_open s)\<rparr>)"
      "0 \<le> fd" "socket_answers s = fd # fds"
proof (cases "socket_answers s")
  case Nil
  then have "s\<lparr>socket_answers := []\<rparr> = s" by (cases s) simp
  then show ?thesis using failed [of "[]"] Nil by (simp add: createNonblockingOrDie_def)
next
  case (Cons fd fds)
  show ?thesis
  proof (cases "fd < 0")
    case True
    show ?thesis by (rule failed [of fds]) (simp add: Cons True createNonblockingOrDie_def)
  next
    case False
    show ?thesis by (rule socket [of fd fds]) (use Cons False in \<open>simp_all add: createNonblockingOrDie_def\<close>)
  qed
qed

lemma sys_connect_cases:
  assumes "0 \<le> fd"
  obtains e es where "sys_connect fd s = (e, s\<lparr>connect_answers := es\<rparr>)"
proof (cases "connect_answers s")
  case Nil
  then have "s\<lparr>connect_answers := []\<rparr> = s" by (cases s) simp
  then show ?thesis using that [of EINPROGRESS "[]"] Nil assms by (simp add: sys_connect_def)
next
  case (Cons e es)
  then show ?thesis using that [of e es] assms by (simp add: sys_connect_def)
qed

lemma bad_fd [simp]: "\<not> in_progress EBADF" "\<not> worth_a_retry EBADF"
  by (simp_all add: in_progress_def worth_a_retry_def EBADF_def EINPROGRESS_def EINTR_def EISCONN_def cn_EAGAIN_def
    EADDRINUSE_def EADDRNOTAVAIL_def ECONNREFUSED_def ENETUNREACH_def)

lemma cn_connect_now_ok:
  assumes ok: "cn_ok False self s" and st: "cn_state s = cnDisconnected" and kernel: "next_socket_free s"
    and clear: "cn_channel s = None \<or> \<not> connect_waits s" and alloc: "alloc_ok alloc" and fresh: "fresh_ok fresh"
  shows "safe (\<lambda>s'. cn_ok False self s' \<and> cn_handed s' = cn_handed s \<and> cn_view s' = cn_view s) (cn_connect_now alloc fresh self s)"
proof -
  have core: "cn_core self s" and op: "cn_open s = {}" and link: "cn_link False cnDisconnected {} s"
      and gone: "cn_channel s = None \<Longrightarrow> Cn_Reset_Channel \<notin> set (pendingFunctors s)"
    using ok st by (auto simp: cn_ok_def cn_link_def)
  show ?thesis
  proof (cases rule: createNonblocking_cases [of s])
    case (failed fds)
    then show ?thesis
      using ok op by (simp add: cn_connect_now_def sys_connect_def sys_close_def cn_ok_def)
  next
    case (socket fd fds)
    let ?s = "s\<lparr>socket_answers := fds, cn_open := insert fd (cn_open s)\<rparr>"
    obtain e es where e: "sys_connect fd ?s = (e, ?s\<lparr>connect_answers := es\<rparr>)"
      by (rule sys_connect_cases [OF socket(2)])
    define s2 where "s2 = ?s\<lparr>connect_answers := es\<rparr>"
    have core2: "cn_core self s2" and g: "cn_channel s2 = cn_channel s" "cn_open s2 = {fd}" "cn_state s2 = cnDisconnected"
        "pendingFunctors s2 = pendingFunctors s" "pl_channels s2 = pl_channels s" "cn_handed s2 = cn_handed s" "cn_view s2 = cn_view s"
      using core st op by (simp_all add: s2_def)
    have free: "pl_channels s2 fd = None"
      using kernel socket(2,3) g(5) by (simp add: next_socket_free_def)
    have link2: "cn_link False cnDisconnected {} s2" using link by (simp add: s2_def)
    have waits: "connect_waits s = in_progress e" using socket(1) e by (simp add: connect_waits_def)
    have run: "cn_connect_now alloc fresh self s =
        (if in_progress e then cn_connecting fresh fd s2
         else if worth_a_retry e then cn_retry alloc self fd s2 else Inr (sys_close fd s2))"
      using socket(1) e by (simp add: cn_connect_now_def s2_def)
    have 1: "safe (\<lambda>s'. cn_ok False self s' \<and> cn_handed s' = cn_handed s \<and> cn_view s' = cn_view s) (cn_connecting fresh fd s2)"
      if "in_progress e"
    proof -
      have none: "cn_channel s2 = None" "Cn_Reset_Channel \<notin> set (pendingFunctors s2)"
        using clear gone waits that g(1,4) by auto
      show ?thesis by (rule barring_mono [OF cn_connecting_ok [OF core2 none g(2) free fresh]]) (use g in simp_all)
    qed
    have 2: "safe (\<lambda>s'. cn_ok False self s' \<and> cn_handed s' = cn_handed s \<and> cn_view s' = cn_view s) (cn_retry alloc self fd s2)"
      by (rule barring_mono [OF cn_retry_ok [OF core2 link2 _ alloc]]) (use g in simp_all)
    have 3: "cn_ok False self (sys_close fd s2)"
      using core2 link2 g(2,3) by (simp add: cn_ok_def sys_close_def)
    show ?thesis
      unfolding run using 1 2 3 g(6,7) by (simp add: sys_close_def)
  qed
qed

lemma cn_connect_now_fails:
  assumes "cn_channel s \<noteq> None" "connect_waits s"
  shows "cn_connect_now alloc fresh self s = Inl (Assert_Failed ''connecting: !channel_'')"
proof -
  obtain fd s1 where c: "createNonblockingOrDie s = (fd, s1)" by fastforce
  moreover obtain e s2 where e: "sys_connect fd s1 = (e, s2)" by fastforce
  ultimately have "in_progress e" "cn_channel s2 = cn_channel s"
    using assms(2) by (auto simp: connect_waits_def createNonblockingOrDie_def sys_connect_def Let_def
      split: list.splits if_splits)
  then show ?thesis
    using assms(1) c e by (auto simp: cn_connect_now_def cn_connecting_def cn_setState_def ensure_def Let_def)
qed

text \<open>\<open>startInLoop\<close> fails exactly when it is to blame.\<close>

lemma cn_startInLoop_ok:
  assumes ok: "cn_ok False self s" and kernel: "next_socket_free s" and none: "start_fault (cn_connect s) s = None"
    and alloc: "alloc_ok alloc" and fresh: "fresh_ok fresh"
  shows "safe (\<lambda>s'. cn_ok False self s' \<and> cn_handed s' = cn_handed s \<and> cn_view s' = cn_view s) (cn_startInLoop alloc fresh self s)"
  using cn_connect_now_ok [OF ok _ kernel _ alloc fresh] ok none
  by (auto simp: cn_startInLoop_def start_fault_def split: if_splits)

lemma cn_startInLoop_fails:
  "start_fault (cn_connect s) s = Some e \<Longrightarrow> cn_startInLoop alloc fresh self s = Inl e"
  using cn_connect_now_fails [of s alloc fresh self]
  by (auto simp: cn_startInLoop_def start_fault_def ensure_def split: if_splits)

lemma cn_ok_core: "cn_ok h self s \<Longrightarrow> cn_core self s"
  by (simp add: cn_ok_def)

lemma cn_link_connecting: "cn_ok h self s \<Longrightarrow> cn_state s = cnConnecting \<Longrightarrow> cn_link h cnConnecting (cn_open s) s"
  by (simp add: cn_ok_def)

lemma getSocketError_cases:
  obtains e es where "getSocketError s = (e, s\<lparr>so_errors := es\<rparr>)"
proof (cases "so_errors s")
  case Nil
  then have "s\<lparr>so_errors := []\<rparr> = s" by (cases s) simp
  then show ?thesis using that [of 0 "[]"] Nil by (simp add: getSocketError_def)
next
  case (Cons e es)
  show ?thesis by (rule that [of e es]) (simp add: getSocketError_def Cons)
qed

text \<open>A user's callback that leaves the connector alone.\<close>

definition handover_ok :: "nat \<Rightarrow> (int \<Rightarrow> 'm connector_scheme \<Rightarrow> 'm connector_scheme res) \<Rightarrow> bool" where
  "handover_ok self handover \<longleftrightarrow> (\<forall>h fd s. cn_ok h self s \<longrightarrow>
     safe (\<lambda>s'. cn_ok h self s' \<and> cn_channel s' = cn_channel s \<and> cn_state s' = cn_state s) (handover fd s))"

lemma cn_handleError_ok:
  assumes ok: "cn_ok h self s" and alloc: "alloc_ok alloc"
  shows "safe (\<lambda>s'. cn_ok h self s' \<and> cn_channel s' = cn_channel s \<and> (cn_state s' = cn_state s \<or> cn_state s' = cnDisconnected) \<and>
      cn_view s' = cn_view s \<and> cn_handed s' = cn_handed s)
    (cn_handleError alloc self s)"
proof (cases "cn_state s = cnConnecting")
  case True
  obtain fd s1 where s1: "removeAndResetChannel self s = Inr (fd, s1)" "cn_open s = {fd}" "cn_core self s1"
      "\<forall>st. st \<noteq> cnConnecting \<longrightarrow> cn_link h st {} s1" "cn_open s1 = cn_open s" "cn_channel s1 = cn_channel s"
      "cn_view s1 = cn_view s" "cn_handed s1 = cn_handed s"
    using removeAndResetChannel_ok [OF cn_ok_core [OF ok] cn_link_connecting [OF ok True]] by auto
  obtain e es where e: "getSocketError s1 = (e, s1\<lparr>so_errors := es\<rparr>)" by (rule getSocketError_cases)
  have "safe (\<lambda>s'. cn_ok h self s' \<and> cn_channel s' = cn_channel s \<and> (cn_state s' = cn_state s \<or> cn_state s' = cnDisconnected) \<and>
      cn_view s' = cn_view s \<and> cn_handed s' = cn_handed s)
      (cn_retry alloc self fd (s1\<lparr>so_errors := es\<rparr>))"
    by (rule barring_mono [OF cn_retry_ok [where h = h, OF _ _ _ alloc]]) (use s1 in simp_all)
  then show ?thesis using True s1(1) e by (simp add: cn_handleError_def)
next
  case False
  then show ?thesis using ok by (simp add: cn_handleError_def)
qed

lemma cn_isSelfConnect_cases:
  obtains b bs where "cn_isSelfConnect s = (b, s\<lparr>sock_names := bs\<rparr>)"
proof (cases "sock_names s")
  case Nil
  then have "s\<lparr>sock_names := []\<rparr> = s" by (cases s) simp
  then show ?thesis using that [of "isSelfConnect None None" "[]"] Nil by (simp add: cn_isSelfConnect_def)
next
  case (Cons n ns)
  show ?thesis
    by (rule that [of "isSelfConnect (fst n) (snd n)" ns]) (simp add: cn_isSelfConnect_def Cons split: prod.split)
qed

text \<open>What a step leaves to the connector's user: nothing new, or one socket handed over.\<close>

definition hands_over ::
  "(int \<Rightarrow> 'm connector_scheme \<Rightarrow> 'm connector_scheme res) \<Rightarrow> 'm connector_scheme \<Rightarrow> 'm connector_scheme \<Rightarrow> bool" where
  "hands_over handover s s' \<longleftrightarrow>
     cn_view s' = cn_view s \<and> cn_handed s' = cn_handed s \<or>
     (\<exists>h self fd u v. cn_ok h self u \<and> cn_view u = cn_view s \<and> cn_handed u = cn_handed s @ [fd] \<and> cn_state u = cnConnected \<and>
        cn_connect u \<and> handover fd u = Inr v \<and> cn_view s' = cn_view v \<and> cn_handed s' = cn_handed v \<and> cn_state s' = cn_state v)"

lemma hands_over_refl: "cn_view s' = cn_view s \<Longrightarrow> cn_handed s' = cn_handed s \<Longrightarrow> hands_over handover s s'"
  by (simp add: hands_over_def)

lemma hands_over_cong:
  assumes "hands_over handover s t" "cn_view t' = cn_view t" "cn_handed t' = cn_handed t" "cn_state t' = cn_state t"
  shows "hands_over handover s t'"
  using assms unfolding hands_over_def by metis

lemma cn_handleWrite_ok:
  assumes ok: "cn_ok h self s" and alloc: "alloc_ok alloc" and hand: "handover_ok self handover"
    and st: "cn_state s \<noteq> cnConnected"
  shows "safe (\<lambda>s'. cn_ok h self s' \<and> cn_channel s' = cn_channel s \<and> hands_over handover s s') (cn_handleWrite alloc handover self s)"
proof (cases "cn_state s = cnConnecting")
  case True
  let ?P = "\<lambda>s'. cn_ok h self s' \<and> cn_channel s' = cn_channel s \<and> hands_over handover s s'"
  obtain fd s1 where s1: "removeAndResetChannel self s = Inr (fd, s1)" "cn_open s = {fd}" "cn_core self s1"
      "\<forall>st. st \<noteq> cnConnecting \<longrightarrow> cn_link h st {} s1" "cn_open s1 = cn_open s" "cn_channel s1 = cn_channel s"
      "cn_view s1 = cn_view s" "cn_handed s1 = cn_handed s"
    using removeAndResetChannel_ok [OF cn_ok_core [OF ok] cn_link_connecting [OF ok True]] by auto
  obtain e es where e: "getSocketError s1 = (e, s1\<lparr>so_errors := es\<rparr>)" by (rule getSocketError_cases)
  obtain b bs where b: "cn_isSelfConnect (s1\<lparr>so_errors := es\<rparr>) = (b, s1\<lparr>so_errors := es, sock_names := bs\<rparr>)"
    using cn_isSelfConnect_cases [of "s1\<lparr>so_errors := es\<rparr>"] by blast
  define s2 where "s2 = s1\<lparr>so_errors := es, sock_names := bs\<rparr>"
  have g: "cn_core self s2" "cn_link h cnDisconnected {} s2" "cn_link h cnConnected {} s2" "cn_open s2 = {fd}"
      "cn_channel s2 = cn_channel s" "cn_view s2 = cn_view s" "cn_handed s2 = cn_handed s"
    using s1 by (simp_all add: s2_def)
  have 1: "safe ?P (cn_retry alloc self fd (s1\<lparr>so_errors := es\<rparr>))"
    by (rule barring_mono [OF cn_retry_ok [where h = h, OF _ _ _ alloc]]) (use s1 in \<open>simp_all add: hands_over_refl\<close>)
  have 2: "safe ?P (cn_retry alloc self fd s2)"
    by (rule barring_mono [OF cn_retry_ok [where h = h, OF _ _ _ alloc]]) (use g in \<open>simp_all add: hands_over_refl\<close>)
  let ?s3 = "cn_setState cnConnected s2"
  let ?s4 = "?s3\<lparr>cn_open := cn_open ?s3 - {fd}, cn_handed := cn_handed ?s3 @ [fd]\<rparr>"
  have ok4: "cn_ok h self ?s4" and s4: "cn_view ?s4 = cn_view s" "cn_handed ?s4 = cn_handed s @ [fd]" "cn_state ?s4 = cnConnected"
      "cn_channel ?s4 = cn_channel s"
    using g by (simp_all add: cn_ok_def cn_setState_def)
  have 3: "safe ?P (handover fd ?s4)" if con: "cn_connect ?s4"
  proof (cases "handover fd ?s4")
    case (Inr v)
    then have "hands_over handover s v" unfolding hands_over_def using ok4 s4 con by blast
    then show ?thesis
      using hand [unfolded handover_ok_def, rule_format, OF ok4, of fd] s4(4) Inr by simp
  qed (use hand [unfolded handover_ok_def, rule_format, OF ok4, of fd] in simp)
  have 4: "?P (sys_close fd ?s3)" using g by (simp add: cn_ok_def cn_setState_def sys_close_def hands_over_refl)
  have set': "newConnectionCallback_set ?s3" using cn_coreD(5) [OF g(1)] by (simp add: cn_setState_def)
  have "cn_handleWrite alloc handover self s =
      (if e \<noteq> 0 then cn_retry alloc self fd (s1\<lparr>so_errors := es\<rparr>)
       else if b then cn_retry alloc self fd s2
       else if cn_connect ?s3 then handover fd ?s4 else Inr (sys_close fd ?s3))"
    using True s1(1) e b set' by (simp add: cn_handleWrite_def s2_def [symmetric] Let_def)
  then show ?thesis using 1 2 3 4 by simp
next
  case False
  then have "cn_state s = cnDisconnected" using st by (cases "cn_state s") simp_all
  then show ?thesis using ok by (simp add: cn_handleWrite_def hands_over_refl)
qed

lemma cn_stopInLoop_ok:
  assumes ok: "cn_ok False self s" and alloc: "alloc_ok alloc"
  shows "safe (\<lambda>s'. cn_ok False self s' \<and> cn_view s' = cn_view s \<and> cn_handed s' = cn_handed s \<and>
      (cn_state s' = cn_state s \<or> cn_state s = cnConnecting)) (cn_stopInLoop alloc self s)"
    (is "safe ?P _")
proof (cases "cn_state s = cnConnecting")
  case True
  have "cn_core self (cn_setState cnDisconnected s)" "cn_link False cnConnecting (cn_open s) (cn_setState cnDisconnected s)"
    using ok True by (simp_all add: cn_ok_def cn_setState_def)
  from removeAndResetChannel_ok [OF this]
  obtain fd s1 where s1: "removeAndResetChannel self (cn_setState cnDisconnected s) = Inr (fd, s1)" "cn_open s = {fd}"
      "cn_core self s1" "cn_link False cnDisconnected {} s1" "cn_open s1 = cn_open s"
      "cn_view s1 = cn_view s" "cn_handed s1 = cn_handed s"
    by (auto simp: cn_setState_def)
  have "safe ?P (cn_retry alloc self fd s1)"
    by (rule barring_mono [OF cn_retry_ok [OF s1(3,4) _ alloc]]) (use s1 True in simp_all)
  then show ?thesis using True s1(1) by (simp add: cn_stopInLoop_def)
qed (use ok in \<open>simp add: cn_stopInLoop_def\<close>)

lemma cn_core_pop: "cn_core self s \<Longrightarrow> set fs \<subseteq> set (pendingFunctors s) \<Longrightarrow> cn_core self (s\<lparr>pendingFunctors := fs\<rparr>)"
  by (auto simp: cn_core_def queue_ok_def tq_ok_def set_for_def seq_of_def)

lemma cn_reset_ok:
  assumes ok: "cn_ok False self s" and f: "pendingFunctors s = Cn_Reset_Channel # fs"
  shows "\<exists>s'. cn_resetChannel self (s\<lparr>pendingFunctors := fs\<rparr>) = Inr s' \<and> cn_ok False self s' \<and> cn_state s' = cn_state s \<and>
      cn_view s' = cn_view s \<and> cn_handed s' = cn_handed s"
proof -
  have core: "cn_core self (s\<lparr>pendingFunctors := fs\<rparr>)" using ok f by (auto simp: cn_ok_def intro!: cn_core_pop)
  obtain c ch where ch: "cn_state s \<noteq> cnConnecting" "cn_open s = {}" "cn_channel s = Some c" "chans s c = Some ch"
      "\<not> ch_eventHandling ch" "pl_channels s (ch_fd ch) \<noteq> Some c" "count_list fs Cn_Reset_Channel = 0"
    using ok f by (auto simp: cn_ok_def cn_link_def split: if_splits option.splits)
  let ?s = "s\<lparr>pendingFunctors := fs\<rparr>"
  have del: "delete_Channel self c ?s = Inr (?s\<lparr>chans := (chans ?s)(c := None)\<rparr>)"
    using delete_Channel_eq [OF cn_coreD(1) [OF core], of c ch self] ch by simp
  have lok: "loop_ok (?s\<lparr>chans := (chans ?s)(c := None)\<rparr>)"
    by (rule delete_Channel_ok(1) [OF cn_coreD(1) [OF core]]) (use ch in simp_all)
  have "cn_core self (?s\<lparr>chans := (chans ?s)(c := None), cn_channel := None\<rparr>)"
    using core lok by (simp add: cn_core_def queue_ok_def tq_ok_def set_for_def seq_of_def)
  then show ?thesis
    using del ch(1,2,3,7) by (simp add: cn_resetChannel_def cn_ok_def cn_link_def count_list_0_iff)
qed

lemma cn_ok_pop:
  assumes "cn_ok False self s" "pendingFunctors s = f # fs" "f \<noteq> Cn_Reset_Channel"
  shows "cn_ok False self (s\<lparr>pendingFunctors := fs\<rparr>)"
proof -
  have "cn_core self (s\<lparr>pendingFunctors := fs\<rparr>)" using assms(1,2) by (auto simp: cn_ok_def intro!: cn_core_pop)
  then show ?thesis using assms by (auto simp: cn_ok_def cn_link_def split: option.splits if_splits)
qed

lemma cn_functor_ok:
  assumes ok: "cn_ok False self s" and f: "pendingFunctors s = f # fs"
    and start: "f = Cn_Start_In_Loop \<Longrightarrow> start_fault (cn_connect s) s = None" and kernel: "next_socket_free s"
    and alloc: "alloc_ok alloc" and fresh: "fresh_ok fresh"
  shows "safe (\<lambda>s'. cn_ok False self s' \<and> cn_view s' = cn_view s \<and> cn_handed s' = cn_handed s \<and>
      (cn_state s' = cn_state s \<or> cn_state s \<noteq> cnConnected))
    (run_cn alloc fresh handover self (Run f) (s\<lparr>pendingFunctors := fs\<rparr>))"
proof -
  let ?s = "s\<lparr>pendingFunctors := fs\<rparr>"
  consider "f = Cn_Reset_Channel" | "f = Cn_Stop_In_Loop" | "f = Cn_Start_In_Loop"
    using cn_coreD(6) [of self s] ok f by (auto simp: cn_ok_def)
  then show ?thesis
  proof cases
    case 1
    then show ?thesis using cn_reset_ok [OF ok] f by auto
  next
    case 2
    have "cn_ok False self ?s" using cn_ok_pop [OF ok f] 2 by simp
    from cn_stopInLoop_ok [OF this alloc] show ?thesis using 2 by (auto elim!: barring_mono)
  next
    case 3
    then have ok': "cn_ok False self ?s" and none: "start_fault (cn_connect ?s) ?s = None" and k: "next_socket_free ?s"
      using cn_ok_pop [OF ok f] start kernel by simp_all
    have "cn_state s \<noteq> cnConnected" using start [OF 3] by (simp add: start_fault_def split: if_splits)
    then show ?thesis
      using cn_startInLoop_ok [OF ok' k none alloc fresh] 3 by (auto elim!: barring_mono)
  qed
qed

section \<open>Runs\<close>

text \<open>
  \<open>start\<close> and \<open>stop\<close> may be called in any thread, and are given the caller; \<open>restart\<close>, the timer, the
  functors and the events belong to the loop's thread.
\<close>

datatype cn_event =
    Cn_Start nat | Cn_Stop nat | Cn_Restart
  | Cn_Retry_Due           \<comment> \<open>a timer of \<open>retry\<close> calls \<open>startInLoop\<close>; nothing ever cancels one\<close>
  | Cn_Functor             \<comment> \<open>the loop calls the next pending functor\<close>
  | Cn_Io mask timestamp   \<comment> \<open>the loop dispatches events of the channel\<close>

fun cn_step ::
  "('m connector_scheme \<Rightarrow> taddr option) \<Rightarrow> ('m connector_scheme \<Rightarrow> cid option) \<Rightarrow>
   (int \<Rightarrow> 'm connector_scheme \<Rightarrow> 'm connector_scheme res) \<Rightarrow> nat \<Rightarrow> cn_event \<Rightarrow>
   'm connector_scheme \<Rightarrow> 'm connector_scheme res" where
  "cn_step alloc fresh handover self (Cn_Start caller) s = cn_start alloc fresh handover caller s"
| "cn_step alloc fresh handover self (Cn_Stop caller) s = Inr (cn_stop caller s)"
| "cn_step alloc fresh handover self Cn_Restart s = cn_restart alloc fresh self s"
| "cn_step alloc fresh handover self Cn_Retry_Due s = run_cn alloc fresh handover self (Run Cn_Start_In_Loop) s"
| "cn_step alloc fresh handover self Cn_Functor s =
     (case pendingFunctors s of
        [] \<Rightarrow> Inr s
      | f # fs \<Rightarrow> run_cn alloc fresh handover self (Run f) (s\<lparr>pendingFunctors := fs\<rparr>))"
| "cn_step alloc fresh handover self (Cn_Io m t) s =
     (case cn_channel s of
        None \<Rightarrow> Inr s
      | Some c \<Rightarrow> bindr (upd_chan c (set_revents m) s) (handleEvent (run_cn alloc fresh handover self) c t))"

text \<open>
  What the kernel and the owner promise: a socket the kernel creates is not on the loop already, events
  come for a channel that is watched, and \<open>restart\<close>, which \<open>TcpClient\<close> calls when a connection has
  closed, is not called in the middle of an attempt.  Nothing is asked of \<open>start\<close>, \<open>stop\<close> and the timers.
\<close>

fun cn_promised :: "cn_event \<Rightarrow> 'm connector_scheme \<Rightarrow> bool" where
  "cn_promised Cn_Restart s \<longleftrightarrow> next_socket_free s \<and> cn_state s \<noteq> cnConnecting"
| "cn_promised (Cn_Io m t) s \<longleftrightarrow>
     (\<exists>c ch i. cn_channel s = Some c \<and> chans s c = Some ch \<and> watched s (ch_fd ch) = Some (i, c))"
| "cn_promised ev s \<longleftrightarrow> next_socket_free s"

text \<open>Which events fail, and how: those that come to \<open>startInLoop\<close> when it cannot start.\<close>

fun cn_fault :: "nat \<Rightarrow> cn_event \<Rightarrow> 'm connector_scheme \<Rightarrow> fault option" where
  "cn_fault self (Cn_Start caller) s = (if caller = self then start_fault True s else None)"
| "cn_fault self Cn_Restart s =
     (if cn_channel s \<noteq> None \<and> connect_waits s then Some (Assert_Failed ''connecting: !channel_'') else None)"
| "cn_fault self Cn_Retry_Due s = start_fault (cn_connect s) s"
| "cn_fault self Cn_Functor s =
     (case pendingFunctors s of Cn_Start_In_Loop # _ \<Rightarrow> start_fault (cn_connect s) s | _ \<Rightarrow> None)"
| "cn_fault self _ s = None"

definition cn_blame :: "nat \<Rightarrow> cn_event \<Rightarrow> 'm connector_scheme \<Rightarrow> fault \<Rightarrow> bool" where
  "cn_blame self ev s e \<longleftrightarrow> cn_fault self ev s = Some e"

lemma cn_touch:
  assumes ok: "cn_ok h self s" and c: "cn_channel s = Some c" "chans s c = Some ch"
    and same: "ch_fd ch' = ch_fd ch" "ch_index ch' = ch_index ch" "ch_events ch' = ch_events ch"
      "ch_loop ch' = ch_loop ch" "addedToLoop ch' = addedToLoop ch" "cn_wired ch' = cn_wired ch"
    and h: "ch_eventHandling ch' = h'"
  shows "cn_ok h' self (put_chan c ch' s)"
proof -
  have lok: "loop_ok (put_chan c ch' s)"
    by (rule put_chan_loop_ok [OF cn_coreD(1) [OF cn_ok_core [OF ok]] c(2) same(1-5)])
  have "queue_ok (\<lambda>_. True) {} (put_chan c ch' s) = queue_ok (\<lambda>_. True) {} s"
    by (rule queue_ok_cong) (simp_all add: put_chan_def)
  then have "cn_core self (put_chan c ch' s)"
    using cn_ok_core [OF ok] lok by (simp add: cn_core_def) (simp add: put_chan_def)
  moreover have "cn_link h' (cn_state s) (cn_open s) (put_chan c ch' s)"
    using ok c same h by (auto simp: cn_ok_def cn_link_def put_chan_def)
  ultimately show ?thesis by (simp add: cn_ok_def put_chan_def)
qed

lemma cn_has_channel:
  assumes "cn_ok h self s" "cn_channel s = Some c"
  obtains ch where "chans s c = Some ch" "cn_wired ch"
  using assms by (auto simp: cn_ok_def cn_link_def split: if_splits)

lemma cn_io_ok:
  assumes ok: "cn_ok False self s" and st: "cn_state s = cnConnecting" and alloc: "alloc_ok alloc"
    and hand: "handover_ok self handover"
  shows "safe (\<lambda>s'. cn_ok False self s' \<and> hands_over handover s s') (cn_step alloc fresh handover self (Cn_Io m t) s)"
proof -
  let ?exec = "run_cn alloc fresh handover self"
  obtain c ch where c: "cn_channel s = Some c" "chans s c = Some ch" "cn_wired ch"
    using cn_link_connecting [OF ok st] by (auto simp: cn_link_def)
  define ch1 where "ch1 = ch\<lparr>ch_revents := m, ch_eventHandling := True\<rparr>"
  define s1 where "s1 = put_chan c ch1 s"
  have ok1: "cn_ok True self s1"
    unfolding s1_def by (rule cn_touch [OF ok c(1,2)]) (simp_all add: ch1_def cn_wired_def)
  have c1: "cn_channel s1 = Some c" "cn_state s1 = cnConnecting" "cn_view s1 = cn_view s" "cn_handed s1 = cn_handed s"
    using c st by (simp_all add: s1_def) (simp_all add: put_chan_def)
  have start: "cn_step alloc fresh handover self (Cn_Io m t) s =
      bindr (fire ?exec c (\<lambda>r. has r POLLHUP \<and> \<not> has r POLLIN) (\<lambda>ch. map_option Run (closeCallback ch)) s1) (\<lambda>s.
      bindr (fire ?exec c (\<lambda>r. has r (POLLERR OR POLLNVAL)) (\<lambda>ch. map_option Run (errorCallback ch)) s) (\<lambda>s.
      bindr (fire ?exec c (\<lambda>r. has r (POLLIN OR POLLPRI OR POLLRDHUP))
              (\<lambda>ch. map_option (\<lambda>f. Run_Read f t) (readCallback ch)) s) (\<lambda>s.
      bindr (fire ?exec c (\<lambda>r. has r POLLOUT) (\<lambda>ch. map_option Run (writeCallback ch)) s)
        (upd_chan c (ch_eventHandling_update (\<lambda>_. False))))))"
  proof -
    let ?r = "put_chan c (set_revents m ch) s"
    have r: "chans ?r c = Some (set_revents m ch)" "\<not> tied (set_revents m ch)"
      using c(3) by (simp_all add: put_chan_def set_revents_def cn_wired_def)
    have "put_chan c (ch_eventHandling_update (\<lambda>_. True) (set_revents m ch)) ?r = s1"
      by (simp add: s1_def ch1_def put_chan_def set_revents_def)
    then show ?thesis
      using c(1) r(2) by (simp add: upd_chan_Some [OF c(2)] handleEvent_def chan_Some [OF r(1)]
        handleEventWithGuard_def upd_chan_Some [OF r(1)])
  qed
  let ?P = "\<lambda>u. cn_ok True self u \<and> cn_channel u = Some c \<and> cn_state u \<noteq> cnConnected \<and>
      cn_view u = cn_view s \<and> cn_handed u = cn_handed s"
  let ?Q = "\<lambda>u. cn_ok True self u \<and> cn_channel u = Some c \<and> hands_over handover s u"
  have none: "safe ?P (fire ?exec c guard cb u)" if P: "?P u" and none: "\<And>ch. cn_wired ch \<Longrightarrow> cb ch = None" for guard cb u
  proof -
    obtain ch where ch: "chans u c = Some ch" "cn_wired ch" using cn_has_channel P by blast
    show ?thesis by (rule fire_barring [OF ch(1)]) (use P none ch in simp_all)
  qed
  have err: "safe ?P (fire ?exec c guard (\<lambda>ch. map_option Run (errorCallback ch)) u)" if P: "?P u" for guard u
  proof -
    obtain ch where ch: "chans u c = Some ch" "cn_wired ch" using cn_has_channel P by blast
    have "safe ?P (cn_handleError alloc self u)"
      by (rule barring_mono [OF cn_handleError_ok [OF conjunct1 [OF P] alloc]]) (use P in auto)
    then show ?thesis by (intro fire_barring [OF ch(1)]) (use P ch in \<open>simp_all add: cn_wired_def\<close>)
  qed
  have wr: "safe ?Q (fire ?exec c guard (\<lambda>ch. map_option Run (writeCallback ch)) u)" if P: "?P u" for guard u
  proof -
    obtain ch where ch: "chans u c = Some ch" "cn_wired ch" using cn_has_channel P by blast
    have "hands_over handover s u'" if "hands_over handover u u'" for u' using that P by (simp add: hands_over_def)
    then have "safe ?Q (cn_handleWrite alloc handover self u)"
      by (intro barring_mono [OF cn_handleWrite_ok [OF conjunct1 [OF P] alloc hand]]) (use P in auto)
    then show ?thesis by (intro fire_barring [OF ch(1)]) (use P ch in \<open>simp_all add: cn_wired_def hands_over_refl\<close>)
  qed
  have fin: "safe (\<lambda>s'. cn_ok False self s' \<and> hands_over handover s s') (upd_chan c (ch_eventHandling_update (\<lambda>_. False)) u)"
    if P: "?Q u" for u
  proof -
    obtain ch where ch: "chans u c = Some ch" "cn_wired ch" using cn_has_channel P by blast
    have "cn_ok False self (put_chan c (ch\<lparr>ch_eventHandling := False\<rparr>) u)"
      by (rule cn_touch [OF conjunct1 [OF P] _ ch(1)]) (use P in \<open>simp_all add: cn_wired_def\<close>)
    moreover have "hands_over handover s (put_chan c (ch\<lparr>ch_eventHandling := False\<rparr>) u)"
      by (rule hands_over_cong [of _ _ u]) (use P in \<open>simp_all\<close>, simp_all add: put_chan_def)
    ultimately show ?thesis by (simp add: upd_chan_Some [OF ch(1)])
  qed
  show ?thesis
    unfolding start
  proof (rule barring_bindr [where P = ?P])
    show "safe ?P (fire ?exec c (\<lambda>r. has r POLLHUP \<and> \<not> has r POLLIN) (\<lambda>ch. map_option Run (closeCallback ch)) s1)"
      by (rule none) (use ok1 c1 in \<open>simp_all add: cn_wired_def\<close>)
  qed (rule barring_bindr [where P = ?P], erule err, rule barring_bindr [where P = ?P], erule none, simp add: cn_wired_def,
      rule barring_bindr [where P = ?Q], erule wr, erule fin)
qed

lemma cn_stop_fields [simp]:
  "cn_view (cn_stop self s) = cn_view (s\<lparr>cn_connect := False\<rparr>)" "cn_handed (cn_stop self s) = cn_handed s" "cn_state (cn_stop self s) = cn_state s"
  by (simp_all add: cn_stop_def)

lemma cn_queued_ok:
  assumes ok: "cn_ok False self s" and f: "f = Cn_Stop_In_Loop \<or> f = Cn_Start_In_Loop"
  shows "cn_ok False self (queueInLoop caller f (s\<lparr>cn_connect := b\<rparr>))"
proof -
  have "cn_core self (s\<lparr>cn_connect := b\<rparr>)" using ok by (simp add: cn_ok_def)
  then show ?thesis
    using ok f by (simp add: cn_ok_def cn_core_def) (auto simp: cn_link_def split: option.splits)
qed

lemma cn_stop_ok: "cn_ok False self s \<Longrightarrow> cn_ok False self (cn_stop caller s)"
  by (simp add: cn_stop_def cn_queued_ok)

lemma cn_start_ok:
  assumes ok: "cn_ok False self s" and kernel: "next_socket_free s" and none: "cn_fault self (Cn_Start caller) s = None"
    and alloc: "alloc_ok alloc" and fresh: "fresh_ok fresh"
  shows "safe (\<lambda>s'. cn_ok False self s' \<and> cn_handed s' = cn_handed s \<and> cn_view s' = cn_view (s\<lparr>cn_connect := True\<rparr>) \<and>
      (cn_state s' = cn_state s \<or> cn_state s \<noteq> cnConnected)) (cn_start alloc fresh handover caller s)"
proof (cases "caller = self")
  case True
  let ?s = "s\<lparr>cn_connect := True\<rparr>"
  have ok': "cn_ok False self ?s" and k: "next_socket_free ?s" and none': "start_fault (cn_connect ?s) ?s = None"
    using ok kernel none True by (simp_all add: cn_ok_def)
  moreover have "isInLoopThread self ?s" using cn_coreD(3) [OF cn_ok_core [OF ok]] by (simp add: isInLoopThread_def)
  moreover have "cn_state s \<noteq> cnConnected" using none True by (simp add: start_fault_def split: if_splits)
  ultimately show ?thesis
    using cn_startInLoop_ok [OF ok' k none' alloc fresh] True
    by (auto simp: cn_start_def runInLoop_def elim!: barring_mono)
next
  case False
  then have "\<not> isInLoopThread caller (s\<lparr>cn_connect := True\<rparr>)"
    using cn_coreD(3) [OF cn_ok_core [OF ok]] by (simp add: isInLoopThread_def)
  then show ?thesis
    using cn_queued_ok [OF ok, of Cn_Start_In_Loop caller True] by (simp add: cn_start_def runInLoop_def)
qed

lemma cn_restart_ok:
  assumes ok: "cn_ok False self s" and st: "cn_state s \<noteq> cnConnecting" and kernel: "next_socket_free s"
    and none: "cn_fault self Cn_Restart s = None" and alloc: "alloc_ok alloc" and fresh: "fresh_ok fresh"
  shows "safe (\<lambda>s'. cn_ok False self s' \<and> cn_handed s' = cn_handed s \<and> cn_view s' = cn_view (s\<lparr>cn_connect := True\<rparr>)) (cn_restart alloc fresh self s)"
proof -
  let ?s = "(cn_setState cnDisconnected s)\<lparr>retryDelayMs := kInitRetryDelayMs, cn_connect := True\<rparr>"
  have none': "start_fault (cn_connect ?s) ?s = None" and k: "next_socket_free ?s"
    using none kernel by (simp_all add: start_fault_def cn_setState_def split: if_splits)
  have "cn_core self ?s"
    using cn_ok_core [OF ok]
    by (simp add: cn_core_def cn_setState_def queue_ok_def tq_ok_def set_for_def seq_of_def kInitRetryDelayMs_def
      kMaxRetryDelayMs_def)
  then have ok': "cn_ok False self ?s"
    using ok st by (simp add: cn_ok_def cn_setState_def) (simp add: cn_link_def)
  have same: "cn_handed ?s = cn_handed s" "cn_view ?s = cn_view (s\<lparr>cn_connect := True\<rparr>)" by (simp_all add: cn_setState_def cn_view_def)
  show ?thesis
    unfolding cn_restart_def by (rule barring_mono [OF cn_startInLoop_ok [OF ok' k none' alloc fresh]]) (use same in simp)
qed

lemma cn_watched_connecting:
  assumes "cn_ok False self s" "cn_promised (Cn_Io m t) s"
  shows "cn_state s = cnConnecting"
  using assms by (fastforce simp: cn_ok_def cn_link_def watched_def split: if_splits option.splits)

lemma cn_promised_io:
  assumes ok: "cn_ok False self s" and st: "cn_state s = cnConnecting"
  shows "cn_promised (Cn_Io m t) s"
proof -
  obtain c ch where ch: "cn_channel s = Some c" "chans s c = Some ch" "pl_channels s (ch_fd ch) = Some c"
      "ch_events ch = kWriteEvent"
    using cn_link_connecting [OF ok st] by (auto simp: cn_link_def)
  have "\<not> isNoneEvent ch" using ch(4) by (simp add: isNoneEvent_def kNoneEvent_def kWriteEvent_def POLLOUT_def)
  then have "ch_index ch = kAdded"
    using poller_ok_index [OF loop_okD(1) [OF cn_coreD(1) [OF cn_ok_core [OF ok]]] ch(2)] ch(3) by auto
  then show ?thesis using ch by (simp add: watched_def)
qed

lemma cn_step_ok:
  assumes ok: "cn_ok False self s" and promise: "cn_promised ev s" and none: "cn_fault self ev s = None"
    and alloc: "alloc_ok alloc" and fresh: "fresh_ok fresh" and hand: "handover_ok self handover"
  shows "safe (cn_ok False self) (cn_step alloc fresh handover self ev s)"
proof (cases ev)
  case (Cn_Start caller)
  then show ?thesis using barring_mono [OF cn_start_ok [OF ok _ _ alloc fresh]] promise none by simp
next
  case (Cn_Stop caller)
  then show ?thesis using cn_stop_ok [OF ok] by simp
next
  case Cn_Restart
  then show ?thesis using barring_mono [OF cn_restart_ok [OF ok _ _ _ alloc fresh]] promise none by simp
next
  case Cn_Retry_Due
  then show ?thesis using barring_mono [OF cn_startInLoop_ok [OF ok _ _ alloc fresh]] promise none by simp
next
  case Cn_Functor
  show ?thesis
  proof (cases "pendingFunctors s")
    case (Cons f fs)
    have "start_fault (cn_connect s) s = None" if "f = Cn_Start_In_Loop" using none Cn_Functor Cons that by simp
    then show ?thesis
      using barring_mono [OF cn_functor_ok [OF ok Cons _ _ alloc fresh]] promise Cn_Functor Cons by simp
  qed (use ok Cn_Functor in simp)
next
  case (Cn_Io m t)
  then show ?thesis
    using barring_mono [OF cn_io_ok [OF ok cn_watched_connecting [OF ok] alloc hand]] promise by blast
qed

lemma cn_step_fails:
  assumes ok: "cn_ok False self s" and fault: "cn_fault self ev s = Some e"
  shows "cn_step alloc fresh handover self ev s = Inl e"
proof (cases ev)
  case (Cn_Start caller)
  moreover have "isInLoopThread self s" using cn_coreD(3) [OF cn_ok_core [OF ok]] by (simp add: isInLoopThread_def)
  ultimately show ?thesis
    using fault cn_startInLoop_fails [of "s\<lparr>cn_connect := True\<rparr>" e alloc fresh self]
    by (simp add: cn_start_def runInLoop_def isInLoopThread_def split: if_splits)
next
  case Cn_Restart
  then show ?thesis
    using fault cn_startInLoop_fails [of "(cn_setState cnDisconnected s)\<lparr>retryDelayMs := kInitRetryDelayMs, cn_connect := True\<rparr>" e alloc fresh self]
    by (simp add: cn_restart_def start_fault_def cn_setState_def split: if_splits)
next
  case Cn_Functor
  then show ?thesis
    using fault cn_startInLoop_fails [of "s\<lparr>pendingFunctors := tl (pendingFunctors s)\<rparr>" e alloc fresh self]
    by (auto split: list.splits cn_task.splits)
qed (use fault cn_startInLoop_fails [of s e alloc fresh self] in simp_all)

interpretation connector_run: accountable "\<lambda>e. e = Bad_Alloc"
  "\<lambda>s. cn_ok False self s \<and> alloc_ok alloc \<and> fresh_ok fresh \<and> handover_ok self handover"
  cn_promised "cn_step alloc fresh handover self" "cn_blame self"
  for self alloc fresh handover
proof unfold_locales
  fix s :: "'a connector_scheme" and ev
  assume ok: "cn_ok False self s \<and> alloc_ok alloc \<and> fresh_ok fresh \<and> handover_ok self handover"
    and promise: "cn_promised ev s"
  show "barring (\<lambda>e. e = Bad_Alloc \<or> cn_blame self ev s e)
      (\<lambda>s. cn_ok False self s \<and> alloc_ok alloc \<and> fresh_ok fresh \<and> handover_ok self handover)
      (cn_step alloc fresh handover self ev s)"
  proof (cases "cn_fault self ev s")
    case None
    have "safe (\<lambda>s. cn_ok False self s \<and> alloc_ok alloc \<and> fresh_ok fresh \<and> handover_ok self handover)
        (cn_step alloc fresh handover self ev s)"
      by (rule barring_mono [OF cn_step_ok [OF _ promise None]]) (use ok in simp_all)
    then show ?thesis by (rule barring_errors) simp
  next
    case (Some e)
    then show ?thesis using cn_step_fails [OF conjunct1 [OF ok] Some] by (simp add: cn_blame_def)
  qed
next
  fix s :: "'a connector_scheme" and ev e
  assume "cn_ok False self s \<and> alloc_ok alloc \<and> fresh_ok fresh \<and> handover_ok self handover" "cn_blame self ev s e"
  then show "cn_step alloc fresh handover self ev s = Inl e" by (simp add: cn_blame_def cn_step_fails)
qed

section \<open>Properties\<close>

text \<open>C7: a run of a connector, in any order of starts and stops from any thread, restarts, retry
  timers (also ones that are out of date), functors and events.  It stops early only when memory runs
  out, or at an event that comes to \<open>startInLoop\<close> at the wrong time, and at each of those it does stop:
  \<open>startInLoop\<close> is called, by \<open>start\<close>, a queued \<open>start\<close> or a timer, while the connector is not
  disconnected, or it goes on to \<open>connecting\<close> while the channel of an earlier attempt is still there.
  Otherwise no socket leaks: while it is connecting it has one socket open and the kernel watches it for
  writing; in any other state it has none: every socket it created is closed or handed to the user.  The
  delay stays between 500 and 30000 milliseconds.\<close>

theorem connector_safe:
  assumes "cn_ok False self s" "alloc_ok alloc" "fresh_ok fresh" "handover_ok self handover"
    and kernel: "all_along cn_promised (cn_step alloc fresh handover self) evs s"
  shows "case foldr_res (cn_step alloc fresh handover self) evs s of
      Inl e \<Rightarrow> e = Bad_Alloc \<or> fails_at (cn_blame self) (cn_step alloc fresh handover self) evs s e
    | Inr s' \<Rightarrow> 500 \<le> retryDelayMs s' \<and> retryDelayMs s' \<le> 30000 \<and>
        (if cn_state s' = cnConnecting
         then \<exists>c fd. cn_channel s' = Some c \<and> cn_open s' = {fd} \<and> watched s' fd = Some (kWriteEvent, c)
         else cn_open s' = {}) \<and>
        (\<forall>ev e. cn_promised ev s' \<and> cn_blame self ev s' e \<longrightarrow> cn_step alloc fresh handover self ev s' = Inl e)"
proof -
  have run: "barring (\<lambda>e. e = Bad_Alloc \<or> fails_at (cn_blame self) (cn_step alloc fresh handover self) evs s e)
      (\<lambda>s. cn_ok False self s \<and> alloc_ok alloc \<and> fresh_ok fresh \<and> handover_ok self handover)
      (foldr_res (cn_step alloc fresh handover self) evs s)"
    by (rule connector_run.run_accounted [OF _ kernel]) (use assms in blast)
  show ?thesis
  proof (cases "foldr_res (cn_step alloc fresh handover self) evs s")
    case (Inr s')
    then have ok: "cn_ok False self s'" using run by simp
    note core = cn_ok_core [OF ok]
    have "\<exists>c fd. cn_channel s' = Some c \<and> cn_open s' = {fd} \<and> watched s' fd = Some (kWriteEvent, c)"
      if st: "cn_state s' = cnConnecting"
      using cn_link_connecting [OF ok st] cn_promised_io [OF ok st] by (auto simp: cn_link_def watched_def split: if_splits)
    moreover have "cn_open s' = {}" if "cn_state s' \<noteq> cnConnecting" using ok that by (simp add: cn_ok_def cn_link_def)
    moreover have "cn_step alloc fresh handover self ev s' = Inl e" if "cn_promised ev s'" "cn_blame self ev s' e" for ev e
      using that(2) cn_step_fails [OF ok] by (simp add: cn_blame_def)
    ultimately show ?thesis
      using Inr cn_coreD(7,8) [OF core] by (simp add: kInitRetryDelayMs_def kMaxRetryDelayMs_def)
  qed (use run in simp)
qed

text \<open>The delays that occur are exact as doubles.\<close>

definition delay_after :: "nat \<Rightarrow> int" where
  "delay_after k = min (500 * 2 ^ k) 30000"

lemma delay_values: "delay_after k \<in> {500, 1000, 2000, 4000, 8000, 16000, 30000}"
proof (cases "k < 6")
  case True
  then have "k = 0 \<or> k = 1 \<or> k = 2 \<or> k = 3 \<or> k = 4 \<or> k = 5" by linarith
  then show ?thesis by (auto simp: delay_after_def)
next
  case False
  then have "(2 :: int) ^ 6 \<le> 2 ^ k" by (intro power_increasing) simp_all
  then have "30000 \<le> 500 * (2 :: int) ^ k" by simp
  then show ?thesis by (simp add: delay_after_def min_def)
qed

lemma delay_after_Suc: "min (delay_after k * 2) 30000 = delay_after (Suc k)"
  by (simp add: delay_after_def min_def)

lemma bit_length_numeral:
  "bit_length 0 = 0" "bit_length (Suc 0) = 1" "bit_length (numeral n) = Suc (bit_length (numeral n div 2))"
  by (simp_all add: bit_length.simps)

lemma retry_seconds_exact:
  assumes "0 \<le> microSecondsSinceEpoch t" "microSecondsSinceEpoch t < 2 ^ 62"
  shows "addTime t (retry_seconds (delay_after k)) = Timestamp (microSecondsSinceEpoch t + 1000 * delay_after k)"
proof -
  have "dbl_to_int64 (dbl_mul_int (retry_seconds d) kMicroSecondsPerSecond) = 1000 * d"
    if "d \<in> {500, 1000, 2000, 4000, 8000, 16000, 30000}" for d
    using that
    by (elim insertE emptyE) (simp_all add: retry_seconds_def int_to_dbl_def kMicroSecondsPerSecond_def bit_length_numeral)
  then have "dbl_to_int64 (dbl_mul_int (retry_seconds (delay_after k)) kMicroSecondsPerSecond) = 1000 * delay_after k"
    using delay_values by blast
  moreover have "0 \<le> delay_after k" "delay_after k \<le> 30000" by (simp_all add: delay_after_def)
  ultimately show ?thesis using assms by (simp add: addTime_def)
qed

lemma cn_retries_delay:
  assumes "cn_ok h self s" "cn_state s = cnDisconnected" "cn_connect s" "alloc_ok alloc" "retryDelayMs s = delay_after k"
  shows "case foldr_res (cn_retry alloc self) fds s of
       Inl e \<Rightarrow> e = Bad_Alloc
     | Inr s' \<Rightarrow> retryDelayMs s' = delay_after (k + length fds)"
  using assms
proof (induction fds arbitrary: s k)
  case (Cons fd fds)
  have link: "cn_link h cnDisconnected {} s" "cn_open s = {}"
    using Cons.prems(1,2) by (simp_all add: cn_ok_def cn_link_def)
  have first: "safe (\<lambda>s'. cn_ok h self s' \<and> cn_state s' = cnDisconnected \<and> cn_connect s' \<and> retryDelayMs s' = delay_after (Suc k))
      (cn_retry alloc self fd s)"
    by (rule barring_mono [OF cn_retry_ok [OF cn_ok_core [OF Cons.prems(1)] link(1) _ Cons.prems(4), of fd]])
      (use link(2) Cons.prems(3,5) delay_after_Suc [of k] in \<open>simp_all add: kMaxRetryDelayMs_def\<close>)
  show ?case
  proof (cases "cn_retry alloc self fd s")
    case (Inr s1)
    then have s1: "cn_ok h self s1" "cn_state s1 = cnDisconnected" "cn_connect s1" "retryDelayMs s1 = delay_after (Suc k)"
      using first by simp_all
    show ?thesis using Cons.IH [OF s1(1-3) Cons.prems(4) s1(4)] Inr by (simp split: sum.splits)
  qed (use first in simp)
qed simp

text \<open>C30: the back-off.  The k-th retry in a row closes the socket and asks the loop to start again
  after 500 times 2 to the k milliseconds, at most 30 seconds: the timer is set for exactly that many
  microseconds from now; and n retries in a row leave the delay at 500 times 2 to the n
  milliseconds, at most 30 seconds.\<close>

theorem retry_backoff:
  assumes ok: "cn_ok False self s" and st: "cn_state s = cnDisconnected" "cn_connect s" and alloc: "alloc_ok alloc"
    and delay: "retryDelayMs s = delay_after k"
    and clock: "0 \<le> microSecondsSinceEpoch (cn_clock s)" "microSecondsSinceEpoch (cn_clock s) < 2 ^ 62"
  shows "(cn_retry alloc self fd s = Inl Bad_Alloc \<or>
      (\<exists>s' a t. cn_retry alloc self fd s = Inr s' \<and> fd \<notin> cn_open s' \<and> retryDelayMs s' = delay_after (Suc k) \<and>
        tq_heap s' a = Some t \<and> tm_callback t = Cn_Start_In_Loop \<and>
        (Timestamp (microSecondsSinceEpoch (cn_clock s) + 1000 * delay_after k), a) \<in> set (timers s'))) \<and>
    (case foldr_res (cn_retry alloc self) fds s of
       Inl e \<Rightarrow> e = Bad_Alloc
     | Inr s' \<Rightarrow> retryDelayMs s' = delay_after (k + length fds))"
proof (rule conjI)
  let ?s = "cn_setState cnDisconnected (sys_close fd s)"
  have core': "cn_core self ?s" using cn_ok_core [OF ok] by (simp add: cn_setState_def sys_close_def)
  have f: "retryDelayMs ?s = delay_after k" "cn_clock ?s = cn_clock s" "cn_connect ?s" "fd \<notin> cn_open ?s"
    using st delay by (simp_all add: cn_setState_def sys_close_def)
  note D = cn_coreD [OF core']
  have in_loop: "isInLoopThread self ?s" using D(3) by (simp add: isInLoopThread_def)
  have exec: "cn_request (Run (Cn_Add_Timer a)) u = addTimerInLoop (cn_clock u) a u" for a and u :: "'a connector_scheme"
    by simp
  let ?run = "runAfter cn_request alloc Cn_Add_Timer self (cn_clock ?s) (retry_seconds (retryDelayMs ?s)) Cn_Start_In_Loop ?s"
  consider "?run = Inl Bad_Alloc" | a s1 where "?run = Inr ((a, numCreated ?s + 1), s1)" "tq_change ?s s1"
      "tq_heap s1 a = Some (new_Timer Cn_Start_In_Loop (addTime (cn_clock ?s) (retry_seconds (retryDelayMs ?s))) (Dbl 0 0) (numCreated ?s + 1))"
      "(addTime (cn_clock ?s) (retry_seconds (retryDelayMs ?s)), a) \<in> set (timers s1)"
    using runAfter_ok [where exec = cn_request and add = Cn_Add_Timer, OF D(2) alloc in_loop exec, of "cn_clock ?s" "retry_seconds (retryDelayMs ?s)" Cn_Start_In_Loop]
    by blast
  then show "cn_retry alloc self fd s = Inl Bad_Alloc \<or>
      (\<exists>s' a t. cn_retry alloc self fd s = Inr s' \<and> fd \<notin> cn_open s' \<and> retryDelayMs s' = delay_after (Suc k) \<and>
        tq_heap s' a = Some t \<and> tm_callback t = Cn_Start_In_Loop \<and>
        (Timestamp (microSecondsSinceEpoch (cn_clock s) + 1000 * delay_after k), a) \<in> set (timers s'))"
  proof cases
    case 1
    then show ?thesis using f(3) by (simp add: cn_retry_def Let_def)
  next
    case 2
    let ?s' = "s1\<lparr>retryDelayMs := min (retryDelayMs s1 * 2) kMaxRetryDelayMs\<rparr>"
    have "cn_retry alloc self fd s = Inr ?s'" using 2(1) f(3) by (simp add: cn_retry_def Let_def)
    moreover have "fd \<notin> cn_open ?s'" "retryDelayMs ?s' = delay_after (Suc k)"
      using f delay_after_Suc [of k] by (simp_all add: cn_fields_timer [OF 2(2)] kMaxRetryDelayMs_def)
    moreover have "(Timestamp (microSecondsSinceEpoch (cn_clock s) + 1000 * delay_after k), a) \<in> set (timers ?s')"
      using 2(4) retry_seconds_exact [OF clock] f by simp
    ultimately show ?thesis using 2(3) by (intro disjI2 exI conjI) (assumption | simp add: new_Timer_def)+
  qed
qed (rule cn_retries_delay [OF ok st alloc delay])

text \<open>C31: what becomes of a connection attempt when its socket is ready.  The socket goes to the
  user exactly when it has no error, is not connected to itself and nobody called \<open>stop\<close>; in every
  other case it is closed, and the user is not called.\<close>

theorem connect_outcome:
  assumes ok: "cn_ok h self s" and st: "cn_state s = cnConnecting" and alloc: "alloc_ok alloc"
    and kernel: "so_errors s = e # es" "sock_names s = (local, peer) # ns" and fd: "cn_open s = {fd}"
  shows "if e = 0 \<and> \<not> isSelfConnect local peer \<and> cn_connect s
    then \<exists>s'. cn_handleWrite alloc handover self s = handover fd s' \<and> cn_ok h self s' \<and>
      cn_state s' = cnConnected \<and> cn_handed s' = cn_handed s @ [fd] \<and> cn_open s' = {}
    else safe (\<lambda>s'. cn_open s' = {} \<and> cn_handed s' = cn_handed s \<and>
        cn_state s' = (if e = 0 \<and> \<not> isSelfConnect local peer then cnConnected else cnDisconnected))
      (cn_handleWrite alloc handover self s)"
proof -
  let ?b = "isSelfConnect local peer"
  obtain s1 where s1: "removeAndResetChannel self s = Inr (fd, s1)" "cn_core self s1"
      "\<forall>st. st \<noteq> cnConnecting \<longrightarrow> cn_link h st {} s1" "cn_open s1 = {fd}" "cn_channel s1 = cn_channel s"
      "cn_connect s1 = cn_connect s" "cn_handed s1 = cn_handed s" "so_errors s1 = e # es" "sock_names s1 = (local, peer) # ns"
    using removeAndResetChannel_ok [OF cn_ok_core [OF ok] cn_link_connecting [OF ok st]] kernel fd by auto
  let ?r = "s1\<lparr>so_errors := es\<rparr>" and ?s2 = "s1\<lparr>so_errors := es, sock_names := ns\<rparr>"
  let ?closed = "\<lambda>s'. cn_open s' = {} \<and> cn_handed s' = cn_handed s \<and> cn_state s' = cnDisconnected"
  have retry: "safe ?closed (cn_retry alloc self fd u)"
    if u: "cn_core self u" "cn_link h cnDisconnected {} u" "cn_open u = {fd}" "cn_handed u = cn_handed s" for u
    by (rule barring_mono [OF cn_retry_ok [OF u(1,2) _ alloc]]) (use u(3,4) in \<open>simp_all add: cn_ok_def cn_link_def\<close>)
  have 1: "safe ?closed (cn_retry alloc self fd ?r)" by (rule retry) (use s1 in simp_all)
  have 2: "safe ?closed (cn_retry alloc self fd ?s2)" by (rule retry) (use s1 in simp_all)
  have run: "cn_handleWrite alloc handover self s =
      (if e \<noteq> 0 then cn_retry alloc self fd ?r
       else if ?b then cn_retry alloc self fd ?s2
       else let s3 = cn_setState cnConnected ?s2
            in if cn_connect s then handover fd (s3\<lparr>cn_open := cn_open s3 - {fd}, cn_handed := cn_handed s3 @ [fd]\<rparr>)
               else Inr (sys_close fd s3))"
    using st s1(1,6,8,9) cn_coreD(5) [OF s1(2)]
    by (simp add: cn_handleWrite_def getSocketError_def cn_isSelfConnect_def Let_def cn_setState_def)
  show ?thesis
  proof (cases "e = 0 \<and> \<not> ?b \<and> cn_connect s")
    case True
    let ?s4 = "(cn_setState cnConnected ?s2)\<lparr>cn_open := {}, cn_handed := cn_handed s @ [fd]\<rparr>"
    have "cn_handleWrite alloc handover self s = handover fd ?s4"
      using run True s1(4,7) by (simp add: cn_setState_def Let_def)
    moreover have "cn_ok h self ?s4" using s1(2,3) by (simp add: cn_ok_def cn_setState_def)
    ultimately show ?thesis using True by (auto simp: cn_setState_def)
  next
    case False
    consider "e \<noteq> 0" | "e = 0" "?b" | "e = 0" "\<not> ?b" "\<not> cn_connect s" using False by blast
    then show ?thesis
    proof cases
      case 1
      then show ?thesis using run \<open>safe ?closed (cn_retry alloc self fd ?r)\<close> by simp
    next
      case 2
      then show ?thesis using run \<open>safe ?closed (cn_retry alloc self fd ?s2)\<close> by simp
    next
      case 3
      then show ?thesis using run s1(4,7) by (simp add: Let_def sys_close_def cn_setState_def)
    qed
  qed
qed

text \<open>C32: \<open>start\<close> after \<open>stop\<close> can fail its assertions although the first attempt is over.  When
  \<open>stop\<close> came while the connector was connecting, a \<open>start\<close> before the queued \<open>resetChannel\<close> has run
  finds the old channel.  When the connection completes before the queued \<open>stopInLoop\<close> runs, the
  socket is closed but the state stays connected, and every later \<open>start\<close> fails.\<close>

theorem start_after_stop_fails:
  assumes ok: "cn_ok False self s" and st: "cn_state s = cnConnecting" and idle: "pendingFunctors s = []"
    and sockets: "socket_answers s = fd' # fds" "0 \<le> fd'" "connect_answers s = []"
    and kernel: "so_errors s = 0 # es" "sock_names s = (local, peer) # ns" "\<not> isSelfConnect local peer"
  shows "bindr (foldr_res (cn_step alloc fresh handover self) [Cn_Stop self, Cn_Functor] s)
        (cn_start alloc fresh handover self) = Inl (Assert_Failed ''connecting: !channel_'') \<and>
    bindr (cn_handleWrite alloc handover self (cn_stop self s)) (\<lambda>s.
      bindr (foldr_res (cn_step alloc fresh handover self) [Cn_Functor, Cn_Functor] s)
        (cn_start alloc fresh handover self)) = Inl (Assert_Failed ''startInLoop: state_'')"
proof -
  let ?s0 = "cn_stop self s"
  have ok0: "cn_ok False self ?s0" by (rule cn_stop_ok [OF ok])
  have f: "cn_state ?s0 = cnConnecting" "pendingFunctors ?s0 = [Cn_Stop_In_Loop]" "\<not> cn_connect ?s0"
      "cn_channel ?s0 = cn_channel s" "socket_answers ?s0 = fd' # fds" "connect_answers ?s0 = []"
      "so_errors ?s0 = 0 # es" "sock_names ?s0 = (local, peer) # ns"
    using st idle sockets kernel by (simp_all add: cn_stop_def)
  have ch: "cn_channel s \<noteq> None" using cn_link_connecting [OF ok st] by (auto simp: cn_link_def)
  have run: "cn_start alloc fresh handover self v = cn_startInLoop alloc fresh self (v\<lparr>cn_connect := True\<rparr>)"
    if "threadId v = self" for v
    using that by (simp add: cn_start_def runInLoop_def isInLoopThread_def)
  let ?u = "cn_setState cnDisconnected (?s0\<lparr>pendingFunctors := []\<rparr>)"
  have u: "cn_core self ?u" "cn_link False cnConnecting (cn_open ?u) ?u"
    using ok0 f(1,2) cn_core_pop [OF cn_ok_core [OF ok0], of "[]"] by (auto simp: cn_ok_def cn_setState_def cn_link_def)
  obtain fd s1 where s1: "removeAndResetChannel self ?u = Inr (fd, s1)" "cn_core self s1" "cn_channel s1 = cn_channel ?u"
      "cn_connect s1 = cn_connect ?u" "socket_answers s1 = socket_answers ?u" "connect_answers s1 = connect_answers ?u"
    using removeAndResetChannel_ok [OF u] by auto
  let ?v = "cn_setState cnDisconnected (sys_close fd s1)"
  have r1: "foldr_res (cn_step alloc fresh handover self) [Cn_Stop self, Cn_Functor] s = Inr ?v"
    using f s1 by (simp add: cn_stopInLoop_def cn_retry_def Let_def cn_setState_def sys_close_def)
  have r2: "cn_start alloc fresh handover self ?v = Inl (Assert_Failed ''connecting: !channel_'')"
    using run [of ?v] cn_coreD(3) [OF s1(2)] s1 f ch sockets
    by (auto simp: cn_startInLoop_def cn_connect_now_def createNonblockingOrDie_def sys_connect_def in_progress_def
      cn_connecting_def cn_setState_def sys_close_def ensure_def)
  obtain fd s2 where s2: "removeAndResetChannel self ?s0 = Inr (fd, s2)" "cn_core self s2" "cn_open ?s0 = {fd}"
      "\<forall>st. st \<noteq> cnConnecting \<longrightarrow> cn_link False st {} s2" "cn_open s2 = cn_open ?s0" "cn_connect s2 = cn_connect ?s0"
      "so_errors s2 = so_errors ?s0" "sock_names s2 = sock_names ?s0"
      "pendingFunctors s2 = pendingFunctors ?s0 @ [Cn_Reset_Channel]"
    using removeAndResetChannel_ok [OF cn_ok_core [OF ok0] cn_link_connecting [OF ok0 f(1)]] by auto
  let ?w = "sys_close fd (cn_setState cnConnected (s2\<lparr>so_errors := es, sock_names := ns\<rparr>))"
  have r3: "cn_handleWrite alloc handover self ?s0 = Inr ?w"
    using f s2 kernel(3) by (simp add: cn_handleWrite_def getSocketError_def cn_isSelfConnect_def cn_setState_def)
  have w: "cn_ok False self ?w" "pendingFunctors ?w = [Cn_Stop_In_Loop, Cn_Reset_Channel]" "cn_state ?w = cnConnected"
    using s2 f(2) by (simp_all add: cn_ok_def cn_setState_def sys_close_def)
  have ok1: "cn_ok False self (?w\<lparr>pendingFunctors := [Cn_Reset_Channel]\<rparr>)"
    using w cn_core_pop [OF cn_ok_core [OF w(1)], of "[Cn_Reset_Channel]"] by (auto simp: cn_ok_def cn_link_def split: option.splits)
  obtain x where x: "cn_resetChannel self (?w\<lparr>pendingFunctors := []\<rparr>) = Inr x" "cn_ok False self x" "cn_state x = cnConnected"
    using cn_reset_ok [OF ok1] w(3) by auto
  have r4: "foldr_res (cn_step alloc fresh handover self) [Cn_Functor, Cn_Functor] ?w = Inr x"
    using w x by (simp add: cn_stopInLoop_def)
  have r5: "cn_start alloc fresh handover self x = Inl (Assert_Failed ''startInLoop: state_'')"
    using run [of x] cn_coreD(3) [OF cn_ok_core [OF x(2)]] x(3) by (simp add: cn_startInLoop_def)
  show ?thesis by (simp only: r1 r2 r3 r4 r5 bindr.simps)
qed


section \<open>Samples\<close>

definition sample_idle :: "connector" where
  "sample_idle = (case new_EventLoop 0 1 9 3 Cn_Loop_Read of
     Inl _ \<Rightarrow> undefined
   | Inr l \<Rightarrow> setNewConnectionCallback (new_Connector (loop.extend l (tqueue_ext Map.empty 0 [] {} False {} 4 None
       (connector_ext False cnDisconnected None False 0 {} [] [12, 13] [] [0] [(None, None)] (Timestamp 5000000) ())))))"

definition sample_fresh :: "connector \<Rightarrow> cid option" where
  "sample_fresh s = (if chans s 7 = None then Some 7 else None)"

definition sample_timer_addr :: "connector \<Rightarrow> taddr option" where
  "sample_timer_addr s = (if tq_heap s 6 = None then Some 6 else None)"

lemma not_self [simp]: "\<not> isSelfConnect None None"
  by (simp add: isSelfConnect_def getLocalAddr_def zero_addr_def AF_INET_def)

lemma sample_world:
  "alloc_ok sample_timer_addr" "fresh_ok sample_fresh" "handover_ok 1 (\<lambda>fd :: int. Inr)"
  by (auto simp: alloc_ok_def sample_timer_addr_def UINTPTR_MAX_def fresh_ok_def sample_fresh_def handover_ok_def)

lemma sample_idle_ok:
  "cn_ok False 1 sample_idle" "cn_state sample_idle = cnDisconnected" "cn_channel sample_idle = None"
  "cn_open sample_idle = {}" "pendingFunctors sample_idle = []" "retryDelayMs sample_idle = delay_after 0"
  "cn_clock sample_idle = Timestamp 5000000" "so_errors sample_idle = [0]" "sock_names sample_idle = [(None, None)]"
  "socket_answers sample_idle = [12, 13]" "connect_answers sample_idle = []" "pl_channels sample_idle 12 = None"
  "chans sample_idle 7 = None" "pl_channels sample_idle 13 = None"
proof -
  obtain l where l: "new_EventLoop 0 1 9 3 Cn_Loop_Read = Inr l" "loop_ok l" "pendingFunctors l = []"
      "threadId l = 1" "\<not> lp_eventHandling l"
      "views l = [3 \<mapsto> \<lparr>cv_fd = 9, cv_events = kReadEvent, cv_registered = True, cv_handling = False, cv_waiting = False\<rparr>]"
    using new_EventLoop_ok [of 0 1 9 3 Cn_Loop_Read] by blast
  note e = sample_idle_def l(1) [unfolded One_nat_def] loop.defs new_Connector_def setNewConnectionCallback_def
  have same: "chans sample_idle = chans l" "pl_channels sample_idle = pl_channels l" "ctl_log sample_idle = ctl_log l"
      "event_capacity sample_idle = event_capacity l" "loop_id sample_idle = loop_id l"
    by (simp_all add: e)
  have lok: "loop_ok sample_idle" using loop_ok_cong [OF same] l(2) by simp
  have v: "views l 7 = None" "\<And>c v. views l c = Some v \<Longrightarrow> cv_fd v = 9" by (auto simp: l(6) split: if_splits)
  then show "chans sample_idle 7 = None" by (simp add: same views_def split: option.splits)
  have "pl_channels sample_idle fd = None" if "fd \<noteq> 9" for fd
  proof (cases "pl_channels l fd")
    case (Some c)
    then obtain ch where "chans l c = Some ch" "ch_fd ch = fd"
      using poller_okD(1) [OF loop_okD(1) [OF l(2)]] by (auto simp: entry_ok_def)
    then show ?thesis using v(2) [of c] that by (simp add: views_def view_channel_def)
  qed (simp add: same)
  then show "pl_channels sample_idle 12 = None" "pl_channels sample_idle 13 = None" by simp_all
  show f: "cn_state sample_idle = cnDisconnected" "cn_channel sample_idle = None" "cn_open sample_idle = {}"
    "pendingFunctors sample_idle = []" "retryDelayMs sample_idle = delay_after 0"
    "cn_clock sample_idle = Timestamp 5000000" "so_errors sample_idle = [0]" "sock_names sample_idle = [(None, None)]"
    "socket_answers sample_idle = [12, 13]" "connect_answers sample_idle = []"
    by (simp_all add: e l(3) kInitRetryDelayMs_def delay_after_def)
  have q: "queue_ok (\<lambda>_. True) {} sample_idle"
    by (simp add: queue_ok_def tq_ok_def seq_of_def) (simp add: e)
  have "threadId sample_idle = 1" "\<not> lp_eventHandling sample_idle" "newConnectionCallback_set sample_idle"
    using l(4,5) by (simp_all add: e)
  then have "cn_core 1 sample_idle"
    using lok q f by (simp add: cn_core_def delay_after_def kInitRetryDelayMs_def kMaxRetryDelayMs_def)
  then show "cn_ok False 1 sample_idle" using f by (simp add: cn_ok_def cn_link_def)
qed


definition sample_connecting :: connector where
  "sample_connecting = (case cn_start sample_timer_addr sample_fresh (\<lambda>_. Inr) 1 sample_idle of
     Inl _ \<Rightarrow> undefined | Inr s \<Rightarrow> s)"

lemma sample_connecting_ok:
  "cn_ok False 1 sample_connecting" "cn_state sample_connecting = cnConnecting" "cn_open sample_connecting = {12}"
  "pendingFunctors sample_connecting = []" "so_errors sample_connecting = [0]" "sock_names sample_connecting = [(None, None)]"
  "socket_answers sample_connecting = [13]" "connect_answers sample_connecting = []" "cn_connect sample_connecting"
  "pl_channels sample_connecting 13 = None" "cn_start sample_timer_addr sample_fresh (\<lambda>_. Inr) 1 sample_idle = Inr sample_connecting"
proof -
  note I = sample_idle_ok
  let ?s = "sample_idle\<lparr>cn_connect := True, socket_answers := [13], cn_open := {12}\<rparr>"
  have "threadId sample_idle = 1" using cn_coreD(3) [OF cn_ok_core [OF I(1)]] .
  then have run: "cn_start sample_timer_addr sample_fresh (\<lambda>_. Inr) 1 sample_idle = cn_connecting sample_fresh 12 ?s"
    using I by (simp add: cn_start_def runInLoop_def isInLoopThread_def cn_startInLoop_def cn_connect_now_def
      createNonblockingOrDie_def sys_connect_def in_progress_def)
  have core: "cn_core 1 ?s" using cn_ok_core [OF I(1)] by simp
  have "\<exists>s'. cn_connecting sample_fresh 12 ?s = Inr s' \<and> cn_ok False 1 s' \<and> cn_state s' = cnConnecting \<and>
      cn_handed s' = cn_handed ?s \<and> cn_open s' = {12} \<and> pendingFunctors s' = pendingFunctors ?s \<and>
      cn_connect s' = cn_connect ?s \<and> so_errors s' = so_errors ?s \<and> sock_names s' = sock_names ?s \<and>
      socket_answers s' = socket_answers ?s \<and> connect_answers s' = connect_answers ?s \<and> cn_view s' = cn_view ?s \<and> pl_channels s' = (pl_channels ?s)(12 \<mapsto> 7)"
    by (rule cn_connecting_run [OF core, where c = 7])
      (use I sample_world(2) in \<open>simp_all add: sample_fresh_def cn_setState_def\<close>)
  then show "cn_ok False 1 sample_connecting" "cn_state sample_connecting = cnConnecting" "cn_open sample_connecting = {12}"
    "pendingFunctors sample_connecting = []" "so_errors sample_connecting = [0]" "sock_names sample_connecting = [(None, None)]"
    "socket_answers sample_connecting = [13]" "connect_answers sample_connecting = []" "cn_connect sample_connecting"
    "pl_channels sample_connecting 13 = None" "cn_start sample_timer_addr sample_fresh (\<lambda>_. Inr) 1 sample_idle = Inr sample_connecting"
    using run I by (auto simp: sample_connecting_def)
qed

theorem connector_safe_witness:
  "case foldr_res (cn_step sample_timer_addr sample_fresh (\<lambda>_. Inr) 1)
       [Cn_Start 1, Cn_Stop 2, Cn_Io POLLOUT (Timestamp 6000000)] sample_idle of
      Inl e \<Rightarrow> e = Bad_Alloc \<or> fails_at (cn_blame 1) (cn_step sample_timer_addr sample_fresh (\<lambda>_. Inr) 1)
        [Cn_Start 1, Cn_Stop 2, Cn_Io POLLOUT (Timestamp 6000000)] sample_idle e
    | Inr s' \<Rightarrow> 500 \<le> retryDelayMs s' \<and> retryDelayMs s' \<le> 30000 \<and>
        (if cn_state s' = cnConnecting
         then \<exists>c fd. cn_channel s' = Some c \<and> cn_open s' = {fd} \<and> watched s' fd = Some (kWriteEvent, c)
         else cn_open s' = {}) \<and>
        (\<forall>ev e. cn_promised ev s' \<and> cn_blame 1 ev s' e \<longrightarrow>
           cn_step sample_timer_addr sample_fresh (\<lambda>_. Inr) 1 ev s' = Inl e)"
proof (rule connector_safe [OF sample_idle_ok(1) sample_world])
  let ?step = "cn_step sample_timer_addr sample_fresh (\<lambda>_. Inr) 1"
  have start: "?step (Cn_Start 1) sample_idle = Inr sample_connecting" using sample_connecting_ok(11) by simp
  have "next_socket_free sample_idle" "next_socket_free sample_connecting"
    using sample_idle_ok(10,12) sample_connecting_ok(7,10) by (simp_all add: next_socket_free_def)
  moreover have "cn_promised (Cn_Io POLLOUT (Timestamp 6000000)) (cn_stop 2 sample_connecting)"
    using cn_promised_io [OF cn_stop_ok [OF sample_connecting_ok(1)]] sample_connecting_ok(2) by simp
  ultimately show "all_along cn_promised ?step [Cn_Start 1, Cn_Stop 2, Cn_Io POLLOUT (Timestamp 6000000)] sample_idle"
    using start by (simp split: sum.split)
qed

theorem retry_backoff_witness:
  "cn_retry sample_timer_addr 1 12 (sample_idle\<lparr>cn_connect := True\<rparr>) = Inl Bad_Alloc \<or>
   (\<exists>s' a. cn_retry sample_timer_addr 1 12 (sample_idle\<lparr>cn_connect := True\<rparr>) = Inr s' \<and>
      retryDelayMs s' = 1000 \<and> (Timestamp 5500000, a) \<in> set (timers s'))"
proof -
  have "cn_ok False 1 (sample_idle\<lparr>cn_connect := True\<rparr>)" using sample_idle_ok(1) by (simp add: cn_ok_def)
  from retry_backoff [OF this _ _ sample_world(1), of 0 12 "[12]"] show ?thesis
    using sample_idle_ok by (auto simp: delay_after_def)
qed

theorem connect_outcome_witness:
  "\<exists>s'. cn_handleWrite sample_timer_addr (\<lambda>_. Inr) 1 sample_connecting = Inr s' \<and>
     cn_state s' = cnConnected \<and> cn_handed s' = cn_handed sample_connecting @ [12] \<and> cn_open s' = {}"
  using connect_outcome [OF sample_connecting_ok(1,2) sample_world(1) sample_connecting_ok(5,6,3), of "\<lambda>_. Inr"]
    sample_connecting_ok(9) by auto

theorem start_after_stop_fails_witness:
  "bindr (foldr_res (cn_step sample_timer_addr sample_fresh (\<lambda>_. Inr) 1) [Cn_Stop 1, Cn_Functor] sample_connecting)
     (cn_start sample_timer_addr sample_fresh (\<lambda>_. Inr) 1) = Inl (Assert_Failed ''connecting: !channel_'')"
  using start_after_stop_fails [OF sample_connecting_ok(1,2,4,7) _ sample_connecting_ok(8,5,6) not_self,
    of sample_timer_addr sample_fresh "\<lambda>_. Inr"] by simp


end
