(* ===== verification/ThreadPool.thy ===== *)
theory ThreadPool
  imports Prelude "HOL-Library.Multiset"
begin

text \<open>
  \<open>base/ThreadPool.h\<close> and \<open>base/ThreadPool.cc\<close>: the pool, its worker threads and the threads that
  call \<open>run\<close>.  A step is what a thread does between two points where others can interfere: a
  critical section of the mutex, a test of \<open>running_\<close>, a call of a task.  A thread in a condition
  variable's \<open>wait\<close> has released the mutex; it may also wake up for no reason.  \<open>notify_one\<close>
  wakes any one of the waiting threads, and none only if none waits.
\<close>

section \<open>The class\<close>

record 'a thread_pool =
  tp_queue :: "'a list"
  maxQueueSize :: nat
  tp_running :: bool
  tp_threads :: nat
  threadInitCallback :: "'a option"
  tp_called :: "'a list"   \<comment> \<open>what was called without a queue: \<open>run\<close> with no threads, the init callback\<close>

definition new_ThreadPool :: "'a thread_pool" where
  "new_ThreadPool = \<lparr>tp_queue = [], maxQueueSize = 0, tp_running = False, tp_threads = 0,
     threadInitCallback = None, tp_called = []\<rparr>"

definition isFull :: "('a, 'm) thread_pool_scheme \<Rightarrow> bool" where
  "isFull p \<longleftrightarrow> maxQueueSize p > 0 \<and> length (tp_queue p) \<ge> maxQueueSize p"

definition tp_queueSize :: "('a, 'm) thread_pool_scheme \<Rightarrow> nat" where
  "tp_queueSize p = length (tp_queue p)"

definition call_init :: "('a, 'm) thread_pool_scheme \<Rightarrow> ('a, 'm) thread_pool_scheme" where
  "call_init p = (case threadInitCallback p of None \<Rightarrow> p | Some f \<Rightarrow> p\<lparr>tp_called := tp_called p @ [f]\<rparr>)"

text \<open>A negative number of threads is a huge size for \<open>reserve\<close>.\<close>

definition tp_start :: "int \<Rightarrow> ('a, 'm) thread_pool_scheme \<Rightarrow> ('a, 'm) thread_pool_scheme res" where
  "tp_start numThreads p =
     ensure ''start: threads_'' (tp_threads p = 0)
       (ensure ''start: running_'' (\<not> tp_running p)
          (if numThreads < 0 then Inl Length_Error
           else let p = p\<lparr>tp_running := True, tp_threads := nat numThreads\<rparr>
                in Inr (if numThreads = 0 then call_init p else p)))"

text \<open>The critical sections of \<open>run\<close> and \<open>take\<close>, after their waits.\<close>

definition tp_put :: "'a \<Rightarrow> ('a, 'm) thread_pool_scheme \<Rightarrow> ('a, 'm) thread_pool_scheme res" where
  "tp_put task p = ensure ''run: !isFull'' (\<not> isFull p) (Inr (p\<lparr>tp_queue := tp_queue p @ [task]\<rparr>))"

definition take_ready :: "('a, 'm) thread_pool_scheme \<Rightarrow> bool" where
  "take_ready p \<longleftrightarrow> tp_queue p \<noteq> [] \<or> \<not> tp_running p"

definition tp_take :: "('a, 'm) thread_pool_scheme \<Rightarrow> 'a option \<times> ('a, 'm) thread_pool_scheme" where
  "tp_take p = (case tp_queue p of [] \<Rightarrow> (None, p) | task # tasks \<Rightarrow> (Some task, p\<lparr>tp_queue := tasks\<rparr>))"

section \<open>The threads\<close>

datatype 'a worker =
    W_Start          \<comment> \<open>before the init callback\<close>
  | W_Test           \<comment> \<open>before \<open>while (running_)\<close>\<close>
  | W_Enter          \<comment> \<open>about to lock the mutex in \<open>take\<close>, or woken in its wait\<close>
  | W_Waiting        \<comment> \<open>in \<open>notEmpty_.wait\<close>\<close>
  | W_Has 'a         \<comment> \<open>in the task it took\<close>
  | W_Exited

datatype 'a client =
    C_Idle
  | C_Enter 'a       \<comment> \<open>about to lock the mutex in \<open>run\<close>, or woken in its wait\<close>
  | C_Waiting 'a     \<comment> \<open>in \<open>notFull_.wait\<close>\<close>

record 'a tp_system = "'a thread_pool" +
  workers :: "'a worker list"
  clients :: "'a client list"
  submitted :: "'a list"   \<comment> \<open>what was put on the queue\<close>
  taken_tasks :: "'a list"
  finished :: "'a list"
  aborted :: bool          \<comment> \<open>a task threw an exception: the process is gone\<close>

fun wake_worker :: "'a worker \<Rightarrow> 'a worker" where
  "wake_worker W_Waiting = W_Enter"
| "wake_worker w = w"

fun wake_client :: "'a client \<Rightarrow> 'a client" where
  "wake_client (C_Waiting t) = C_Enter t"
| "wake_client c = c"

fun waits :: "'a client \<Rightarrow> bool" where
  "waits (C_Waiting t) = True"
| "waits c = False"

fun enters :: "'a client \<Rightarrow> bool" where
  "enters (C_Enter t) = True"
| "enters c = False"

text \<open>\<open>notify_one\<close> and \<open>notify_all\<close> of the two condition variables.\<close>

definition notify_notEmpty :: "nat \<Rightarrow> 'a tp_system \<Rightarrow> 'a tp_system" where
  "notify_notEmpty i s = (if i < length (workers s) then s\<lparr>workers := (workers s)[i := wake_worker (workers s ! i)]\<rparr> else s)"

definition notify_notFull :: "nat \<Rightarrow> 'a tp_system \<Rightarrow> 'a tp_system" where
  "notify_notFull i s = (if i < length (clients s) then s\<lparr>clients := (clients s)[i := wake_client (clients s ! i)]\<rparr> else s)"

definition worker_chosen :: "nat \<Rightarrow> 'a tp_system \<Rightarrow> bool" where
  "worker_chosen i s \<longleftrightarrow> (W_Waiting \<in> set (workers s) \<longrightarrow> i < length (workers s) \<and> workers s ! i = W_Waiting)"

definition client_chosen :: "nat \<Rightarrow> 'a tp_system \<Rightarrow> bool" where
  "client_chosen i s \<longleftrightarrow> (list_ex waits (clients s) \<longrightarrow> i < length (clients s) \<and> waits (clients s ! i))"

definition set_worker :: "nat \<Rightarrow> 'a worker \<Rightarrow> 'a tp_system \<Rightarrow> 'a tp_system" where
  "set_worker w pc s = s\<lparr>workers := (workers s)[w := pc]\<rparr>"

definition set_client :: "nat \<Rightarrow> 'a client \<Rightarrow> 'a tp_system \<Rightarrow> 'a tp_system" where
  "set_client c pc s = s\<lparr>clients := (clients s)[c := pc]\<rparr>"

text \<open>\<open>take\<close> once its wait is over, by worker \<open>w\<close>; \<open>i\<close> is the client that \<open>notify_one\<close> picks.\<close>

definition take_step :: "nat \<Rightarrow> nat \<Rightarrow> 'a tp_system \<Rightarrow> 'a tp_system" where
  "take_step w i s =
     (case tp_take s of
        (None, s) \<Rightarrow> set_worker w W_Test s
      | (Some task, s) \<Rightarrow>
          set_worker w (W_Has task)
            ((if maxQueueSize s > 0 then notify_notFull i s else s)\<lparr>taken_tasks := taken_tasks s @ [task]\<rparr>))"

definition put_step :: "nat \<Rightarrow> nat \<Rightarrow> 'a \<Rightarrow> 'a tp_system \<Rightarrow> 'a tp_system res" where
  "put_step c i task s =
     bindr (tp_put task s) (\<lambda>s. Inr (notify_notEmpty i (set_client c C_Idle s\<lparr>submitted := submitted s @ [task]\<rparr>)))"

definition tp_stop :: "'a tp_system \<Rightarrow> 'a tp_system" where
  "tp_stop s = s\<lparr>tp_running := False, workers := map wake_worker (workers s)\<rparr>"

definition delete_ThreadPool :: "'a tp_system \<Rightarrow> 'a tp_system" where
  "delete_ThreadPool s = (if tp_running s then tp_stop s else s)"

text \<open>A call of \<open>run\<close>: with no threads the task is called at once.\<close>

definition tp_run :: "nat \<Rightarrow> 'a \<Rightarrow> 'a tp_system \<Rightarrow> 'a tp_system" where
  "tp_run c task s =
     (if tp_threads s = 0 then s\<lparr>tp_called := tp_called s @ [task]\<rparr> else set_client c (C_Enter task) s)"

definition worker_at :: "nat \<Rightarrow> 'a worker \<Rightarrow> 'a tp_system \<Rightarrow> bool" where
  "worker_at w pc s \<longleftrightarrow> w < length (workers s) \<and> workers s ! w = pc \<and> \<not> aborted s"

definition client_at :: "nat \<Rightarrow> 'a client \<Rightarrow> 'a tp_system \<Rightarrow> bool" where
  "client_at c pc s \<longleftrightarrow> c < length (clients s) \<and> clients s ! c = pc \<and> \<not> aborted s"

text \<open>\<open>runInThread\<close>.\<close>

inductive worker_step :: "nat \<Rightarrow> 'a tp_system \<Rightarrow> 'a tp_system \<Rightarrow> bool" where
  Init: "worker_at w W_Start s \<Longrightarrow> worker_step w s (set_worker w W_Test (call_init s))"
| Test_Go: "worker_at w W_Test s \<Longrightarrow> tp_running s \<Longrightarrow> worker_step w s (set_worker w W_Enter s)"
| Test_Stop: "worker_at w W_Test s \<Longrightarrow> \<not> tp_running s \<Longrightarrow> worker_step w s (set_worker w W_Exited s)"
| Wait: "worker_at w W_Enter s \<Longrightarrow> \<not> take_ready s \<Longrightarrow> worker_step w s (set_worker w W_Waiting s)"
| Take: "worker_at w W_Enter s \<Longrightarrow> take_ready s \<Longrightarrow> client_chosen i s \<Longrightarrow> worker_step w s (take_step w i s)"
| Wake: "worker_at w W_Waiting s \<Longrightarrow> worker_step w s (set_worker w W_Enter s)"
| Return: "worker_at w (W_Has t) s \<Longrightarrow> worker_step w s (set_worker w W_Test s\<lparr>finished := finished s @ [t]\<rparr>)"
| Throw: "worker_at w (W_Has t) s \<Longrightarrow> worker_step w s (s\<lparr>aborted := True\<rparr>)"

inductive tp_step :: "'a tp_system \<Rightarrow> 'a tp_system \<Rightarrow> bool" where
  Worker: "worker_step w s s' \<Longrightarrow> tp_step s s'"
| Run: "client_at c C_Idle s \<Longrightarrow> tp_step s (tp_run c t s)"
| Put: "client_at c (C_Enter t) s \<Longrightarrow> \<not> isFull s \<Longrightarrow> worker_chosen i s \<Longrightarrow> put_step c i t s = Inr s' \<Longrightarrow> tp_step s s'"
| Full: "client_at c (C_Enter t) s \<Longrightarrow> isFull s \<Longrightarrow> tp_step s (set_client c (C_Waiting t) s)"
| Client_Wake: "client_at c (C_Waiting t) s \<Longrightarrow> tp_step s (set_client c (C_Enter t) s)"
| Stop: "\<not> aborted s \<Longrightarrow> tp_step s (tp_stop s)"

text \<open>A pool that \<open>start\<close> has just left, and any number of client threads.\<close>

definition tp_started :: "'a tp_system \<Rightarrow> bool" where
  "tp_started s \<longleftrightarrow> tp_running s \<and> tp_queue s = [] \<and> workers s = replicate (tp_threads s) W_Start \<and>
     list_all ((=) C_Idle) (clients s) \<and> submitted s = [] \<and> taken_tasks s = [] \<and> finished s = [] \<and> \<not> aborted s"

inductive tp_reach :: "'a tp_system \<Rightarrow> bool" where
  Started: "tp_started s \<Longrightarrow> tp_reach s"
| Next: "tp_reach s \<Longrightarrow> tp_step s s' \<Longrightarrow> tp_reach s'"

inductive_cases worker_stepE: "worker_step w s s'"

section \<open>The invariant\<close>

text \<open>
  The queue holds what was put and not taken.  While a worker waits at least as many others are
  about to take as there are tasks, and while a client waits at least as many others are about to
  put as there is room.
\<close>

fun entering :: "'a worker \<Rightarrow> nat" where
  "entering W_Enter = 1"
| "entering _ = 0"

definition n_enter :: "'a tp_system \<Rightarrow> nat" where
  "n_enter s = sum_list (map entering (workers s))"

definition n_client :: "'a tp_system \<Rightarrow> nat" where
  "n_client s = sum_list (map (\<lambda>c. of_bool (enters c)) (clients s))"

fun held :: "'a worker \<Rightarrow> 'a multiset" where
  "held (W_Has t) = {#t#}"
| "held _ = {#}"

definition held_tasks :: "'a tp_system \<Rightarrow> 'a multiset" where
  "held_tasks s = sum_list (map held (workers s))"

definition tp_inv :: "'a tp_system \<Rightarrow> bool" where
  "tp_inv s \<longleftrightarrow> length (workers s) = tp_threads s \<and> submitted s = taken_tasks s @ tp_queue s \<and>
     (maxQueueSize s > 0 \<longrightarrow> length (tp_queue s) \<le> maxQueueSize s) \<and>
     mset (taken_tasks s) = mset (finished s) + held_tasks s \<and>
     (W_Waiting \<in> set (workers s) \<longrightarrow> tp_running s \<and> length (tp_queue s) \<le> n_enter s) \<and>
     (list_ex waits (clients s) \<longrightarrow> maxQueueSize s > 0 \<and> maxQueueSize s - length (tp_queue s) \<le> n_client s)"

lemma member_update: "x \<in> set (xs[i := y]) \<Longrightarrow> x \<noteq> y \<Longrightarrow> x \<in> set xs"
  using set_update_subset_insert [of xs i y] by blast

lemma waits_update: "list_ex waits (xs[i := y]) \<Longrightarrow> \<not> waits y \<Longrightarrow> list_ex waits xs"
  using set_update_subset_insert [of xs i y] by (auto simp: list_ex_iff)

lemma fields_worker [simp]:
  "tp_threads (set_worker w pc s) = tp_threads s" "submitted (set_worker w pc s) = submitted s"
  "taken_tasks (set_worker w pc s) = taken_tasks s" "tp_queue (set_worker w pc s) = tp_queue s"
  "maxQueueSize (set_worker w pc s) = maxQueueSize s" "finished (set_worker w pc s) = finished s"
  "tp_running (set_worker w pc s) = tp_running s" "clients (set_worker w pc s) = clients s"
  "workers (set_worker w pc s) = (workers s)[w := pc]" "aborted (set_worker w pc s) = aborted s"
  by (simp_all add: set_worker_def)

lemma fields_client [simp]:
  "tp_threads (set_client w c s) = tp_threads s" "submitted (set_client w c s) = submitted s"
  "taken_tasks (set_client w c s) = taken_tasks s" "tp_queue (set_client w c s) = tp_queue s"
  "maxQueueSize (set_client w c s) = maxQueueSize s" "finished (set_client w c s) = finished s"
  "tp_running (set_client w c s) = tp_running s" "workers (set_client w c s) = workers s"
  "clients (set_client w c s) = (clients s)[w := c]" "aborted (set_client w c s) = aborted s"
  by (simp_all add: set_client_def)

lemma n_enter_set:
  assumes "worker_at w pc s"
  shows "n_enter (set_worker w pc' s) + entering pc = n_enter s + entering pc'"
  using assms sum_update [of w "workers s" entering pc'] by (simp add: n_enter_def worker_at_def)

lemma held_set:
  assumes "worker_at w pc s"
  shows "held_tasks (set_worker w pc' s) + held pc = held_tasks s + held pc'"
  using assms sum_update [of w "workers s" held pc'] by (simp add: held_tasks_def worker_at_def)

lemma n_client_set:
  assumes "client_at c pc s"
  shows "n_client (set_client c pc' s) + of_bool (enters pc) = n_client s + of_bool (enters pc')"
  using assms sum_update [of c "clients s" "\<lambda>c. of_bool (enters c) :: nat" pc'] by (simp add: n_client_def client_at_def)

lemma tp_invD:
  assumes "tp_inv s"
  shows "length (workers s) = tp_threads s" "submitted s = taken_tasks s @ tp_queue s"
    "maxQueueSize s > 0 \<Longrightarrow> length (tp_queue s) \<le> maxQueueSize s"
    "mset (taken_tasks s) = mset (finished s) + held_tasks s"
    "W_Waiting \<in> set (workers s) \<Longrightarrow> tp_running s \<and> length (tp_queue s) \<le> n_enter s"
    "list_ex waits (clients s) \<Longrightarrow> maxQueueSize s > 0 \<and> maxQueueSize s - length (tp_queue s) \<le> n_client s"
  using assms by (simp_all add: tp_inv_def)

text \<open>A worker that moves on without touching the queue.\<close>

lemma worker_moves:
  assumes inv: "tp_inv s" and at: "worker_at w pc s" and h: "held pc' = held pc" and e: "entering pc \<le> entering pc'"
    and nw: "pc' \<noteq> W_Waiting"
  shows "tp_inv (set_worker w pc' s)"
proof -
  have "W_Waiting \<in> set (workers s)" if "W_Waiting \<in> set (workers (set_worker w pc' s))"
    using member_update [of W_Waiting "workers s" w pc'] that nw by simp
  then have "W_Waiting \<in> set (workers (set_worker w pc' s)) \<Longrightarrow> tp_running s \<and> length (tp_queue s) \<le> n_enter (set_worker w pc' s)"
    using n_enter_set [OF at, of pc'] e tp_invD(5) [OF inv] by fastforce
  moreover have "held_tasks (set_worker w pc' s) = held_tasks s" using held_set [OF at, of pc'] h by simp
  moreover have "n_client (set_worker w pc' s) = n_client s" by (simp add: n_client_def)
  ultimately show ?thesis using inv by (simp add: tp_inv_def)
qed

lemma tp_inv_call_init [simp]: "tp_inv (call_init s) = tp_inv s"
  by (simp add: call_init_def tp_inv_def n_enter_def n_client_def held_tasks_def split: option.split)

lemma no_held_waiting: "held (wake_worker w) = held w" "entering w \<le> entering (wake_worker w)" "wake_worker w \<noteq> W_Waiting"
  by (cases w; simp)+

lemma not_waits_wake [simp]: "\<not> waits (wake_client c)" "\<not> waits c \<Longrightarrow> wake_client c = c"
  by (cases c; simp)+

text \<open>Waking a client makes one more of them enter, if any waits.\<close>

lemma notify_notFull_ok:
  assumes "client_chosen i s" "list_ex waits (clients (notify_notFull i s))"
  shows "list_ex waits (clients s)" "n_client (notify_notFull i s) = Suc (n_client s)"
proof -
  show w: "list_ex waits (clients s)"
    using assms(2) waits_update [of "clients s" i "wake_client (clients s ! i)"] by (simp add: notify_notFull_def split: if_splits)
  then have i: "i < length (clients s)" "waits (clients s ! i)" using assms(1) by (simp_all add: client_chosen_def)
  then have "enters (wake_client (clients s ! i))" "\<not> enters (clients s ! i)" by (cases "clients s ! i"; simp)+
  then show "n_client (notify_notFull i s) = Suc (n_client s)"
    using sum_update [OF i(1), of "\<lambda>c. of_bool (enters c) :: nat" "wake_client (clients s ! i)"] i
    by (simp add: notify_notFull_def n_client_def)
qed

lemma notify_notEmpty_ok:
  assumes "worker_chosen i s" "W_Waiting \<in> set (workers (notify_notEmpty i s))"
  shows "W_Waiting \<in> set (workers s)" "n_enter (notify_notEmpty i s) = Suc (n_enter s)"
proof -
  show w: "W_Waiting \<in> set (workers s)"
    using assms(2) member_update [of W_Waiting "workers s" i "wake_worker (workers s ! i)"] no_held_waiting(3) [of "workers s ! i"]
    by (simp add: notify_notEmpty_def split: if_splits)
  then have i: "i < length (workers s)" "workers s ! i = W_Waiting" using assms(1) by (simp_all add: worker_chosen_def)
  then show "n_enter (notify_notEmpty i s) = Suc (n_enter s)"
    using sum_update [OF i(1), of entering W_Enter] by (simp add: notify_notEmpty_def n_enter_def)
qed

lemma fields_notify [simp]:
  "tp_threads (notify_notFull i s) = tp_threads s" "submitted (notify_notFull i s) = submitted s"
  "taken_tasks (notify_notFull i s) = taken_tasks s" "tp_queue (notify_notFull i s) = tp_queue s"
  "maxQueueSize (notify_notFull i s) = maxQueueSize s" "finished (notify_notFull i s) = finished s"
  "tp_running (notify_notFull i s) = tp_running s" "workers (notify_notFull i s) = workers s"
  "tp_threads (notify_notEmpty i s) = tp_threads s" "submitted (notify_notEmpty i s) = submitted s"
  "taken_tasks (notify_notEmpty i s) = taken_tasks s" "tp_queue (notify_notEmpty i s) = tp_queue s"
  "maxQueueSize (notify_notEmpty i s) = maxQueueSize s" "finished (notify_notEmpty i s) = finished s"
  "tp_running (notify_notEmpty i s) = tp_running s" "clients (notify_notEmpty i s) = clients s"
  "length (workers (notify_notEmpty i s)) = length (workers s)" "aborted (notify_notEmpty i s) = aborted s"
  by (simp_all add: notify_notFull_def notify_notEmpty_def)

lemma held_notify [simp]: "held_tasks (notify_notEmpty i s) = held_tasks s"
proof (cases "i < length (workers s)")
  case True
  then show ?thesis
    using sum_update [OF True, of held "wake_worker (workers s ! i)"]
    by (simp add: notify_notEmpty_def held_tasks_def no_held_waiting)
qed (simp add: notify_notEmpty_def)

lemma wait_inv:
  assumes inv: "tp_inv s" and at: "worker_at w W_Enter s" and no: "\<not> take_ready s"
  shows "tp_inv (set_worker w W_Waiting s)"
  using inv no held_set [OF at, of W_Waiting] by (auto simp: tp_inv_def take_ready_def n_client_def)

lemma take_inv:
  assumes inv: "tp_inv s" and at: "worker_at w W_Enter s" and ready: "take_ready s" and c: "client_chosen i s"
  shows "tp_inv (take_step w i s)"
proof (cases "tp_queue s")
  case Nil
  note inv' = tp_invD [OF inv]
  have "W_Waiting \<notin> set (workers (set_worker w W_Test s))"
    using Nil ready inv'(5) member_update [of W_Waiting "workers s" w W_Test] by (auto simp: take_ready_def)
  then show ?thesis
    using inv Nil held_set [OF at, of W_Test] by (simp add: take_step_def tp_take_def tp_inv_def n_client_def)
next
  case (Cons t ts)
  let ?s0 = "s\<lparr>tp_queue := ts\<rparr>"
  define s1 where "s1 = (if maxQueueSize s > 0 then notify_notFull i ?s0 else ?s0)\<lparr>taken_tasks := taken_tasks s @ [t]\<rparr>"
  note inv' = tp_invD [OF inv]
  have run: "take_step w i s = set_worker w (W_Has t) s1" using Cons by (simp add: take_step_def tp_take_def s1_def)
  have f: "workers s1 = workers s" "tp_queue s1 = ts" "taken_tasks s1 = taken_tasks s @ [t]" "submitted s1 = submitted s"
      "finished s1 = finished s" "tp_running s1 = tp_running s" "maxQueueSize s1 = maxQueueSize s"
      "tp_threads s1 = tp_threads s" "aborted s1 = aborted s"
    by (simp_all add: s1_def notify_notFull_def)
  have at1: "worker_at w W_Enter s1" using at f by (simp add: worker_at_def)
  have e: "n_enter s1 = n_enter s" "held_tasks s1 = held_tasks s" using f by (simp_all add: n_enter_def held_tasks_def)
  have w: "W_Waiting \<in> set (workers s)" if "W_Waiting \<in> set ((workers s)[w := W_Has t])"
    using that member_update [of W_Waiting "workers s" w "W_Has t"] by simp
  have l: "maxQueueSize s > 0 \<and> maxQueueSize s - length ts \<le> n_client s1" if l: "list_ex waits (clients s1)"
  proof (cases "maxQueueSize s > 0")
    case True
    have c0: "client_chosen i ?s0" using c by (simp add: client_chosen_def)
    have "list_ex waits (clients ?s0)" "n_client (notify_notFull i ?s0) = Suc (n_client ?s0)"
      using notify_notFull_ok [OF c0] l True by (simp_all add: s1_def)
    then show ?thesis using inv'(6) Cons True by (simp add: s1_def n_client_def)
  next
    case False
    then show ?thesis using l inv'(6) by (simp add: s1_def)
  qed
  have "n_client (set_worker w (W_Has t) s1) = n_client s1" by (simp add: n_client_def)
  moreover have "mset (taken_tasks s1) = mset (finished s1) + held_tasks (set_worker w (W_Has t) s1)"
    using held_set [OF at1, of "W_Has t"] inv'(4) f e by simp
  ultimately show ?thesis
    using inv' Cons w l n_enter_set [OF at1, of "W_Has t"] e f unfolding run
    by (auto simp: tp_inv_def)
qed

lemma return_inv:
  assumes inv: "tp_inv s" and at: "worker_at w (W_Has t) s"
  shows "tp_inv (set_worker w W_Test s\<lparr>finished := finished s @ [t]\<rparr>)"
proof -
  note inv' = tp_invD [OF inv]
  let ?s = "set_worker w W_Test s"
  have "W_Waiting \<in> set (workers s)" if "W_Waiting \<in> set ((workers s)[w := W_Test])"
    using that member_update [of W_Waiting "workers s" w W_Test] by simp
  moreover have "n_enter ?s = n_enter s" "held_tasks s = held_tasks ?s + {#t#}"
    using n_enter_set [OF at, of W_Test] held_set [OF at, of W_Test] by simp_all
  ultimately show ?thesis
    using inv' by (simp add: tp_inv_def n_enter_def held_tasks_def n_client_def)
qed

lemma put_inv:
  assumes inv: "tp_inv s" and at: "client_at c (C_Enter t) s" and room: "\<not> isFull s" and ch: "worker_chosen i s"
    and put: "put_step c i t s = Inr s'"
  shows "tp_inv s'"
proof -
  note inv' = tp_invD [OF inv]
  define s1 where "s1 = set_client c C_Idle (s\<lparr>tp_queue := tp_queue s @ [t]\<rparr>)\<lparr>submitted := submitted s @ [t]\<rparr>"
  have s': "s' = notify_notEmpty i s1" using put room by (simp add: put_step_def tp_put_def s1_def set_client_def)
  have f: "workers s1 = workers s" "tp_queue s1 = tp_queue s @ [t]" "taken_tasks s1 = taken_tasks s"
      "submitted s1 = submitted s @ [t]" "finished s1 = finished s" "tp_running s1 = tp_running s"
      "maxQueueSize s1 = maxQueueSize s" "tp_threads s1 = tp_threads s" "clients s1 = (clients s)[c := C_Idle]"
    by (simp_all add: s1_def set_client_def)
  have e: "n_enter s1 = n_enter s" "held_tasks s1 = held_tasks s" using f by (simp_all add: n_enter_def held_tasks_def)
  have ch1: "worker_chosen i s1" using ch f by (simp add: worker_chosen_def)
  have w: "tp_running s \<and> length (tp_queue s @ [t]) \<le> n_enter s'" if "W_Waiting \<in> set (workers s')"
    using notify_notEmpty_ok [OF ch1] that inv'(5) f e unfolding s' by simp
  have "n_client s' = n_client s1" by (simp add: n_client_def s')
  moreover have "n_client s1 + 1 = n_client s"
    using n_client_set [OF at, of C_Idle] f by (simp add: n_client_def)
  moreover have "list_ex waits (clients s)" if "list_ex waits ((clients s)[c := C_Idle])"
    using waits_update [OF that] by simp
  ultimately have l: "maxQueueSize s > 0 \<and> maxQueueSize s - length (tp_queue s @ [t]) \<le> n_client s'"
    if "list_ex waits (clients s')"
    using that inv'(6) f s' by fastforce
  show ?thesis
    using inv' w l e f room by (auto simp: tp_inv_def s' isFull_def)
qed

lemma client_moves:
  assumes inv: "tp_inv s" and at: "client_at c pc s" and e: "enters pc \<Longrightarrow> enters pc'" and nw: "\<not> waits pc'"
  shows "tp_inv (set_client c pc' s)"
proof -
  have "list_ex waits (clients s)" if "list_ex waits ((clients s)[c := pc'])" using waits_update [OF that nw] .
  moreover have "n_client s \<le> n_client (set_client c pc' s)"
    using n_client_set [OF at, of pc'] e by (auto simp: of_bool_def split: if_splits)
  ultimately show ?thesis
    using tp_invD [OF inv] by (fastforce simp: tp_inv_def n_enter_def held_tasks_def)
qed

lemma full_inv:
  assumes inv: "tp_inv s" and full: "isFull s"
  shows "tp_inv (set_client c (C_Waiting t) s)"
  using tp_invD [OF inv] full by (auto simp: tp_inv_def isFull_def n_enter_def held_tasks_def)

lemma stop_inv: "tp_inv s \<Longrightarrow> tp_inv (tp_stop s)"
proof -
  assume inv: "tp_inv s"
  have "W_Waiting \<notin> set (map wake_worker (workers s))" using no_held_waiting(3) by (auto simp: eq_commute)
  moreover have "held_tasks (tp_stop s) = held_tasks s" by (simp add: held_tasks_def tp_stop_def comp_def no_held_waiting(1))
  ultimately show ?thesis using tp_invD [OF inv] by (simp add: tp_inv_def) (simp add: tp_stop_def n_client_def)
qed

lemma run_inv:
  assumes inv: "tp_inv s" and at: "client_at c C_Idle s"
  shows "tp_inv (tp_run c t s)"
proof (cases "tp_threads s = 0")
  case True
  then show ?thesis using inv by (simp add: tp_run_def tp_inv_def n_enter_def n_client_def held_tasks_def)
next
  case False
  then show ?thesis using client_moves [OF inv at, of "C_Enter t"] by (simp add: tp_run_def)
qed

lemma worker_step_inv:
  assumes "worker_step w s s'" "tp_inv s"
  shows "tp_inv s'"
  using assms
proof (cases rule: worker_step.cases)
  case Init
  then show ?thesis using assms(2) worker_moves [of "call_init s" w W_Start W_Test]
    by (simp add: worker_at_def) (simp add: call_init_def split: option.splits)
next
  case Test_Go
  then show ?thesis using worker_moves [OF assms(2), of w W_Test] by simp
next
  case Test_Stop
  then show ?thesis using worker_moves [OF assms(2), of w W_Test] by simp
next
  case Wake
  then show ?thesis using worker_moves [OF assms(2), of w W_Waiting] by simp
next
  case (Throw t)
  then show ?thesis using assms(2) by (simp add: tp_inv_def n_enter_def n_client_def held_tasks_def)
next
  case Wait
  then show ?thesis using wait_inv [OF assms(2)] by simp
next
  case (Take i)
  then show ?thesis using take_inv [OF assms(2)] by simp
next
  case (Return t)
  then show ?thesis using return_inv [OF assms(2)] by simp
qed

lemma tp_step_inv:
  assumes "tp_step s s'" "tp_inv s"
  shows "tp_inv s'"
  using assms
proof (cases rule: tp_step.cases)
  case (Worker w)
  then show ?thesis using worker_step_inv assms(2) by blast
next
  case (Run c t)
  then show ?thesis using run_inv [OF assms(2)] by simp
next
  case (Put c t i)
  then show ?thesis using put_inv [OF assms(2)] by blast
next
  case (Full c t)
  then show ?thesis using full_inv [OF assms(2)] by simp
next
  case (Client_Wake c t)
  then show ?thesis using client_moves [OF assms(2), of c "C_Waiting t" "C_Enter t"] by simp
next
  case Stop
  then show ?thesis using stop_inv [OF assms(2)] by simp
qed

lemma started_inv: "tp_started s \<Longrightarrow> tp_inv s"
proof -
  assume s: "tp_started s"
  then have "\<not> list_ex waits (clients s)" by (auto simp: tp_started_def list_ex_iff list_all_iff)
  moreover have "sum_list (map held (replicate n W_Start)) = {#}" for n :: nat by (induction n) simp_all
  ultimately show ?thesis using s by (simp add: tp_started_def tp_inv_def held_tasks_def)
qed

lemma tp_reach_inv: "tp_reach s \<Longrightarrow> tp_inv s"
  by (induction rule: tp_reach.induct) (auto intro: started_inv tp_step_inv)

section \<open>Stopping\<close>

text \<open>How many steps a worker still makes once \<open>running_\<close> is false.\<close>

fun rank :: "'a worker \<Rightarrow> nat" where
  "rank W_Exited = 0" | "rank W_Test = 1" | "rank W_Start = 2" | "rank (W_Has t) = 2" | "rank W_Enter = 3" | "rank W_Waiting = 4"

definition left :: "nat \<Rightarrow> 'a tp_system \<Rightarrow> nat" where
  "left w s = (if aborted s then 0 else rank (workers s ! w))"

text \<open>A step of a worker takes one of its own steps away, and none of the others'.\<close>

lemma worker_step_effect:
  assumes "worker_step v s s'" "\<not> tp_running s"
  shows "\<not> tp_running s' \<and> \<not> aborted s \<and> v < length (workers s) \<and>
    (aborted s' \<and> 0 < rank (workers s ! v) \<or> (\<exists>pc. workers s' = (workers s)[v := pc] \<and> rank pc < rank (workers s ! v)))"
  using assms
proof (cases rule: worker_step.cases)
  case (Take i)
  then show ?thesis
    using assms(2)
    by (cases "tp_queue s") (auto simp: take_step_def tp_take_def worker_at_def notify_notFull_def)
next
  case Init
  then have "workers (call_init s) = workers s" "tp_running (call_init s) = tp_running s"
    by (simp_all add: call_init_def split: option.splits)
  then show ?thesis using Init assms(2) by (auto simp: worker_at_def)
next
  case Wait
  then show ?thesis using assms(2) by (simp add: take_ready_def)
next
  case Return
  then show ?thesis using assms(2) by (auto simp: worker_at_def)
qed (use assms(2) in \<open>auto simp: worker_at_def\<close>)

lemma worker_step_left:
  assumes "worker_step v s s'" "\<not> tp_running s"
  shows "left w s' \<le> left w s" and "left v s' < left v s"
  using worker_step_effect [OF assms] by (auto simp: left_def nth_list_update split: if_splits)

lemma wake_running [simp]: "w \<noteq> W_Waiting \<Longrightarrow> wake_worker w = w"
  by (cases w) simp_all

text \<open>No other step gives a worker more to do.\<close>

lemma tp_step_left:
  assumes step: "tp_step s s'" and stopped: "\<not> tp_running s" and inv: "tp_inv s"
  shows "left w s' \<le> left w s \<and> \<not> tp_running s'"
proof -
  have none: "W_Waiting \<notin> set (workers s)" using tp_invD(5) [OF inv] stopped by blast
  show ?thesis
    using step
  proof (cases rule: tp_step.cases)
    case (Worker v)
    then show ?thesis using worker_step_left(1) [OF _ stopped] worker_step_effect [OF _ stopped] by blast
  next
    case (Run c t)
    then show ?thesis using stopped by (simp add: tp_run_def left_def)
  next
    case (Put c t i)
    have same: "(workers s)[i := wake_worker (workers s ! i)] = workers s" if "i < length (workers s)"
      using that none wake_running [of "workers s ! i"] nth_mem [OF that] by (metis list_update_id)
    from Put(4) Put(2) have "workers s' = workers s"
      by (auto simp: put_step_def tp_put_def notify_notEmpty_def set_client_def same)
    moreover have "s' = notify_notEmpty i (set_client c C_Idle (s\<lparr>tp_queue := tp_queue s @ [t]\<rparr>)\<lparr>submitted := submitted s @ [t]\<rparr>)"
      using Put(4) Put(2) by (simp add: put_step_def tp_put_def set_client_def)
    then have "aborted s' = aborted s" "tp_running s' = tp_running s" by simp_all
    ultimately show ?thesis using stopped by (simp add: left_def)
  next
    case Stop
    have "map wake_worker (workers s) = workers s" using none by (intro map_idI wake_running) auto
    then show ?thesis using Stop stopped by (simp add: tp_stop_def left_def)
  qed (use stopped in \<open>simp_all add: left_def\<close>)
qed

text \<open>A run in which worker \<open>w\<close> makes \<open>n\<close> of the steps; all the others are those of anybody else.\<close>

definition others_step :: "nat \<Rightarrow> 'a tp_system \<Rightarrow> 'a tp_system \<Rightarrow> bool" where
  "others_step w s s' \<longleftrightarrow> tp_step s s' \<and> \<not> worker_step w s s'"

inductive worked :: "nat \<Rightarrow> nat \<Rightarrow> 'a tp_system \<Rightarrow> 'a tp_system \<Rightarrow> bool" where
  Rest: "worked w 0 s s"
| Own: "worker_step w s s1 \<Longrightarrow> worked w n s1 s2 \<Longrightarrow> worked w (Suc n) s s2"
| Others: "others_step w s s1 \<Longrightarrow> worked w n s1 s2 \<Longrightarrow> worked w n s s2"

text \<open>Every run of the system is one of these, for some count.\<close>

lemma worked_total: "tp_step\<^sup>*\<^sup>* s s' \<Longrightarrow> \<exists>n. worked w n s s'"
proof (induction rule: converse_rtranclp_induct)
  case (step s s1)
  then obtain n where "worked w n s1 s'" by blast
  then show ?case
    using step.hyps(1) worked.Own [of w s s1 n s'] worked.Others [of w s s1 n s'] by (auto simp: others_step_def)
qed (blast intro: worked.Rest)

lemma worked_left:
  assumes "worked w n s s'" "\<not> tp_running s" "tp_inv s"
  shows "n + left w s' \<le> left w s \<and> \<not> tp_running s' \<and> tp_inv s'"
  using assms
proof (induction rule: worked.induct)
  case (Own w s s1 n s2)
  then show ?case
    using worker_step_left(2) [OF Own.hyps(1)] worker_step_effect [OF Own.hyps(1)] worker_step_inv [OF Own.hyps(1)] by fastforce
next
  case (Others w s s1 n s2)
  then have step: "tp_step s s1" by (simp add: others_step_def)
  show ?case using tp_step_left [OF step Others.prems, of w] tp_step_inv [OF step Others.prems(2)] Others.IH by fastforce
qed simp

lemma worker_step_threads: "worker_step w s s' \<Longrightarrow> tp_threads s' = tp_threads s"
  by (erule worker_step.cases)
    (auto simp: call_init_def take_step_def tp_take_def split: option.splits list.splits)

lemma tp_step_threads: "tp_step s s' \<Longrightarrow> tp_threads s' = tp_threads s"
  by (erule tp_step.cases)
    (auto simp: worker_step_threads tp_run_def put_step_def tp_put_def tp_stop_def ensure_def split: if_splits)

lemma worked_threads: "worked w n s s' \<Longrightarrow> tp_threads s' = tp_threads s"
  by (induction rule: worked.induct) (simp_all add: worker_step_threads tp_step_threads others_step_def)

text \<open>A worker that has not exited can go on.\<close>

lemma worker_can_step:
  assumes w: "w < length (workers s)" "workers s ! w \<noteq> W_Exited" and go: "\<not> aborted s" "\<not> tp_running s"
  shows "\<exists>s'. worker_step w s s'"
proof -
  have at: "worker_at w (workers s ! w) s" using w go by (simp add: worker_at_def)
  obtain i where i: "client_chosen i s"
    by (cases "list_ex waits (clients s)") (auto simp: client_chosen_def list_ex_iff in_set_conv_nth)
  show ?thesis
  proof (cases "workers s ! w")
    case W_Enter
    have "take_ready s" using go by (simp add: take_ready_def)
    then show ?thesis using at i W_Enter worker_step.Take [of w s i] by auto
  qed (use at w go in \<open>auto intro: worker_step.intros\<close>)
qed

section \<open>Properties\<close>

text \<open>C16: the pool is a bounded queue under every interleaving of its threads: tasks are taken in the
  order in which they were put, a taken task is finished or in the hands of exactly one worker, and
  the queue never holds more than \<open>maxQueueSize_\<close> tasks.\<close>

theorem thread_pool_fifo:
  assumes "tp_reach s"
  shows "submitted s = taken_tasks s @ tp_queue s \<and> mset (taken_tasks s) = mset (finished s) + held_tasks s \<and>
    (maxQueueSize s > 0 \<longrightarrow> length (tp_queue s) \<le> maxQueueSize s)"
  using tp_invD [OF tp_reach_inv [OF assms]] by simp

text \<open>C15: no wakeup is lost, although \<open>notify_one\<close> is called once per task and may meet a thread that
  does not wait.  While there are tasks and a worker waits, another worker is about to take; while
  there is room and a client waits, another client is about to put; and once the pool is stopped
  no worker waits.\<close>

theorem thread_pool_no_lost_wakeup:
  assumes "tp_reach s"
  shows "(tp_queue s \<noteq> [] \<longrightarrow> W_Waiting \<in> set (workers s) \<longrightarrow> W_Enter \<in> set (workers s)) \<and>
    (\<not> isFull s \<longrightarrow> list_ex waits (clients s) \<longrightarrow> list_ex enters (clients s)) \<and>
    (\<not> tp_running s \<longrightarrow> W_Waiting \<notin> set (workers s))"
proof -
  note inv = tp_invD [OF tp_reach_inv [OF assms]]
  have "W_Enter \<in> set ws" if "0 < sum_list (map entering ws)" for ws :: "'a worker list"
    using that
  proof (induction ws)
    case (Cons w ws)
    then show ?case by (cases w) auto
  qed simp
  then have 1: "W_Enter \<in> set (workers s)" if "0 < n_enter s" using that by (simp add: n_enter_def)
  have "list_ex enters cs" if "0 < sum_list (map (\<lambda>c. of_bool (enters c) :: nat) cs)" for cs :: "'a client list"
    using that by (induction cs) auto
  then have 2: "list_ex enters (clients s)" if "0 < n_client s" using that by (simp add: n_client_def)
  show ?thesis
  proof (intro conjI impI)
    show "W_Enter \<in> set (workers s)" if "tp_queue s \<noteq> []" "W_Waiting \<in> set (workers s)"
      using inv(5) [OF that(2)] that(1) 1 by (cases "tp_queue s") simp_all
    show "list_ex enters (clients s)" if "\<not> isFull s" "list_ex waits (clients s)"
      using inv(6) [OF that(2)] that(1) 2 by (simp add: isFull_def)
    show "W_Waiting \<notin> set (workers s)" if "\<not> tp_running s" using inv(5) that by blast
  qed
qed

text \<open>C17: \<open>stop\<close> terminates.  Once \<open>running_\<close> is false every worker makes at most three more steps,
  whatever the other threads do meanwhile, and after the third it has exited (or a task threw, which
  ends the process).  At any time before that it can make its next step: it never waits, so that each
  \<open>join\<close> returns if the tasks do.\<close>

theorem stop_joins:
  assumes reach: "tp_reach s" and stopped: "\<not> tp_running s" and w: "w < tp_threads s" and run: "worked w n s s'"
  shows "n \<le> 3 \<and> (n = 3 \<longrightarrow> aborted s' \<or> workers s' ! w = W_Exited) \<and>
    (aborted s' \<or> workers s' ! w = W_Exited \<or> (\<exists>s''. worker_step w s' s''))"
proof -
  note inv = tp_reach_inv [OF reach]
  note r = worked_left [OF run stopped inv] worked_threads [OF run]
  have "workers s ! w \<noteq> W_Waiting" using tp_invD(1,5) [OF inv] stopped w nth_mem [of w "workers s"] by metis
  then have "rank (workers s ! w) \<le> 3" by (cases "workers s ! w") simp_all
  then have n: "n + left w s' \<le> 3" using r by (simp add: left_def split: if_splits)
  have exited: "workers s' ! w = W_Exited" if "left w s' = 0" "\<not> aborted s'"
    using that by (cases "workers s' ! w") (simp_all add: left_def)
  have "w < length (workers s')" using tp_invD(1) [of s'] r w by simp
  then have "\<exists>s''. worker_step w s' s''" if "\<not> aborted s'" "workers s' ! w \<noteq> W_Exited"
    using worker_can_step that r by blast
  then show ?thesis using n exited by (cases "aborted s'") auto
qed

section \<open>Samples\<close>

text \<open>What \<open>start\<close> leaves of a new pool is a pool the theorems speak of.\<close>

definition enter_system :: "nat \<Rightarrow> 'a thread_pool \<Rightarrow> 'a tp_system" where
  "enter_system n p = thread_pool.extend p
     (tp_system.fields (replicate (tp_threads p) W_Start) (replicate n C_Idle) [] [] [] False)"

lemma start_started:
  assumes "tp_start numThreads new_ThreadPool = Inr p"
  shows "tp_started (enter_system n p)"
  using assms
  by (auto simp: tp_start_def new_ThreadPool_def tp_started_def enter_system_def thread_pool.defs tp_system.defs
    ensure_def call_init_def list_all_iff Let_def split: if_splits)

definition sample_started :: "nat tp_system" where
  "sample_started = (case tp_start 1 new_ThreadPool of Inl _ \<Rightarrow> undefined | Inr p \<Rightarrow> enter_system 1 p)"

text \<open>One task was put on the queue; then the pool was stopped.\<close>

definition sample_put :: "nat tp_system" where
  "sample_put = sample_started\<lparr>tp_queue := [7], submitted := [7]\<rparr>"

lemma sample_started_eq:
  "sample_started = \<lparr>tp_queue = [], maxQueueSize = 0, tp_running = True, tp_threads = 1, threadInitCallback = None,
     tp_called = [], workers = [W_Start], clients = [C_Idle], submitted = [], taken_tasks = [], finished = [], aborted = False\<rparr>"
  by (simp add: sample_started_def tp_start_def new_ThreadPool_def enter_system_def thread_pool.defs tp_system.defs)

lemma sample_put_reach: "tp_reach sample_put"
proof -
  have "tp_start 1 new_ThreadPool = Inr (new_ThreadPool\<lparr>tp_running := True, tp_threads := 1\<rparr> :: nat thread_pool)"
    by (simp add: tp_start_def new_ThreadPool_def)
  then have "tp_reach sample_started"
    using start_started [of 1 _ 1] by (auto simp: sample_started_def intro: tp_reach.Started)
  moreover have "client_at 0 C_Idle sample_started" by (simp add: sample_started_eq client_at_def)
  ultimately have "tp_reach (tp_run 0 7 sample_started)" by (blast intro: tp_reach.Next tp_step.Run)
  moreover have "put_step 0 0 7 (tp_run 0 7 sample_started) = Inr sample_put"
    by (simp add: sample_put_def sample_started_eq tp_run_def put_step_def tp_put_def isFull_def set_client_def notify_notEmpty_def)
  moreover have "client_at 0 (C_Enter 7) (tp_run 0 7 sample_started)" "\<not> isFull (tp_run 0 7 sample_started)"
      "worker_chosen 0 (tp_run 0 7 sample_started)"
    by (simp_all add: sample_started_eq tp_run_def set_client_def client_at_def isFull_def worker_chosen_def)
  ultimately show ?thesis by (blast intro: tp_reach.Next tp_step.Put)
qed

lemma sample_stopped_reach: "tp_reach (tp_stop sample_put)"
  by (rule tp_reach.Next [OF sample_put_reach tp_step.Stop]) (simp add: sample_put_def sample_started_eq)

theorem thread_pool_fifo_witness:
  "submitted sample_put = [7] \<and> submitted sample_put = taken_tasks sample_put @ tp_queue sample_put"
  using thread_pool_fifo [OF sample_put_reach] by (simp add: sample_put_def)

theorem thread_pool_no_lost_wakeup_witness:
  "tp_queue sample_put = [7] \<and> \<not> (W_Waiting \<in> set (workers sample_put) \<and> W_Enter \<notin> set (workers sample_put))"
  using thread_pool_no_lost_wakeup [OF sample_put_reach] by (auto simp: sample_put_def)

theorem stop_joins_witness:
  "\<exists>s'. worked 0 1 (tp_stop sample_put) s' \<and> (1 :: nat) \<le> 3 \<and>
     (aborted s' \<or> workers s' ! 0 = W_Exited \<or> (\<exists>s''. worker_step 0 s' s''))"
proof -
  have stopped: "\<not> tp_running (tp_stop sample_put)" by (simp add: tp_stop_def)
  have w: "0 < tp_threads (tp_stop sample_put)" by (simp add: tp_stop_def sample_put_def sample_started_eq)
  have "worker_at 0 W_Start (tp_stop sample_put)" by (simp add: worker_at_def tp_stop_def sample_put_def sample_started_eq)
  then obtain s' where run: "worked 0 1 (tp_stop sample_put) s'"
    using worked.Own [OF worker_step.Init worked.Rest] by (metis One_nat_def)
  from stop_joins [OF sample_stopped_reach stopped w run] run show ?thesis by blast
qed

end
