(* ===== verification/LoopPool.thy ===== *)
theory LoopPool
  imports Format
begin

text \<open>
  \<open>net/EventLoopThread.cc\<close> and \<open>net/EventLoopThreadPool.cc\<close>, with their headers: threads that run a
  loop each, and the pool that hands their loops out in turn.  A loop is its address, \<open>None\<close> a null
  pointer; a callback is an element of \<open>'f\<close>.
\<close>

section \<open>A thread with a loop\<close>

record 'f loop_thread =
  elt_loop :: "nat option"
  elt_exiting :: bool
  elt_callback :: "'f option"
  elt_thread :: bool                \<comment> \<open>is there a thread in \<open>threadPtr_\<close>\<close>
  elt_called :: "('f \<times> nat) list"   \<comment> \<open>the init callbacks called, with their loop\<close>

definition new_EventLoopThread :: "'f option \<Rightarrow> 'f loop_thread" where
  "new_EventLoopThread cb =
     \<lparr>elt_loop = None, elt_exiting = False, elt_callback = cb, elt_thread = False, elt_called = []\<rparr>"

text \<open>
  \<open>threadFunc\<close>, before and after \<open>loop.loop()\<close>: it publishes the loop \<open>l\<close> on its stack, and takes
  it back when the loop ends.
\<close>

definition publish_loop :: "nat \<Rightarrow> 'f loop_thread \<Rightarrow> 'f loop_thread" where
  "publish_loop l t =
     (let t = (case elt_callback t of None \<Rightarrow> t | Some cb \<Rightarrow> t\<lparr>elt_called := elt_called t @ [(cb, l)]\<rparr>)
      in t\<lparr>elt_loop := Some l\<rparr>)"

definition unpublish_loop :: "'f loop_thread \<Rightarrow> 'f loop_thread" where
  "unpublish_loop t = t\<lparr>elt_loop := None\<rparr>"

text \<open>\<open>l\<close> is the loop of the new thread, published before or during the wait for it.\<close>

definition startLoop :: "nat \<Rightarrow> 'f loop_thread \<Rightarrow> (nat \<times> 'f loop_thread) res" where
  "startLoop l t =
     (case elt_loop t of
        None \<Rightarrow> Inl Null_Deref   \<comment> \<open>\<open>loop_->assertInLoopThread()\<close>\<close>
      | Some _ \<Rightarrow>
          ensure ''startLoop: !threadPtr_'' (\<not> elt_thread t)
            (let t = publish_loop l (t\<lparr>elt_thread := True\<rparr>) in Inr (l, t)))"

text \<open>
  The destructor returns the loop it told to quit.  A \<open>unique_ptr\<close> that still holds a running thread
  ends the program.
\<close>

definition delete_EventLoopThread :: "'f loop_thread \<Rightarrow> nat option res" where
  "delete_EventLoopThread t =
     (let t = t\<lparr>elt_exiting := True\<rparr>
      in if elt_thread t then case elt_loop t of None \<Rightarrow> Inl Terminated | Some l \<Rightarrow> Inr (Some l)
         else Inr None)"

section \<open>The pool\<close>

record 'f loop_pool =
  baseLoop :: nat
  elp_name :: string
  elp_started :: bool
  numThreads :: int
  elp_next :: int
  elp_threads :: "(string \<times> 'f loop_thread) list"
  elp_loops :: "nat list"
  elp_called :: "('f \<times> nat) list"

definition new_EventLoopThreadPool :: "nat \<Rightarrow> string \<Rightarrow> 'f loop_pool" where
  "new_EventLoopThreadPool base nameArg =
     \<lparr>baseLoop = base, elp_name = nameArg, elp_started = False, numThreads = 0, elp_next = 0,
      elp_threads = [], elp_loops = [], elp_called = []\<rparr>"

definition elp_setThreadNum :: "int \<Rightarrow> 'f loop_pool \<Rightarrow> 'f loop_pool" where
  "elp_setThreadNum n p = p\<lparr>numThreads := n\<rparr>"

text \<open>\<open>l i\<close> is the loop of the i-th thread.\<close>

definition start_thread :: "'f option \<Rightarrow> (nat \<Rightarrow> nat) \<Rightarrow> nat \<Rightarrow> 'f loop_pool \<Rightarrow> 'f loop_pool res" where
  "start_thread cb l i p =
     (let buf = snprintf (length (elp_name p) + 32) (elp_name p @ dec_nat i);
          t = new_EventLoopThread cb
      in bindr (startLoop (l i) t) (\<lambda>(loop, t).
           Inr (p\<lparr>elp_threads := elp_threads p @ [(buf, t)], elp_loops := elp_loops p @ [loop]\<rparr>)))"

definition elp_start :: "'f option \<Rightarrow> (nat \<Rightarrow> nat) \<Rightarrow> 'f loop_pool \<Rightarrow> 'f loop_pool res" where
  "elp_start cb l p =
     ensure ''start: started_'' (\<not> elp_started p)
       (bindr (foldr_res (start_thread cb l) [0..<nat (numThreads p)] (p\<lparr>elp_started := True\<rparr>)) (\<lambda>p.
          Inr (case cb of
                 Some f \<Rightarrow> if numThreads p = 0 then p\<lparr>elp_called := elp_called p @ [(f, baseLoop p)]\<rparr> else p
               | None \<Rightarrow> p)))"

definition getNextLoop :: "'f loop_pool \<Rightarrow> (nat \<times> 'f loop_pool) res" where
  "getNextLoop p =
     ensure ''getNextLoop: started_'' (elp_started p)
       (if elp_loops p = [] then Inr (baseLoop p, p)
        else if elp_next p < 0 \<or> int (length (elp_loops p)) \<le> elp_next p then Inl Out_Of_Bounds
        else let loop = elp_loops p ! nat (elp_next p);
                 n = elp_next p + 1
             in Inr (loop, p\<lparr>elp_next := (if int (length (elp_loops p)) \<le> n then 0 else n)\<rparr>))"

definition getLoopForHash :: "size_t \<Rightarrow> 'f loop_pool \<Rightarrow> nat" where
  "getLoopForHash hashCode p =
     (if elp_loops p = [] then baseLoop p else elp_loops p ! (unat hashCode mod length (elp_loops p)))"

definition getAllLoops :: "'f loop_pool \<Rightarrow> nat list res" where
  "getAllLoops p =
     ensure ''getAllLoops: started_'' (elp_started p)
       (Inr (if elp_loops p = [] then [baseLoop p] else elp_loops p))"

section \<open>Handing out loops\<close>

text \<open>The loops that \<open>n\<close> calls in a row return.\<close>

fun next_loops :: "nat \<Rightarrow> 'f loop_pool \<Rightarrow> (nat list \<times> 'f loop_pool) res" where
  "next_loops 0 p = Inr ([], p)"
| "next_loops (Suc n) p =
     bindr (getNextLoop p) (\<lambda>(l, p). bindr (next_loops n p) (\<lambda>(ls, p). Inr (l # ls, p)))"

definition pool_ok :: "'f loop_pool \<Rightarrow> bool" where
  "pool_ok p \<longleftrightarrow> elp_started p \<and> 0 \<le> elp_next p \<and>
     (elp_loops p = [] \<longrightarrow> elp_next p = 0) \<and> (elp_loops p \<noteq> [] \<longrightarrow> elp_next p < int (length (elp_loops p)))"

definition all_loops :: "'f loop_pool \<Rightarrow> nat list" where
  "all_loops p = (if elp_loops p = [] then [baseLoop p] else elp_loops p)"

lemma getNextLoop_eq:
  assumes "pool_ok p"
  shows "\<exists>p'. getNextLoop p = Inr (all_loops p ! nat (elp_next p), p') \<and> pool_ok p' \<and> all_loops p' = all_loops p \<and>
    nat (elp_next p') = Suc (nat (elp_next p)) mod length (all_loops p)"
proof (cases "elp_loops p = []")
  case True
  then show ?thesis using assms by (simp add: getNextLoop_def pool_ok_def all_loops_def)
next
  case False
  let ?n = "elp_next p + 1"
  let ?p = "p\<lparr>elp_next := (if int (length (elp_loops p)) \<le> ?n then 0 else ?n)\<rparr>"
  have "getNextLoop p = Inr (elp_loops p ! nat (elp_next p), ?p)"
    using assms False by (simp add: getNextLoop_def pool_ok_def)
  moreover have "nat (elp_next ?p) = Suc (nat (elp_next p)) mod length (elp_loops p)"
  proof (cases "int (length (elp_loops p)) \<le> ?n")
    case True
    have "0 \<le> elp_next p" "elp_next p < int (length (elp_loops p))" using assms False by (simp_all add: pool_ok_def)
    then have "Suc (nat (elp_next p)) = length (elp_loops p)" using True by linarith
    then show ?thesis using True by simp
  next
    case no: False
    have "0 \<le> elp_next p" using assms by (simp add: pool_ok_def)
    then have "Suc (nat (elp_next p)) < length (elp_loops p)" "nat ?n = Suc (nat (elp_next p))" using no by linarith+
    then show ?thesis using no by simp
  qed
  moreover have "pool_ok ?p" using assms False by (auto simp: pool_ok_def)
  ultimately show ?thesis using False by (simp add: all_loops_def)
qed

section \<open>Properties\<close>

text \<open>C35: round robin.  From a started pool the calls of \<open>getNextLoop\<close> return its loops in turn,
  beginning with the one due, and never fail; after as many calls as there are loops the pool is
  back where it was.  \<open>getLoopForHash\<close> gives one of the same loops.\<close>

theorem round_robin:
  assumes "pool_ok p"
  shows "\<exists>p'. next_loops n p =
      Inr (map (\<lambda>i. all_loops p ! ((nat (elp_next p) + i) mod length (all_loops p))) [0..<n], p') \<and> pool_ok p' \<and>
      nat (elp_next p') = (nat (elp_next p) + n) mod length (all_loops p) \<and> getLoopForHash h p \<in> set (all_loops p)"
proof -
  have "\<exists>p'. next_loops n p =
      Inr (map (\<lambda>i. all_loops p ! ((nat (elp_next p) + i) mod length (all_loops p))) [0..<n], p') \<and> pool_ok p' \<and>
      nat (elp_next p') = (nat (elp_next p) + n) mod length (all_loops p)"
    using assms
  proof (induction n arbitrary: p)
    case 0
    have "nat (elp_next p) < length (all_loops p)" using 0 by (auto simp: pool_ok_def all_loops_def)
    then show ?case using 0 by simp
  next
    case (Suc n)
    let ?N = "length (all_loops p)" and ?k = "nat (elp_next p)"
    obtain p1 where p1: "getNextLoop p = Inr (all_loops p ! ?k, p1)" "pool_ok p1" "all_loops p1 = all_loops p"
        "nat (elp_next p1) = Suc ?k mod ?N"
      using getNextLoop_eq [OF Suc.prems] by blast
    obtain p2 where p2: "next_loops n p1 = Inr (map (\<lambda>i. all_loops p ! ((Suc ?k mod ?N + i) mod ?N)) [0..<n], p2)" "pool_ok p2"
        "nat (elp_next p2) = (Suc ?k mod ?N + n) mod ?N"
      using Suc.IH [OF p1(2)] p1(3,4) by auto
    have "?k < ?N" using Suc.prems by (auto simp: pool_ok_def all_loops_def)
    then have "map (\<lambda>i. all_loops p ! ((?k + i) mod ?N)) [0..<Suc n] =
        all_loops p ! ?k # map (\<lambda>i. all_loops p ! ((Suc ?k mod ?N + i) mod ?N)) [0..<n]"
      by (simp add: upt_conv_Cons map_Suc_upt [symmetric] mod_add_left_eq del: upt_Suc)
    moreover have "(Suc ?k mod ?N + n) mod ?N = (?k + Suc n) mod ?N" by (simp add: mod_add_left_eq)
    ultimately show ?case using p1(1) p2 by (simp del: upt_Suc)
  qed
  moreover have "getLoopForHash h p \<in> set (all_loops p)" by (simp add: getLoopForHash_def all_loops_def)
  ultimately show ?thesis by blast
qed

text \<open>A pool with threads cannot be started: \<open>startLoop\<close> asks the loop it is about to wait for,
  through a null pointer, whether it runs in this thread.  Without threads the pool starts, and every
  call of \<open>getNextLoop\<close> returns the base loop.\<close>

theorem loop_threads_never_start:
  "elp_start cb l (elp_setThreadNum k (new_EventLoopThreadPool base nm)) =
     (if k > 0 then Inl Null_Deref
      else Inr ((elp_setThreadNum k (new_EventLoopThreadPool base nm))
        \<lparr>elp_started := True, elp_called := (case cb of Some f \<Rightarrow> if k = 0 then [(f, base)] else [] | None \<Rightarrow> [])\<rparr>)) \<and>
   (case elp_start cb l (elp_setThreadNum k (new_EventLoopThreadPool base nm)) of
      Inl e \<Rightarrow> True | Inr p \<Rightarrow> pool_ok p \<and> all_loops p = [base])"
proof -
  have "foldr_res (start_thread cb l) [0..<nat k] p = Inl Null_Deref" if "k > 0" for p
    using that by (simp add: upt_conv_Cons start_thread_def startLoop_def new_EventLoopThread_def del: upt_Suc)
  then show ?thesis
    by (auto simp: elp_start_def elp_setThreadNum_def new_EventLoopThreadPool_def pool_ok_def all_loops_def split: option.splits)
qed

theorem round_robin_witness:
  "\<exists>p'. next_loops 5 (\<lparr>baseLoop = 1, elp_name = ''p'', elp_started = True, numThreads = 3, elp_next = 1,
      elp_threads = [], elp_loops = [10, 20, 30], elp_called = []\<rparr> :: nat loop_pool) = Inr ([20, 30, 10, 20, 30], p')"
proof -
  let ?p = "\<lparr>baseLoop = 1, elp_name = ''p'', elp_started = True, numThreads = 3, elp_next = 1,
      elp_threads = [], elp_loops = [10, 20, 30], elp_called = []\<rparr> :: nat loop_pool"
  have "pool_ok ?p" by (simp add: pool_ok_def)
  from round_robin [OF this, of 5] show ?thesis by (auto simp: all_loops_def upt_rec)
qed

end
