(* ===== verification/Sockets.thy ===== *)
theory Sockets
  imports InetAddress
begin

text \<open>
  \<open>net/Socket.cc\<close> and the wrappers of \<open>net/SocketsOps.cc\<close>, call by call: which system calls are
  made, with which arguments, what is printed, and what \<open>errno\<close> is afterwards.  The kernel is a
  parameter, a function from the calls so far and the call to an answer; \<open>noise\<close> is what writing to
  \<open>cerr\<close> makes of \<open>errno\<close>, which the library may set.  The theories of the components that own
  sockets keep only the effect of these calls on their state.
\<close>

section \<open>System calls\<close>

datatype sys_call =
    Sys_socket "16 word" int int
  | Sys_bind int sockaddr_in nat
  | Sys_listen int int
  | Sys_accept4 int nat int
  | Sys_connect int sockaddr_in nat
  | Sys_close int
  | Sys_shutdown int int
  | Sys_setsockopt int int int int
  | Sys_getsockopt int int int

record tcp_info =
  tcpi_retransmits :: "32 word"    \<comment> \<open>a byte in the structure, widened by the call of \<open>snprintf\<close>\<close>
  tcpi_rto :: "32 word"
  tcpi_ato :: "32 word"
  tcpi_snd_mss :: "32 word"
  tcpi_rcv_mss :: "32 word"
  tcpi_lost :: "32 word"
  tcpi_retrans :: "32 word"
  tcpi_rtt :: "32 word"
  tcpi_rttvar :: "32 word"
  tcpi_snd_ssthresh :: "32 word"
  tcpi_snd_cwnd :: "32 word"
  tcpi_total_retrans :: "32 word"

datatype sys_out = No_Out | Out_Addr sockaddr_in | Out_Int int | Out_Info tcp_info

text \<open>\<open>Inl\<close> is the error number of a call that fails, with the result -1.\<close>

type_synonym kernel = "sys_call list \<Rightarrow> sys_call \<Rightarrow> int + int \<times> sys_out"

record sys =
  sys_errno :: int
  sys_cerr :: "string list"
  sys_calls :: "sys_call list"

definition sys_do :: "kernel \<Rightarrow> sys_call \<Rightarrow> sys \<Rightarrow> int \<times> sys_out \<times> sys" where
  "sys_do os call s =
     (case os (sys_calls s) call of
        Inl e \<Rightarrow> (- 1, No_Out, s\<lparr>sys_calls := sys_calls s @ [call], sys_errno := e\<rparr>)
      | Inr (r, out) \<Rightarrow> (r, out, s\<lparr>sys_calls := sys_calls s @ [call]\<rparr>))"

definition print_cerr :: "(int \<Rightarrow> int) \<Rightarrow> string \<Rightarrow> sys \<Rightarrow> sys" where
  "print_cerr noise t s = s\<lparr>sys_cerr := sys_cerr s @ [t], sys_errno := noise (sys_errno s)\<rparr>"

definition complain :: "(int \<Rightarrow> int) \<Rightarrow> string \<Rightarrow> int \<Rightarrow> sys \<Rightarrow> sys" where
  "complain noise t ret s = (if ret < 0 then print_cerr noise t s else s)"

section \<open>Constants of Linux\<close>

definition SOCK_STREAM :: int where "SOCK_STREAM = 1"
definition SOCK_NONBLOCK :: int where "SOCK_NONBLOCK = 2048"
definition SOCK_CLOEXEC :: int where "SOCK_CLOEXEC = 524288"
definition IPPROTO_TCP :: int where "IPPROTO_TCP = 6"
definition SOMAXCONN :: int where "SOMAXCONN = 4096"
definition SHUT_WR :: int where "SHUT_WR = 1"
definition SOL_SOCKET :: int where "SOL_SOCKET = 1"
definition SOL_TCP :: int where "SOL_TCP = 6"
definition SO_REUSEADDR :: int where "SO_REUSEADDR = 2"
definition SO_ERROR :: int where "SO_ERROR = 4"
definition SO_KEEPALIVE :: int where "SO_KEEPALIVE = 9"
definition SO_REUSEPORT :: int where "SO_REUSEPORT = 15"
definition TCP_NODELAY :: int where "TCP_NODELAY = 1"
definition TCP_INFO :: int where "TCP_INFO = 11"

section \<open>SocketsOps\<close>

definition so_createNonblockingOrDie :: "kernel \<Rightarrow> (int \<Rightarrow> int) \<Rightarrow> 16 word \<Rightarrow> sys \<Rightarrow> int \<times> sys" where
  "so_createNonblockingOrDie os noise family s =
     (let (sockfd, _, s) = sys_do os (Sys_socket family (SOCK_STREAM + SOCK_NONBLOCK + SOCK_CLOEXEC) IPPROTO_TCP) s
      in (sockfd, complain noise ''sockets::createNonblockingOrDie'' sockfd s))"

definition bindOrDie :: "kernel \<Rightarrow> (int \<Rightarrow> int) \<Rightarrow> int \<Rightarrow> sockaddr_in \<Rightarrow> sys \<Rightarrow> sys" where
  "bindOrDie os noise sockfd addr s =
     (let (ret, _, s) = sys_do os (Sys_bind sockfd addr 16) s in complain noise ''sockets::bindOrDie'' ret s)"

definition listenOrDie :: "kernel \<Rightarrow> (int \<Rightarrow> int) \<Rightarrow> int \<Rightarrow> sys \<Rightarrow> sys" where
  "listenOrDie os noise sockfd s =
     (let (ret, _, s) = sys_do os (Sys_listen sockfd SOMAXCONN) s in complain noise ''sockets::listenOrDie'' ret s)"

text \<open>
  The cases of the \<open>switch\<close>: \<open>EAGAIN\<close>, \<open>ECONNABORTED\<close>, \<open>EINTR\<close>, \<open>EPROTO\<close>, \<open>EPERM\<close>, \<open>EMFILE\<close>, and
  \<open>EBADF\<close>, \<open>EFAULT\<close>, \<open>EINVAL\<close>, \<open>ENFILE\<close>, \<open>ENOBUFS\<close>, \<open>ENOMEM\<close>, \<open>ENOTSOCK\<close>, \<open>EOPNOTSUPP\<close>.
\<close>

definition EMFILE :: int where "EMFILE = 24"

definition expected_errors :: "int list" where
  "expected_errors = [11, 103, 4, 71, 1, EMFILE]"

definition unexpected_errors :: "int list" where
  "unexpected_errors = [9, 14, 22, 23, 105, 12, 88, 95]"

definition so_accept :: "kernel \<Rightarrow> (int \<Rightarrow> int) \<Rightarrow> int \<Rightarrow> sockaddr_in \<Rightarrow> sys \<Rightarrow> int \<times> sockaddr_in \<times> sys" where
  "so_accept os noise sockfd addr s =
     (let (connfd, out, s) = sys_do os (Sys_accept4 sockfd 16 (SOCK_NONBLOCK + SOCK_CLOEXEC)) s;
          addr = (case out of Out_Addr a \<Rightarrow> a | _ \<Rightarrow> addr)
      in if connfd < 0
         then let savedErrno = sys_errno s;
                  s = print_cerr noise ''Socket::accept'' s;
                  s = (if savedErrno \<in> set expected_errors then s\<lparr>sys_errno := savedErrno\<rparr>
                       else if savedErrno \<in> set unexpected_errors
                       then print_cerr noise (''unexpected error of ::accept '' @ dec_int savedErrno @ [CHR 0x0A]) s
                       else print_cerr noise (''unknown error of ::accept '' @ dec_int savedErrno @ [CHR 0x0A]) s)
              in (connfd, addr, s)
         else (connfd, addr, s))"

definition so_connect :: "kernel \<Rightarrow> int \<Rightarrow> sockaddr_in \<Rightarrow> sys \<Rightarrow> int \<times> sys" where
  "so_connect os sockfd addr s = (let (ret, _, s) = sys_do os (Sys_connect sockfd addr 16) s in (ret, s))"

definition so_close :: "kernel \<Rightarrow> (int \<Rightarrow> int) \<Rightarrow> int \<Rightarrow> sys \<Rightarrow> sys" where
  "so_close os noise sockfd s =
     (let (ret, _, s) = sys_do os (Sys_close sockfd) s in complain noise ''sockets::close'' ret s)"

definition so_shutdownWrite :: "kernel \<Rightarrow> (int \<Rightarrow> int) \<Rightarrow> int \<Rightarrow> sys \<Rightarrow> sys" where
  "so_shutdownWrite os noise sockfd s =
     (let (ret, _, s) = sys_do os (Sys_shutdown sockfd SHUT_WR) s in complain noise ''sockets::shutdownWrite'' ret s)"

definition so_getSocketError :: "kernel \<Rightarrow> int \<Rightarrow> sys \<Rightarrow> int \<times> sys" where
  "so_getSocketError os sockfd s =
     (let (ret, out, s) = sys_do os (Sys_getsockopt sockfd SOL_SOCKET SO_ERROR) s
      in if ret < 0 then (sys_errno s, s) else (case out of Out_Int v \<Rightarrow> v | _ \<Rightarrow> 0, s))"

section \<open>Socket\<close>

definition optval :: "bool \<Rightarrow> int" where
  "optval on = (if on then 1 else 0)"

definition sk_setTcpNoDelay :: "kernel \<Rightarrow> int \<Rightarrow> bool \<Rightarrow> sys \<Rightarrow> sys" where
  "sk_setTcpNoDelay os fd on s =
     (let (_, _, s) = sys_do os (Sys_setsockopt fd IPPROTO_TCP TCP_NODELAY (optval on)) s in s)"

definition setReuseAddr :: "kernel \<Rightarrow> int \<Rightarrow> bool \<Rightarrow> sys \<Rightarrow> sys" where
  "setReuseAddr os fd on s =
     (let (_, _, s) = sys_do os (Sys_setsockopt fd SOL_SOCKET SO_REUSEADDR (optval on)) s in s)"

definition setReusePort :: "kernel \<Rightarrow> (int \<Rightarrow> int) \<Rightarrow> int \<Rightarrow> bool \<Rightarrow> sys \<Rightarrow> sys" where
  "setReusePort os noise fd on s =
     (let (ret, _, s) = sys_do os (Sys_setsockopt fd SOL_SOCKET SO_REUSEPORT (optval on)) s
      in if ret < 0 \<and> on then print_cerr noise ''SO_REUSEPORT failed.'' s else s)"

definition setKeepAlive :: "kernel \<Rightarrow> int \<Rightarrow> bool \<Rightarrow> sys \<Rightarrow> sys" where
  "setKeepAlive os fd on s =
     (let (_, _, s) = sys_do os (Sys_setsockopt fd SOL_SOCKET SO_KEEPALIVE (optval on)) s in s)"

definition bindAddress :: "kernel \<Rightarrow> (int \<Rightarrow> int) \<Rightarrow> int \<Rightarrow> inet_address \<Rightarrow> sys \<Rightarrow> sys" where
  "bindAddress os noise fd addr s = bindOrDie os noise fd addr s"

definition sk_listen :: "kernel \<Rightarrow> (int \<Rightarrow> int) \<Rightarrow> int \<Rightarrow> sys \<Rightarrow> sys" where
  "sk_listen os noise fd s = listenOrDie os noise fd s"

definition sk_accept :: "kernel \<Rightarrow> (int \<Rightarrow> int) \<Rightarrow> int \<Rightarrow> inet_address \<Rightarrow> sys \<Rightarrow> int \<times> inet_address \<times> sys" where
  "sk_accept os noise fd peeraddr s =
     (let (connfd, addr, s) = so_accept os noise fd zero_addr s
      in (connfd, if 0 \<le> connfd then addr else peeraddr, s))"

definition zero_tcp_info :: tcp_info where
  "zero_tcp_info =
     \<lparr>tcpi_retransmits = 0, tcpi_rto = 0, tcpi_ato = 0, tcpi_snd_mss = 0, tcpi_rcv_mss = 0, tcpi_lost = 0,
      tcpi_retrans = 0, tcpi_rtt = 0, tcpi_rttvar = 0, tcpi_snd_ssthresh = 0, tcpi_snd_cwnd = 0, tcpi_total_retrans = 0\<rparr>"

definition getTcpInfo :: "kernel \<Rightarrow> int \<Rightarrow> sys \<Rightarrow> bool \<times> tcp_info \<times> sys" where
  "getTcpInfo os fd s =
     (let (ret, out, s) = sys_do os (Sys_getsockopt fd SOL_TCP TCP_INFO) s
      in (ret = 0, case out of Out_Info i \<Rightarrow> i | _ \<Rightarrow> zero_tcp_info, s))"

definition u32 :: "32 word \<Rightarrow> string" where
  "u32 w = dec_nat (unat w)"

definition tcp_info_text :: "tcp_info \<Rightarrow> string" where
  "tcp_info_text i =
     ''unrecovered='' @ u32 (tcpi_retransmits i) @ '' rto='' @ u32 (tcpi_rto i) @ '' ato='' @ u32 (tcpi_ato i) @
     '' snd_mss='' @ u32 (tcpi_snd_mss i) @ '' rcv_mss='' @ u32 (tcpi_rcv_mss i) @ '' lost='' @ u32 (tcpi_lost i) @
     '' retrans='' @ u32 (tcpi_retrans i) @ '' rtt='' @ u32 (tcpi_rtt i) @ '' rttvar='' @ u32 (tcpi_rttvar i) @
     '' sshthresh='' @ u32 (tcpi_snd_ssthresh i) @ '' cwnd='' @ u32 (tcpi_snd_cwnd i) @
     '' total_retrans='' @ u32 (tcpi_total_retrans i)"

text \<open>\<open>buf\<close> is the string in the array of \<open>len\<close> characters.\<close>

definition getTcpInfoString :: "kernel \<Rightarrow> int \<Rightarrow> string \<Rightarrow> nat \<Rightarrow> sys \<Rightarrow> bool \<times> string \<times> sys" where
  "getTcpInfoString os fd buf len s =
     (let (ok, tcpi, s) = getTcpInfo os fd s
      in (ok, if ok then snprintf len (tcp_info_text tcpi) else buf, s))"

definition tc_getTcpInfoString :: "kernel \<Rightarrow> int \<Rightarrow> sys \<Rightarrow> string \<times> sys" where
  "tc_getTcpInfoString os fd s =
     (let (_, buf, s) = getTcpInfoString os fd [] 1024 s in (buf, s))"

section \<open>The listening socket of the acceptor\<close>

text \<open>What the constructor of \<open>Acceptor\<close> and \<open>listen\<close> do with the socket.\<close>

definition ac_socket :: "kernel \<Rightarrow> (int \<Rightarrow> int) \<Rightarrow> inet_address \<Rightarrow> bool \<Rightarrow> sys \<Rightarrow> int \<times> sys" where
  "ac_socket os noise listenAddr reuseport s =
     (let (fd, s) = so_createNonblockingOrDie os noise (sin_family listenAddr) s;
          s = setReuseAddr os fd True s;
          s = setReusePort os noise fd reuseport s
      in (fd, bindAddress os noise fd listenAddr s))"

text \<open>
  The first part of \<open>Acceptor::handleRead\<close>: the accepted connection, or whether the idle descriptor
  is given up.  \<open>errno\<close> is tested after the acceptor has printed, too.
\<close>

definition ac_accepts :: "kernel \<Rightarrow> (int \<Rightarrow> int) \<Rightarrow> int \<Rightarrow> sys \<Rightarrow> (bool + int \<times> inet_address) \<times> sys" where
  "ac_accepts os noise fd s =
     (let (connfd, peerAddr, s) = sk_accept os noise fd zero_addr s
      in if 0 \<le> connfd then (Inr (connfd, peerAddr), s)
         else let s = print_cerr noise (''in Acceptor::handleRead'' @ [CHR 0x0A]) s
              in (Inl (sys_errno s = EMFILE), s))"


section \<open>What is called and printed\<close>

definition fails :: "kernel \<Rightarrow> sys_call list \<Rightarrow> sys_call \<Rightarrow> bool" where
  "fails os calls call = (case os calls call of Inl _ \<Rightarrow> True | Inr (r, _) \<Rightarrow> r < 0)"

definition says :: "bool \<Rightarrow> string \<Rightarrow> string list" where
  "says b t = (if b then [t] else [])"

lemma print_cerr_simps [simp]:
  "sys_calls (print_cerr noise t s) = sys_calls s" "sys_cerr (print_cerr noise t s) = sys_cerr s @ [t]"
  "sys_errno (print_cerr noise t s) = noise (sys_errno s)"
  by (simp_all add: print_cerr_def)

lemma complain_simps [simp]:
  "sys_calls (complain noise t ret s) = sys_calls s" "sys_cerr (complain noise t ret s) = sys_cerr s @ says (ret < 0) t"
  by (simp_all add: complain_def says_def)

text \<open>One system call, and what becomes of its answer.\<close>

lemma sys_do_split:
  "\<exists>s'. sys_do os call s =
     (case os (sys_calls s) call of Inl _ \<Rightarrow> - 1 | Inr (r, _) \<Rightarrow> r,
      case os (sys_calls s) call of Inl _ \<Rightarrow> No_Out | Inr (_, out) \<Rightarrow> out, s') \<and>
     sys_calls s' = sys_calls s @ [call] \<and> sys_cerr s' = sys_cerr s \<and>
     sys_errno s' = (case os (sys_calls s) call of Inl e \<Rightarrow> e | Inr _ \<Rightarrow> sys_errno s) \<and>
     ((case os (sys_calls s) call of Inl _ \<Rightarrow> - 1 | Inr (r, _) \<Rightarrow> r) < 0 \<longleftrightarrow> fails os (sys_calls s) call)"
  by (auto simp: sys_do_def fails_def split: sum.split)

lemma sys_doE:
  obtains r out s' where "sys_do os call s = (r, out, s')" "sys_calls s' = sys_calls s @ [call]" "sys_cerr s' = sys_cerr s"
    "r < 0 \<longleftrightarrow> fails os (sys_calls s) call"
  using sys_do_split [of os call s] by blast

lemma one_call:
  "sys_calls (bindOrDie os noise fd addr s) = sys_calls s @ [Sys_bind fd addr 16]"
  "sys_cerr (bindOrDie os noise fd addr s) = sys_cerr s @ says (fails os (sys_calls s) (Sys_bind fd addr 16)) ''sockets::bindOrDie''"
  "sys_calls (listenOrDie os noise fd s) = sys_calls s @ [Sys_listen fd SOMAXCONN]"
  "sys_cerr (listenOrDie os noise fd s) = sys_cerr s @ says (fails os (sys_calls s) (Sys_listen fd SOMAXCONN)) ''sockets::listenOrDie''"
  "sys_calls (so_close os noise fd s) = sys_calls s @ [Sys_close fd]"
  "sys_cerr (so_close os noise fd s) = sys_cerr s @ says (fails os (sys_calls s) (Sys_close fd)) ''sockets::close''"
  "sys_calls (so_shutdownWrite os noise fd s) = sys_calls s @ [Sys_shutdown fd SHUT_WR]"
  "sys_cerr (so_shutdownWrite os noise fd s) = sys_cerr s @ says (fails os (sys_calls s) (Sys_shutdown fd SHUT_WR)) ''sockets::shutdownWrite''"
  subgoal by (rule sys_doE [of os "Sys_bind fd addr 16" s]) (simp add: bindOrDie_def)
  subgoal by (rule sys_doE [of os "Sys_bind fd addr 16" s]) (simp add: bindOrDie_def)
  subgoal by (rule sys_doE [of os "Sys_listen fd SOMAXCONN" s]) (simp add: listenOrDie_def)
  subgoal by (rule sys_doE [of os "Sys_listen fd SOMAXCONN" s]) (simp add: listenOrDie_def)
  subgoal by (rule sys_doE [of os "Sys_close fd" s]) (simp add: so_close_def)
  subgoal by (rule sys_doE [of os "Sys_close fd" s]) (simp add: so_close_def)
  subgoal by (rule sys_doE [of os "Sys_shutdown fd SHUT_WR" s]) (simp add: so_shutdownWrite_def)
  subgoal by (rule sys_doE [of os "Sys_shutdown fd SHUT_WR" s]) (simp add: so_shutdownWrite_def)
  done

lemma set_option:
  "sys_calls (setReuseAddr os fd on s) = sys_calls s @ [Sys_setsockopt fd SOL_SOCKET SO_REUSEADDR (optval on)]"
  "sys_cerr (setReuseAddr os fd on s) = sys_cerr s"
  "sys_calls (setReusePort os noise fd on s) = sys_calls s @ [Sys_setsockopt fd SOL_SOCKET SO_REUSEPORT (optval on)]"
  "sys_cerr (setReusePort os noise fd on s) = sys_cerr s @
     says (on \<and> fails os (sys_calls s) (Sys_setsockopt fd SOL_SOCKET SO_REUSEPORT (optval on))) ''SO_REUSEPORT failed.''"
  subgoal by (rule sys_doE [of os "Sys_setsockopt fd SOL_SOCKET SO_REUSEADDR (optval on)" s]) (simp add: setReuseAddr_def)
  subgoal by (rule sys_doE [of os "Sys_setsockopt fd SOL_SOCKET SO_REUSEADDR (optval on)" s]) (simp add: setReuseAddr_def)
  subgoal by (rule sys_doE [of os "Sys_setsockopt fd SOL_SOCKET SO_REUSEPORT (optval on)" s]) (simp add: setReusePort_def)
  subgoal by (rule sys_doE [of os "Sys_setsockopt fd SOL_SOCKET SO_REUSEPORT (optval on)" s]) (auto simp: setReusePort_def says_def)
  done


text \<open>
  The options are set before the address is bound, and the socket listens last.  Nothing of it depends
  on the answers: a failure is printed, and the next call is made all the same, on the descriptor -1
  when there is no socket.
\<close>

lemma listening_socket:
  assumes run: "ac_socket os noise addr reuseport s = (fd, s1)"
  defines "c1 \<equiv> Sys_socket (sin_family addr) (SOCK_STREAM + SOCK_NONBLOCK + SOCK_CLOEXEC) IPPROTO_TCP"
    and "c2 \<equiv> Sys_setsockopt fd SOL_SOCKET SO_REUSEADDR 1"
    and "c3 \<equiv> Sys_setsockopt fd SOL_SOCKET SO_REUSEPORT (optval reuseport)"
    and "c4 \<equiv> Sys_bind fd addr 16"
    and "c5 \<equiv> Sys_listen fd SOMAXCONN"
    and "old \<equiv> sys_calls s"
  shows "sys_calls (sk_listen os noise fd s1) = old @ [c1, c2, c3, c4, c5] \<and>
    fd = (case os old c1 of Inl _ \<Rightarrow> - 1 | Inr (r, _) \<Rightarrow> r) \<and>
    sys_cerr (sk_listen os noise fd s1) = sys_cerr s @
      says (fails os old c1) ''sockets::createNonblockingOrDie'' @
      says (reuseport \<and> fails os (old @ [c1, c2]) c3) ''SO_REUSEPORT failed.'' @
      says (fails os (old @ [c1, c2, c3]) c4) ''sockets::bindOrDie'' @
      says (fails os (old @ [c1, c2, c3, c4]) c5) ''sockets::listenOrDie''"
proof -
  obtain s0 where s0: "so_createNonblockingOrDie os noise (sin_family addr) s = (fd, s0)"
      "s1 = bindAddress os noise fd addr (setReusePort os noise fd reuseport (setReuseAddr os fd True s0))"
    using run by (auto simp: ac_socket_def Let_def split: prod.splits)
  obtain r out s' where c1: "sys_do os c1 s = (r, out, s')" "sys_calls s' = sys_calls s @ [c1]" "sys_cerr s' = sys_cerr s"
      "r < 0 \<longleftrightarrow> fails os (sys_calls s) c1" "r = (case os old c1 of Inl _ \<Rightarrow> - 1 | Inr (r, _) \<Rightarrow> r)"
    using sys_do_split [of os c1 s] unfolding old_def by blast
  have "fd = r" "sys_calls s0 = old @ [c1]" "sys_cerr s0 = sys_cerr s @ says (fails os old c1) ''sockets::createNonblockingOrDie''"
    using s0(1) c1 by (auto simp: so_createNonblockingOrDie_def old_def c1_def)
  then show ?thesis
    unfolding s0(2) sk_listen_def bindAddress_def
    by (simp add: one_call set_option c1(5) c2_def c3_def c4_def c5_def optval_def)
qed

section \<open>The text of TCP_INFO\<close>

lemma length_u32: "length (u32 w) \<le> 10"
  unfolding u32_def by (rule length_dec_nat_le) (use unsigned_less [of w, where ?'a = nat] in simp_all)

text \<open>A printed number ends at the blank that follows it.\<close>

lemma blank_no_digit: "\<not> is_digit CHR '' ''"
  by (simp add: is_digit_def)

lemma u32_blank: "u32 v @ CHR '' '' # s = u32 w @ CHR '' '' # t \<longleftrightarrow> v = w \<and> s = t"
proof
  assume eq: "u32 v @ CHR '' '' # s = u32 w @ CHR '' '' # t"
  have "dec_nat (unat v) = dec_nat (unat w)"
    using arg_cong [OF eq, of "takeWhile is_digit"] by (simp add: u32_def takeWhile_digits blank_no_digit)
  then have "v = w" by (simp add: unsigned_word_eqI)
  then show "v = w \<and> s = t" using eq by simp
qed simp

text \<open>The array of 1024 characters holds every such text, and the text tells every field.\<close>

lemma tcp_info_whole: "length (tcp_info_text i) < 1024"
proof -
  note u = length_u32 [of "tcpi_retransmits i"] length_u32 [of "tcpi_rto i"] length_u32 [of "tcpi_ato i"]
    length_u32 [of "tcpi_snd_mss i"] length_u32 [of "tcpi_rcv_mss i"] length_u32 [of "tcpi_lost i"]
    length_u32 [of "tcpi_retrans i"] length_u32 [of "tcpi_rtt i"] length_u32 [of "tcpi_rttvar i"]
    length_u32 [of "tcpi_snd_ssthresh i"] length_u32 [of "tcpi_snd_cwnd i"] length_u32 [of "tcpi_total_retrans i"]
  show ?thesis unfolding tcp_info_text_def by (simp, use u in linarith)
qed

lemma tcp_info_text_inject:
  assumes "tcp_info_text i = tcp_info_text j"
  shows "i = j"
proof -
  have last: "u32 v = u32 w \<longleftrightarrow> v = w" for v w by (auto simp: u32_def intro: unsigned_word_eqI)
  show ?thesis using assms unfolding tcp_info_text_def by (cases i; cases j) (simp add: u32_blank last)
qed

text \<open>\<open>TcpConnection::getTcpInfoString\<close> is the whole text, or empty when the kernel gives no information.\<close>

lemma tcp_info_string:
  "fst (tc_getTcpInfoString os fd s) =
     (case os (sys_calls s) (Sys_getsockopt fd SOL_TCP TCP_INFO) of
        Inl _ \<Rightarrow> []
      | Inr (r, out) \<Rightarrow>
          if r = 0 then tcp_info_text (case out of Out_Info i \<Rightarrow> i | _ \<Rightarrow> zero_tcp_info) else [])"
  by (simp add: tc_getTcpInfoString_def getTcpInfoString_def getTcpInfo_def sys_do_def tcp_info_whole Let_def
      split: sum.split prod.split)

section \<open>Properties\<close>

text \<open>C40: what a failed \<open>accept\<close> means to the acceptor.  \<open>sockets::accept\<close> makes one system call, and
  after each of the errors it expects \<open>errno\<close> is the kernel's, whatever printing did to it.  But the
  acceptor prints once more before it looks: it gives its idle descriptor up for \<open>EMFILE\<close>, and for no
  other of these errors, when printing leaves \<open>errno\<close> alone; when printing changes it (as when the
  standard error is closed), a full descriptor table goes unnoticed.\<close>

theorem accept_errno:
  assumes e: "os (sys_calls s) (Sys_accept4 fd 16 (SOCK_NONBLOCK + SOCK_CLOEXEC)) = Inl e" "e \<in> set expected_errors"
  shows "\<exists>s1 drain s2. sk_accept os noise fd zero_addr s = (- 1, zero_addr, s1) \<and> sys_errno s1 = e \<and>
    ac_accepts os noise fd s = (Inl drain, s2) \<and>
    sys_calls s2 = sys_calls s @ [Sys_accept4 fd 16 (SOCK_NONBLOCK + SOCK_CLOEXEC)] \<and>
    (noise e = e \<longrightarrow> (drain \<longleftrightarrow> e = EMFILE)) \<and>
    (noise e \<noteq> EMFILE \<longrightarrow> \<not> drain)"
  using e by (simp add: sk_accept_def so_accept_def ac_accepts_def sys_do_def Let_def)

definition sample_sys :: sys where
  "sample_sys = \<lparr>sys_errno = 0, sys_cerr = [], sys_calls = []\<rparr>"

theorem accept_errno_witness:
  "fst (ac_accepts (\<lambda>_ _. Inl EMFILE) id 5 sample_sys) = Inl True \<and>
   fst (ac_accepts (\<lambda>_ _. Inl EMFILE) (\<lambda>_. 9) 5 sample_sys) = Inl False"
proof -
  have e: "EMFILE \<in> set expected_errors" by (simp add: expected_errors_def)
  note r = accept_errno [OF refl e, where s = sample_sys and fd = 5]
  show ?thesis using r [where noise = id] r [where noise = "\<lambda>_. 9"] by (auto simp: EMFILE_def)
qed

end
