(* ===== verification/Server.thy ===== *)
theory Server
  imports EventLoop Sockets LoopPool "HOL-Library.List_Lexorder" "HOL-Library.Char_ord"
begin

text \<open>
  \<open>net/Acceptor.cc\<close> and \<open>net/TcpServer.cc\<close>, with their headers.  The acceptor extends the loop it
  runs in by its members, the kernel's answers to come, and the descriptors it is answerable for.
  The server extends the acceptor; its connections are numbered in the order of their creation,
  and what it asks other loops to run is a list of requests.
\<close>

section \<open>The acceptor\<close>

record 'f acceptor = "'f loop" +
  ac_fd :: int
  acceptChannel :: cid
  ac_callback :: bool
  listenning :: bool
  idleFd :: int
  ac_open :: "int set"
  accept_answers :: "(int + int \<times> sockaddr_in) list"   \<comment> \<open>\<open>Inl\<close> the error number\<close>
  open_answers :: "int list"
  ac_noise :: "int \<Rightarrow> int"   \<comment> \<open>what writing to \<open>cerr\<close> makes of \<open>errno\<close>\<close>

definition AC_EAGAIN :: int where "AC_EAGAIN = 11"

definition ac_close :: "int \<Rightarrow> ('f, 'm) acceptor_scheme \<Rightarrow> ('f, 'm) acceptor_scheme" where
  "ac_close fd s = s\<lparr>ac_open := ac_open s - {fd}\<rparr>"

definition sys_accept :: "('f, 'm) acceptor_scheme \<Rightarrow> (int + int \<times> sockaddr_in) \<times> ('f, 'm) acceptor_scheme" where
  "sys_accept s =
     (case accept_answers s of
        [] \<Rightarrow> (Inl AC_EAGAIN, s)
      | Inl e # answers \<Rightarrow> (Inl e, s\<lparr>accept_answers := answers\<rparr>)
      | Inr (fd, peer) # answers \<Rightarrow>
          (Inr (fd, peer), s\<lparr>accept_answers := answers, ac_open := insert fd (ac_open s)\<rparr>))"

text \<open>
  \<open>sockets::accept\<close> prints after an error and restores \<open>errno\<close> for the errors it expects; \<open>Inl\<close> is
  the \<open>errno\<close> it leaves (theory \<open>Sockets\<close> has the calls and the texts).
\<close>

definition errno_after_accept :: "(int \<Rightarrow> int) \<Rightarrow> int \<Rightarrow> int" where
  "errno_after_accept noise e = (if e \<in> set expected_errors then e else noise (noise e))"

definition accept_connection :: "('f, 'm) acceptor_scheme \<Rightarrow> (int + int \<times> sockaddr_in) \<times> ('f, 'm) acceptor_scheme" where
  "accept_connection s =
     (let (answer, s) = sys_accept s in (map_sum (errno_after_accept (ac_noise s)) id answer, s))"

text \<open>\<open>open("/dev/null")\<close>, whose answer may be -1.\<close>

definition open_null :: "('f, 'm) acceptor_scheme \<Rightarrow> int \<times> ('f, 'm) acceptor_scheme" where
  "open_null s =
     (case open_answers s of
        [] \<Rightarrow> (- 1, s)
      | fd # fds \<Rightarrow>
          let s = s\<lparr>open_answers := fds\<rparr>
          in if fd < 0 then (- 1, s) else (fd, s\<lparr>ac_open := insert fd (ac_open s)\<rparr>))"

definition new_Acceptor :: "cid \<Rightarrow> int \<Rightarrow> 'f \<Rightarrow> ('f, 'm) acceptor_scheme \<Rightarrow> ('f, 'm) acceptor_scheme res" where
  "new_Acceptor c sockfd read_cb s =
     (let s = create_Channel c sockfd (s\<lparr>ac_fd := sockfd, ac_open := (if sockfd < 0 then {} else {sockfd}),
                acceptChannel := c, ac_callback := False, listenning := False\<rparr>);
          (fd, s) = open_null s;
          s = s\<lparr>idleFd := fd\<rparr>
      in ensure ''Acceptor: idleFd_'' (0 \<le> idleFd s) (upd_chan c (setReadCallback (Some read_cb)) s))"

definition ac_setNewConnectionCallback :: "('f, 'm) acceptor_scheme \<Rightarrow> ('f, 'm) acceptor_scheme" where
  "ac_setNewConnectionCallback s = s\<lparr>ac_callback := True\<rparr>"

definition ac_listen :: "('f, 'm) acceptor_scheme \<Rightarrow> ('f, 'm) acceptor_scheme res" where
  "ac_listen s = (let s = s\<lparr>listenning := True\<rparr> in enableReading (acceptChannel s) s)"

definition delete_Acceptor :: "nat \<Rightarrow> ('f, 'm) acceptor_scheme \<Rightarrow> ('f, 'm) acceptor_scheme res" where
  "delete_Acceptor self s =
     bindr (disableAll (acceptChannel s) s) (\<lambda>s.
     bindr (ch_remove (acceptChannel s) s) (\<lambda>s.
     bindr (delete_Channel self (acceptChannel s) (ac_close (idleFd s) s)) (\<lambda>s.
     Inr (ac_close (ac_fd s) s))))"

text \<open>
  With no descriptor left the idle one is given up to accept the waiting connection and close it,
  and taken again.  \<open>handleRead\<close> prints before it looks at \<open>errno\<close>.  \<open>new_connection\<close> is the callback;
  the socket is then its user's.
\<close>

definition drain_one :: "('f, 'm) acceptor_scheme \<Rightarrow> ('f, 'm) acceptor_scheme" where
  "drain_one s =
     (let s = ac_close (idleFd s) s;
          (answer, s) = sys_accept s;
          s = s\<lparr>idleFd := (case answer of Inl _ \<Rightarrow> - 1 | Inr (fd, _) \<Rightarrow> fd)\<rparr>;
          s = ac_close (idleFd s) s;
          (fd, s) = open_null s
      in s\<lparr>idleFd := fd\<rparr>)"

definition ac_handleRead ::
  "(int \<Rightarrow> sockaddr_in \<Rightarrow> ('f, 'm) acceptor_scheme \<Rightarrow> ('f, 'm) acceptor_scheme res) \<Rightarrow>
   ('f, 'm) acceptor_scheme \<Rightarrow> ('f, 'm) acceptor_scheme res" where
  "ac_handleRead new_connection s =
     (case accept_connection s of
        (Inr (connfd, peerAddr), s) \<Rightarrow>
          if ac_callback s then new_connection connfd peerAddr (s\<lparr>ac_open := ac_open s - {connfd}\<rparr>)
          else Inr (ac_close connfd s)
      | (Inl e, s) \<Rightarrow>
          let errno = ac_noise s e in Inr (if errno = EMFILE then drain_one s else s))"

section \<open>The server\<close>

datatype sv_task = Sv_Established nat | Sv_Destroyed nat

record conn_info =
  ci_name :: string
  ci_loop :: nat
  ci_fd :: int

record 'f server = "'f acceptor" +
  sv_ipPort :: string
  sv_name :: string
  sv_pool :: "'f loop_pool"
  sv_started :: nat
  nextConnId :: int
  connections :: "string \<Rightarrow> nat option"
  sv_conns :: "conn_info list"             \<comment> \<open>every connection made, in order\<close>
  sv_posted :: "(nat \<times> sv_task) list"       \<comment> \<open>handed to a loop with \<open>runInLoop\<close> or \<open>queueInLoop\<close>\<close>
  sv_removing :: "nat list"                \<comment> \<open>\<open>removeConnectionInLoop\<close>, handed to the server's loop\<close>

definition new_TcpServer ::
  "endianness \<Rightarrow> sockaddr_in \<Rightarrow> string \<Rightarrow> cid \<Rightarrow> int \<Rightarrow> 'f \<Rightarrow> 'f server \<Rightarrow> 'f server res" where
  "new_TcpServer e listenAddr nameArg c sockfd read_cb s =
     bindr (ia_toIpPort e listenAddr) (\<lambda>ipPort.
     bindr (new_Acceptor c sockfd read_cb s) (\<lambda>s.
     Inr (ac_setNewConnectionCallback (s\<lparr>sv_ipPort := ipPort, sv_name := nameArg,
       sv_pool := new_EventLoopThreadPool (loop_id s) nameArg, nextConnId := 1, connections := Map.empty,
       sv_conns := [], sv_posted := [], sv_removing := []\<rparr>))))"

definition sv_setThreadNum :: "int \<Rightarrow> 'f server \<Rightarrow> 'f server res" where
  "sv_setThreadNum n s = ensure ''setThreadNum'' (0 \<le> n) (Inr (s\<lparr>sv_pool := elp_setThreadNum n (sv_pool s)\<rparr>))"

text \<open>The server starts in the thread of its loop, where \<open>runInLoop\<close> is a call.\<close>

definition sv_start :: "'f option \<Rightarrow> (nat \<Rightarrow> nat) \<Rightarrow> 'f server \<Rightarrow> 'f server res" where
  "sv_start cb l s =
     (if sv_started s = 0
      then let s = s\<lparr>sv_started := 1\<rparr>
           in bindr (elp_start cb l (sv_pool s)) (\<lambda>pool.
              ensure ''start: !listenning'' (\<not> listenning s) (ac_listen (s\<lparr>sv_pool := pool\<rparr>)))
      else Inr (s\<lparr>sv_started := 1\<rparr>))"

definition conn_name :: "'f server \<Rightarrow> int \<Rightarrow> string" where
  "conn_name s k = sv_name s @ snprintf 64 (''-'' @ sv_ipPort s @ ''#'' @ dec_int k)"

definition newConnection :: "int \<Rightarrow> sockaddr_in \<Rightarrow> 'f server \<Rightarrow> 'f server res" where
  "newConnection sockfd peerAddr s =
     bindr (getNextLoop (sv_pool s)) (\<lambda>(ioLoop, pool).
       let connName = conn_name s (nextConnId s);
           conn = length (sv_conns s)
       in Inr (s\<lparr>sv_pool := pool, nextConnId := to_int32 (nextConnId s + 1),
            sv_conns := sv_conns s @ [\<lparr>ci_name = connName, ci_loop = ioLoop, ci_fd = sockfd\<rparr>],
            connections := (connections s)(connName \<mapsto> conn),
            sv_posted := sv_posted s @ [(ioLoop, Sv_Established conn)]\<rparr>))"

definition sv_removeConnection :: "nat \<Rightarrow> 'f server \<Rightarrow> 'f server" where
  "sv_removeConnection c s = s\<lparr>sv_removing := sv_removing s @ [c]\<rparr>"

definition removeConnectionInLoop :: "nat \<Rightarrow> 'f server \<Rightarrow> 'f server res" where
  "removeConnectionInLoop c s =
     (let info = sv_conns s ! c
      in ensure ''removeConnectionInLoop: n == 1'' (connections s (ci_name info) \<noteq> None)
           (Inr (s\<lparr>connections := (connections s)(ci_name info := None),
              sv_posted := sv_posted s @ [(ci_loop info, Sv_Destroyed c)]\<rparr>)))"

text \<open>The destructor goes through the map in the order of the names.\<close>

definition delete_TcpServer :: "nat \<Rightarrow> 'f server \<Rightarrow> 'f server res" where
  "delete_TcpServer self s =
     (let cs = map (\<lambda>k. the (connections s k)) (sorted_list_of_set (dom (connections s)));
          s = s\<lparr>sv_posted := sv_posted s @ map (\<lambda>c. (ci_loop (sv_conns s ! c), Sv_Destroyed c)) cs,
                connections := Map.empty\<rparr>
      in delete_Acceptor self s)"

section \<open>The map of connections\<close>

fun sv_conn :: "nat \<times> sv_task \<Rightarrow> nat" where
  "sv_conn (l, Sv_Established c) = c"
| "sv_conn (l, Sv_Destroyed c) = c"

text \<open>What loops were asked to do with connection \<open>c\<close>.\<close>

definition about :: "nat \<Rightarrow> 'f server \<Rightarrow> (nat \<times> sv_task) list" where
  "about c s = filter (\<lambda>p. sv_conn p = c) (sv_posted s)"

definition sv_live :: "nat \<Rightarrow> 'f server \<Rightarrow> bool" where
  "sv_live c s \<longleftrightarrow> c < length (sv_conns s) \<and> connections s (ci_name (sv_conns s ! c)) = Some c"

text \<open>
  The connections have the names of their numbers; those in the map are there under their own
  names, and were told to start; those no longer there were told to stop, too.
\<close>

definition sv_ok :: "'f server \<Rightarrow> bool" where
  "sv_ok s \<longleftrightarrow> pool_ok (sv_pool s) \<and> length (sv_ipPort s) \<le> 21 \<and> nextConnId s = int (length (sv_conns s)) + 1 \<and>
     length (sv_conns s) < 2147483647 \<and>
     (\<forall>c < length (sv_conns s). ci_name (sv_conns s ! c) = conn_name s (int c + 1)) \<and>
     (\<forall>n c. connections s n = Some c \<longrightarrow> c < length (sv_conns s) \<and> ci_name (sv_conns s ! c) = n) \<and>
     (\<forall>c < length (sv_conns s). about c s = (ci_loop (sv_conns s ! c), Sv_Established c) #
        (if sv_live c s then [] else [(ci_loop (sv_conns s ! c), Sv_Destroyed c)])) \<and>
     (\<forall>p \<in> set (sv_posted s). sv_conn p < length (sv_conns s)) \<and>
     distinct (sv_removing s) \<and> (\<forall>c \<in> set (sv_removing s). sv_live c s)"

lemma sv_okD:
  assumes "sv_ok s"
  shows "pool_ok (sv_pool s)" "length (sv_ipPort s) \<le> 21" "nextConnId s = int (length (sv_conns s)) + 1"
    "length (sv_conns s) < 2147483647"
    "c < length (sv_conns s) \<Longrightarrow> ci_name (sv_conns s ! c) = conn_name s (int c + 1)"
    "connections s n = Some c \<Longrightarrow> c < length (sv_conns s) \<and> ci_name (sv_conns s ! c) = n"
    "c < length (sv_conns s) \<Longrightarrow> about c s = (ci_loop (sv_conns s ! c), Sv_Established c) #
        (if sv_live c s then [] else [(ci_loop (sv_conns s ! c), Sv_Destroyed c)])"
    "p \<in> set (sv_posted s) \<Longrightarrow> sv_conn p < length (sv_conns s)"
    "distinct (sv_removing s)" "c \<in> set (sv_removing s) \<Longrightarrow> sv_live c s"
  using assms unfolding sv_ok_def by blast+

lemma conn_name_inject:
  assumes "length (sv_ipPort s) \<le> 21" "0 \<le> j" "j < 2147483648" "0 \<le> k" "k < 2147483648" "conn_name s j = conn_name s k"
  shows "j = k"
proof -
  have l: "length (dec_nat (nat i)) \<le> 10" if "0 \<le> i" "i < 2147483648" for i :: int
    using that by (intro length_dec_nat_le) (simp_all add: nat_less_iff)
  have "conn_name s i = sv_name s @ ''-'' @ sv_ipPort s @ ''#'' @ dec_nat (nat i)" if "0 \<le> i" "i < 2147483648" for i
    using l [OF that] assms(1) that by (simp add: conn_name_def dec_int_def)
  then have "dec_nat (nat j) = dec_nat (nat k)" using assms by simp
  then show ?thesis using assms by simp
qed

lemma newConnection_ok:
  assumes ok: "sv_ok s" and n: "length (sv_conns s) < 2147483646"
  shows "\<exists>s'. newConnection fd peer s = Inr s' \<and> sv_ok s'"
proof -
  let ?c = "length (sv_conns s)" and ?name = "conn_name s (nextConnId s)"
  note D = sv_okD [OF ok]
  obtain l pool where pool: "getNextLoop (sv_pool s) = Inr (l, pool)" "pool_ok pool"
    using getNextLoop_eq [OF D(1)] by blast
  define s' where "s' = s\<lparr>sv_pool := pool, nextConnId := to_int32 (nextConnId s + 1),
    sv_conns := sv_conns s @ [\<lparr>ci_name = ?name, ci_loop = l, ci_fd = fd\<rparr>],
    connections := (connections s)(?name \<mapsto> ?c), sv_posted := sv_posted s @ [(l, Sv_Established ?c)]\<rparr>"
  have run: "newConnection fd peer s = Inr s'" using pool(1) by (simp add: newConnection_def s'_def Let_def)
  have names: "conn_name s' k = conn_name s k" for k by (simp add: conn_name_def s'_def)
  have other: "ci_name (sv_conns s ! c) \<noteq> ?name" if "c < ?c" for c
  proof
    assume "ci_name (sv_conns s ! c) = ?name"
    then have "int c + 1 = int ?c + 1"
      using D(5) [OF that] D(3) that n by (intro conn_name_inject [OF D(2)]) simp_all
    then show False using that by simp
  qed
  have nth: "sv_conns s' ! c = sv_conns s ! c" if "c < ?c" for c using that by (simp add: s'_def nth_append)
  have live: "sv_live c s' = sv_live c s" if "c < ?c" for c
    using that other [OF that] by (simp add: sv_live_def s'_def nth_append)
  have new: "sv_live ?c s'" by (simp add: sv_live_def s'_def)
  have "about ?c s = []" using D(8) by (fastforce simp: about_def filter_empty_conv)
  then have ab: "about c s' = (if c = ?c then [(l, Sv_Established ?c)] else about c s)" for c
    by (simp add: about_def s'_def)
  have "sv_ok s'"
    unfolding sv_ok_def
  proof (intro conjI allI impI ballI)
    show "nextConnId s' = int (length (sv_conns s')) + 1" using D(3) n by (simp add: s'_def)
    show "ci_name (sv_conns s' ! c) = conn_name s' (int c + 1)" if "c < length (sv_conns s')" for c
      using that D(3,5) nth by (cases "c = ?c") (simp_all add: names, simp_all add: s'_def)
    show "c < length (sv_conns s')" "ci_name (sv_conns s' ! c) = k" if "connections s' k = Some c" for k c
      using that D(6) [of k c] by (auto simp: s'_def nth_append split: if_splits)
    show "about c s' = (ci_loop (sv_conns s' ! c), Sv_Established c) #
        (if sv_live c s' then [] else [(ci_loop (sv_conns s' ! c), Sv_Destroyed c)])" if "c < length (sv_conns s')" for c
    proof (cases "c = ?c")
      case True
      then show ?thesis using new by (simp add: ab) (simp add: s'_def)
    next
      case False
      then have c: "c < ?c" using that by (simp add: s'_def)
      show ?thesis using D(7) [OF c] nth [OF c] live [OF c] False by (simp add: ab)
    qed
    show "sv_conn p < length (sv_conns s')" if "p \<in> set (sv_posted s')" for p
      using that D(8) [of p] by (auto simp: s'_def)
    show "sv_live c s'" if "c \<in> set (sv_removing s')" for c
    proof -
      have "sv_live c s" using D(10) that by (simp add: s'_def)
      then show ?thesis using live [of c] by (simp add: sv_live_def)
    qed
  qed (use D n pool(2) in \<open>simp_all add: s'_def\<close>)
  then show ?thesis using run by blast
qed

lemma removeConnectionInLoop_ok:
  assumes ok: "sv_ok s" and rem: "sv_removing s = c # cs"
  shows "\<exists>s'. removeConnectionInLoop c (s\<lparr>sv_removing := cs\<rparr>) = Inr s' \<and> sv_ok s'"
proof -
  note D = sv_okD [OF ok]
  have c: "sv_live c s" "c \<notin> set cs" "distinct cs" using D(9,10) rem by simp_all
  then have c': "c < length (sv_conns s)" "connections s (ci_name (sv_conns s ! c)) = Some c" by (simp_all add: sv_live_def)
  define s' where "s' = s\<lparr>sv_removing := cs, connections := (connections s)(ci_name (sv_conns s ! c) := None),
    sv_posted := sv_posted s @ [(ci_loop (sv_conns s ! c), Sv_Destroyed c)]\<rparr>"
  have run: "removeConnectionInLoop c (s\<lparr>sv_removing := cs\<rparr>) = Inr s'"
    using c' by (simp add: removeConnectionInLoop_def s'_def Let_def)
  have other: "ci_name (sv_conns s ! d) \<noteq> ci_name (sv_conns s ! c)" if "d < length (sv_conns s)" "d \<noteq> c" for d
  proof
    assume "ci_name (sv_conns s ! d) = ci_name (sv_conns s ! c)"
    then have "int d + 1 = int c + 1"
      using D(5) that c'(1) D(4) by (intro conn_name_inject [OF D(2)]) simp_all
    then show False using that by simp
  qed
  have live: "sv_live d s' = (d \<noteq> c \<and> sv_live d s)" for d
    using other [of d] by (cases "d = c") (auto simp: sv_live_def s'_def)
  have ab: "about d s' = about d s @ (if d = c then [(ci_loop (sv_conns s ! c), Sv_Destroyed c)] else [])" for d
    by (simp add: about_def s'_def)
  have same: "sv_conns s' = sv_conns s" by (simp add: s'_def)
  have "sv_ok s'"
    unfolding sv_ok_def
  proof (intro conjI allI impI ballI)
    show "ci_name (sv_conns s' ! d) = conn_name s' (int d + 1)" if "d < length (sv_conns s')" for d
      using D(5) that by (simp add: s'_def conn_name_def)
    show "d < length (sv_conns s')" "ci_name (sv_conns s' ! d) = k" if "connections s' k = Some d" for k d
      using that D(6) [of k d] by (auto simp: s'_def split: if_splits)
    show "about d s' = (ci_loop (sv_conns s' ! d), Sv_Established d) #
        (if sv_live d s' then [] else [(ci_loop (sv_conns s' ! d), Sv_Destroyed d)])" if "d < length (sv_conns s')" for d
      using D(7) [of d] that c(1) by (simp add: ab live same)
    show "sv_conn p < length (sv_conns s')" if "p \<in> set (sv_posted s')" for p
      using that D(8) [of p] c' by (auto simp: s'_def)
    show "sv_live d s'" if "d \<in> set (sv_removing s')" for d
      using that D(10) [of d] rem c by (auto simp: live, auto simp: s'_def)
  qed (use D c in \<open>simp_all add: s'_def\<close>)
  then show ?thesis using run by blast
qed

section \<open>Runs of the server\<close>

datatype sv_event =
    Sv_Readable         \<comment> \<open>the listening socket is readable\<close>
  | Sv_Close nat        \<comment> \<open>the close callback of a connection\<close>
  | Sv_Run_Removal      \<comment> \<open>the server's loop runs the next \<open>removeConnectionInLoop\<close>\<close>

fun sv_step :: "sv_event \<Rightarrow> 'f server \<Rightarrow> 'f server res" where
  "sv_step Sv_Readable s = ac_handleRead newConnection s"
| "sv_step (Sv_Close c) s = Inr (sv_removeConnection c s)"
| "sv_step Sv_Run_Removal s =
     (case sv_removing s of [] \<Rightarrow> Inr s | c # cs \<Rightarrow> removeConnectionInLoop c (s\<lparr>sv_removing := cs\<rparr>))"

text \<open>
  A connection calls its close callback once (theorem \<open>callback_protocol\<close> of \<open>ConnectionRuns\<close>),
  and fewer than 2 to the 31 connections are made in the life of the server.
\<close>

fun sv_admissible :: "sv_event \<Rightarrow> 'f server \<Rightarrow> bool" where
  "sv_admissible Sv_Readable s \<longleftrightarrow> length (sv_conns s) < 2147483646"
| "sv_admissible (Sv_Close c) s \<longleftrightarrow> sv_live c s \<and> c \<notin> set (sv_removing s)"
| "sv_admissible Sv_Run_Removal s \<longleftrightarrow> True"

definition sv_guarded :: "sv_event \<Rightarrow> 'f server \<Rightarrow> 'f server res" where
  "sv_guarded ev s = (if sv_admissible ev s then sv_step ev s else Inr s)"

lemma sv_ok_frame [simp]:
  "sv_ok (s\<lparr>accept_answers := x1\<rparr>) = sv_ok s" "sv_ok (s\<lparr>ac_open := x2\<rparr>) = sv_ok s"
  "sv_ok (s\<lparr>idleFd := x3\<rparr>) = sv_ok s" "sv_ok (s\<lparr>open_answers := x4\<rparr>) = sv_ok s"
  by (simp_all add: sv_ok_def sv_live_def about_def conn_name_def)

lemma sys_accept_ok:
  assumes "sv_ok s"
  shows "sv_ok (snd (sys_accept s)) \<and> sv_conns (snd (sys_accept s)) = sv_conns s"
  using assms by (auto simp: sys_accept_def split: list.split sum.split)

lemma drain_one_ok: "sv_ok s \<Longrightarrow> sv_ok (drain_one s)"
proof -
  assume "sv_ok s"
  then have "sv_ok (snd (sys_accept (ac_close (idleFd s) s)))" using sys_accept_ok [of "ac_close (idleFd s) s"] by (simp add: ac_close_def)
  moreover have "sv_ok t \<Longrightarrow> sv_ok (snd (open_null t))" for t :: "'a server"
    by (auto simp: open_null_def Let_def split: list.split)
  ultimately show ?thesis by (simp add: drain_one_def Let_def split_beta ac_close_def)
qed

lemma sv_readable_ok:
  assumes ok: "sv_ok s" and n: "length (sv_conns s) < 2147483646"
  shows "\<exists>s'. ac_handleRead newConnection s = Inr s' \<and> sv_ok s'"
proof -
  obtain a s1 where a: "accept_connection s = (a, s1)" by (cases "accept_connection s")
  then have s1: "sv_ok s1" "length (sv_conns s1) < 2147483646"
    using sys_accept_ok [OF ok] n by (auto simp: accept_connection_def split: prod.splits)
  show ?thesis
  proof (cases a)
    case (Inl e)
    then show ?thesis using a s1 drain_one_ok by (auto simp: ac_handleRead_def Let_def)
  next
    case (Inr b)
    then obtain fd peer where b: "a = Inr (fd, peer)" by (cases b) simp
    have "\<exists>s'. newConnection fd peer (s1\<lparr>ac_open := ac_open s1 - {fd}\<rparr>) = Inr s' \<and> sv_ok s'"
      by (rule newConnection_ok) (use s1 in simp_all)
    then show ?thesis using a b s1 by (auto simp: ac_handleRead_def ac_close_def)
  qed
qed

lemma removeConnection_ok:
  assumes ok: "sv_ok s" and c: "sv_live c s" "c \<notin> set (sv_removing s)"
  shows "sv_ok (sv_removeConnection c s)"
proof -
  have "sv_live d (sv_removeConnection c s) = sv_live d s" "about d (sv_removeConnection c s) = about d s"
      "conn_name (sv_removeConnection c s) k = conn_name s k" for d k
    by (simp_all add: sv_live_def about_def conn_name_def sv_removeConnection_def)
  note frame = this
  note D = sv_okD [OF ok]
  have f: "sv_conns (sv_removeConnection c s) = sv_conns s" "connections (sv_removeConnection c s) = connections s"
    by (simp_all add: sv_removeConnection_def)
  show ?thesis
    unfolding sv_ok_def frame f
  proof (intro conjI allI impI ballI)
    show "d < length (sv_conns s)" "ci_name (sv_conns s ! d) = k" if "connections s k = Some d" for k d
      using D(6) [of k d] that by simp_all
    show "sv_live d s" if "d \<in> set (sv_removing (sv_removeConnection c s))" for d
      using that D(10) [of d] c(1) by (auto simp: sv_removeConnection_def)
  qed (use D c in \<open>simp_all add: sv_removeConnection_def\<close>)
qed

lemma sv_guarded_ok: "sv_ok s \<Longrightarrow> barring (\<lambda>_. False) sv_ok (sv_guarded ev s)"
proof (cases ev)
  case Sv_Readable
  assume ok: "sv_ok s"
  then show ?thesis using Sv_Readable sv_readable_ok [OF ok] by (auto simp: sv_guarded_def)
next
  case (Sv_Close c)
  assume ok: "sv_ok s"
  then show ?thesis
    using Sv_Close removeConnection_ok [OF ok] by (simp add: sv_guarded_def)
next
  case Sv_Run_Removal
  assume ok: "sv_ok s"
  then show ?thesis
    using Sv_Run_Removal removeConnectionInLoop_ok [OF ok]
    by (cases "sv_removing s") (auto simp: sv_guarded_def)
qed

interpretation server_run: service "\<lambda>_. False" sv_ok "\<lambda>_. True" sv_guarded
  by unfold_locales (rule sv_guarded_ok)

text \<open>A server that was just made and whose pool was started.\<close>

lemma started_server_ok:
  assumes "length (sv_ipPort s) \<le> 21" "pool_ok (sv_pool s)" "nextConnId s = 1" "connections s = Map.empty"
    "sv_conns s = []" "sv_posted s = []" "sv_removing s = []"
  shows "sv_ok s"
  using assms by (simp add: sv_ok_def)

section \<open>Properties\<close>

text \<open>C11: the server keeps account of its connections.  However the arrivals of connections, their
  close callbacks and the removals interleave, no assertion fails; all connections ever made have
  different names; the map holds exactly those not removed, each under its name; and each was asked,
  on its own loop, to start once and, when it was removed, afterwards once to stop.\<close>

theorem server_connections:
  assumes "sv_ok s"
  shows "case foldr_res sv_guarded evs s of
      Inl e \<Rightarrow> False
    | Inr s' \<Rightarrow> distinct (map ci_name (sv_conns s')) \<and>
        (\<forall>n c. connections s' n = Some c \<longrightarrow> c < length (sv_conns s') \<and> ci_name (sv_conns s' ! c) = n) \<and>
        (\<forall>c < length (sv_conns s'). about c s' = (ci_loop (sv_conns s' ! c), Sv_Established c) #
          (if connections s' (ci_name (sv_conns s' ! c)) = Some c then []
           else [(ci_loop (sv_conns s' ! c), Sv_Destroyed c)]))"
proof -
  have run: "barring (\<lambda>_. False) sv_ok (foldr_res sv_guarded evs s)"
    by (rule server_run.run_safe) (use assms in simp_all)
  then obtain s' where s': "foldr_res sv_guarded evs s = Inr s'" "sv_ok s'"
    by (cases "foldr_res sv_guarded evs s") simp_all
  note D = sv_okD [OF s'(2)]
  have "ci_name (sv_conns s' ! i) \<noteq> ci_name (sv_conns s' ! j)"
    if ij: "i < length (sv_conns s')" "j < length (sv_conns s')" "i \<noteq> j" for i j
  proof
    assume "ci_name (sv_conns s' ! i) = ci_name (sv_conns s' ! j)"
    then have "int i + 1 = int j + 1"
      using D(5) ij D(4) by (intro conn_name_inject [OF D(2)]) simp_all
    then show False using ij by simp
  qed
  then have "distinct (map ci_name (sv_conns s'))" by (simp add: distinct_conv_nth)
  then show ?thesis
    using s'(1) D(6,7) by (simp add: sv_live_def)
qed

text \<open>The \<open>errno\<close> of the model is the one of the calls in theory \<open>Sockets\<close>.\<close>

lemma accepts_errno:
  assumes "os (sys_calls k) (Sys_accept4 fd 16 (SOCK_NONBLOCK + SOCK_CLOEXEC)) = Inl e"
  shows "fst (ac_accepts os noise fd k) = Inl (noise (errno_after_accept noise e) = EMFILE)"
  using assms by (auto simp: ac_accepts_def sk_accept_def so_accept_def sys_do_def errno_after_accept_def Let_def)

text \<open>C36: what the acceptor does with a readable listening socket, when it holds just that socket and
  its idle descriptor.  A connection goes to the callback, or is closed when there is none.  After an
  error one waiting connection is accepted and closed with the help of the idle descriptor, which is
  then taken again, exactly when \<open>errno\<close> says that no descriptor is left after the acceptor has
  printed, as in theory \<open>Sockets\<close>; otherwise the error is passed over.  When printing leaves \<open>errno\<close>
  alone, this is the kernel's error.  The acceptor never holds another descriptor.\<close>

theorem acceptor_answers:
  assumes "ac_open s = {ac_fd s, idleFd s}" "idleFd s \<noteq> ac_fd s" "fd \<notin> {ac_fd s, idleFd s}" "d \<noteq> ac_fd s" "0 \<le> i"
  shows "ac_handleRead callback (s\<lparr>accept_answers := Inr (fd, peer) # answers\<rparr>) =
      (if ac_callback s then callback fd peer (s\<lparr>accept_answers := answers\<rparr>) else Inr (s\<lparr>accept_answers := answers\<rparr>)) \<and>
    ac_handleRead callback (s\<lparr>accept_answers := Inl e # Inr (d, peer) # answers, open_answers := i # fds\<rparr>) =
      (if ac_noise s (errno_after_accept (ac_noise s) e) = EMFILE
       then Inr (s\<lparr>accept_answers := answers, open_answers := fds, idleFd := i, ac_open := {ac_fd s, i}\<rparr>)
       else Inr (s\<lparr>accept_answers := Inr (d, peer) # answers, open_answers := i # fds\<rparr>)) \<and>
    (os (sys_calls k) (Sys_accept4 (ac_fd s) 16 (SOCK_NONBLOCK + SOCK_CLOEXEC)) = Inl e \<longrightarrow>
      fst (ac_accepts os (ac_noise s) (ac_fd s) k) = Inl (ac_noise s (errno_after_accept (ac_noise s) e) = EMFILE)) \<and>
    (ac_noise s e = e \<longrightarrow> (ac_noise s (errno_after_accept (ac_noise s) e) = EMFILE \<longleftrightarrow> e = EMFILE))"
proof (intro conjI)
  have same: "s\<lparr>accept_answers := x, ac_open := ac_open s\<rparr> = s\<lparr>accept_answers := x\<rparr>" for x
    by (cases s) simp
  have keep: "insert fd (ac_open s) - {fd} = ac_open s" using assms(1,3) by blast
  have "ac_handleRead callback (s\<lparr>accept_answers := Inr (fd, peer) # answers\<rparr>) =
      (if ac_callback s then callback fd peer (s\<lparr>accept_answers := answers, ac_open := insert fd (ac_open s) - {fd}\<rparr>)
       else Inr (s\<lparr>accept_answers := answers, ac_open := insert fd (ac_open s) - {fd}\<rparr>))"
    by (simp add: ac_handleRead_def accept_connection_def sys_accept_def ac_close_def)
  also have "s\<lparr>accept_answers := answers, ac_open := insert fd (ac_open s) - {fd}\<rparr> = s\<lparr>accept_answers := answers\<rparr>"
    by (subst keep) (rule same)
  finally show "ac_handleRead callback (s\<lparr>accept_answers := Inr (fd, peer) # answers\<rparr>) =
      (if ac_callback s then callback fd peer (s\<lparr>accept_answers := answers\<rparr>) else Inr (s\<lparr>accept_answers := answers\<rparr>))" .
  have "ac_open s - {idleFd s} = {ac_fd s}" unfolding assms(1) using assms(2) by blast
  moreover have "insert d {ac_fd s} - {d} = {ac_fd s}" using assms(4) by blast
  ultimately have drained: "insert i (insert d (ac_open s - {idleFd s}) - {d}) = {ac_fd s, i}" by (simp only: insert_commute)
  have "ac_handleRead callback (s\<lparr>accept_answers := Inl e # Inr (d, peer) # answers, open_answers := i # fds\<rparr>) =
      (if ac_noise s (errno_after_accept (ac_noise s) e) = EMFILE
       then Inr (s\<lparr>accept_answers := answers, open_answers := fds, idleFd := i,
         ac_open := insert i (insert d (ac_open s - {idleFd s}) - {d})\<rparr>)
       else Inr (s\<lparr>accept_answers := Inr (d, peer) # answers, open_answers := i # fds\<rparr>))"
    using assms(5)
    by (simp add: ac_handleRead_def accept_connection_def sys_accept_def drain_one_def open_null_def ac_close_def Let_def)
  then show "ac_handleRead callback (s\<lparr>accept_answers := Inl e # Inr (d, peer) # answers, open_answers := i # fds\<rparr>) =
      (if ac_noise s (errno_after_accept (ac_noise s) e) = EMFILE
       then Inr (s\<lparr>accept_answers := answers, open_answers := fds, idleFd := i, ac_open := {ac_fd s, i}\<rparr>)
       else Inr (s\<lparr>accept_answers := Inr (d, peer) # answers, open_answers := i # fds\<rparr>))"
    unfolding drained .
qed (simp_all add: accepts_errno errno_after_accept_def)

text \<open>
  When \<open>open\<close> fails in between, because another thread took the free descriptor, the idle one is
  lost: from then on a full table leaves the waiting connection waiting, and the socket readable.
\<close>

lemma idle_fd_lost:
  assumes "idleFd s = - 1" "- 1 \<notin> ac_open s" "ac_noise s EMFILE = EMFILE"
    "accept_answers s = Inl EMFILE # Inl EMFILE # answers" "open_answers s = fd # fds" "fd < 0"
  shows "\<exists>s'. ac_handleRead callback s = Inr s' \<and> accept_answers s' = answers \<and> idleFd s' = - 1 \<and> ac_open s' = ac_open s"
  using assms by (simp add: ac_handleRead_def accept_connection_def errno_after_accept_def expected_errors_def sys_accept_def drain_one_def open_null_def ac_close_def)

section \<open>Samples\<close>

definition sample_pool :: "nat loop_pool" where
  "sample_pool = (case elp_start None id (new_EventLoopThreadPool 0 ''srv'') of Inl _ \<Rightarrow> undefined | Inr p \<Rightarrow> p)"

definition sample_server :: "nat server" where
  "sample_server = loop.extend sample_loop
     (acceptor_ext 5 4 True True 6 {5, 6} [Inr (7, zero_addr), Inl EMFILE, Inr (8, zero_addr)] [6] id
       (server_ext ''127.0.0.1:80'' ''srv'' sample_pool 1 1 Map.empty [] [] [] ()))"

lemma sample_server_ok: "sv_ok sample_server"
proof (rule started_server_ok)
  have "pool_ok sample_pool"
    by (simp add: sample_pool_def elp_start_def new_EventLoopThreadPool_def pool_ok_def)
  then show "pool_ok (sv_pool sample_server)" by (simp add: sample_server_def loop.defs)
qed (simp_all add: sample_server_def loop.defs)

theorem server_connections_witness:
  "case foldr_res sv_guarded [Sv_Readable, Sv_Close 0, Sv_Run_Removal] sample_server of
      Inl e \<Rightarrow> False
    | Inr s' \<Rightarrow> distinct (map ci_name (sv_conns s'))"
proof -
  note r = server_connections [OF sample_server_ok, of "[Sv_Readable, Sv_Close 0, Sv_Run_Removal]"]
  show ?thesis
  proof (cases "foldr_res sv_guarded [Sv_Readable, Sv_Close 0, Sv_Run_Removal] sample_server")
    case (Inl e)
    then show ?thesis using r by simp
  next
    case (Inr s')
    then show ?thesis using r by simp
  qed
qed

theorem acceptor_answers_witness:
  "ac_handleRead newConnection (sample_server\<lparr>accept_answers := Inl EMFILE # Inr (8, zero_addr) # [], open_answers := [6]\<rparr>) =
     Inr (sample_server\<lparr>accept_answers := [], open_answers := [], idleFd := 6, ac_open := {5, 6}\<rparr>)"
proof -
  have "ac_open sample_server = {ac_fd sample_server, idleFd sample_server}" "idleFd sample_server \<noteq> ac_fd sample_server"
      "7 \<notin> {ac_fd sample_server, idleFd sample_server}" "8 \<noteq> ac_fd sample_server" "ac_fd sample_server = 5"
      "ac_noise sample_server = id"
    by (simp_all add: sample_server_def loop.defs)
  note a = this
  show ?thesis
    using acceptor_answers [OF a(1-4), where i = 6 and callback = newConnection and peer = zero_addr and answers = "[]" and e = EMFILE and fds = "[]"] a(5,6) by simp
qed

end
