(* ===== verification/Client.thy ===== *)
theory Client
  imports Connector Server
begin

text \<open>
  \<open>net/TcpClient.h\<close> and \<open>net/TcpClient.cc\<close>.  The client extends its connector by its own members.
  Its connections are numbered in the order of their creation; \<open>cl_told\<close> lists what it called on
  them, or queued in the loop for them, and \<open>cl_peers\<close> the kernel's answers to \<open>getpeername\<close>
  and \<open>getsockname\<close> for the sockets to come.
\<close>

section \<open>The class\<close>

datatype cl_call =
    Cl_Established nat
  | Cl_Destroyed nat          \<comment> \<open>queued in the loop\<close>
  | Cl_Shutdown nat
  | Cl_Set_Close nat          \<comment> \<open>\<open>setCloseCallback(detail::removeConnection)\<close>\<close>
  | Cl_Force_Close nat

record 'u client_conn = conn_info +
  cc_localAddr :: sockaddr_in
  cc_peerAddr :: sockaddr_in
  cc_connectionCallback :: "'u option"
  cc_messageCallback :: "'u option"
  cc_writeCompleteCallback :: "'u option"

record 'u client = connector +
  cl_name :: string
  cl_connectionCallback :: "'u option"
  cl_messageCallback :: "'u option"
  cl_writeCompleteCallback :: "'u option"
  cl_retry :: bool
  cl_connect :: bool
  cl_nextConnId :: int
  cl_connection :: "nat option"
  cl_conns :: "'u client_conn list"
  cl_told :: "cl_call list"
  cl_peers :: "(sockaddr_in option \<times> sockaddr_in option) list"

definition cl_tell :: "cl_call \<Rightarrow> 'u client \<Rightarrow> 'u client" where
  "cl_tell k s = s\<lparr>cl_told := cl_told s @ [k]\<rparr>"

definition new_TcpClient :: "'u \<Rightarrow> 'u \<Rightarrow> string \<Rightarrow> 'u client \<Rightarrow> 'u client" where
  "new_TcpClient default_connection default_message nameArg s =
     setNewConnectionCallback ((new_Connector s)\<lparr>cl_name := nameArg, cl_connectionCallback := Some default_connection,
       cl_messageCallback := Some default_message, cl_writeCompleteCallback := None, cl_retry := False,
       cl_connect := True, cl_nextConnId := 1, cl_connection := None, cl_conns := [], cl_told := []\<rparr>)"


definition client_connect ::
  "('u client \<Rightarrow> taddr option) \<Rightarrow> ('u client \<Rightarrow> cid option) \<Rightarrow> (int \<Rightarrow> 'u client \<Rightarrow> 'u client res) \<Rightarrow> nat \<Rightarrow>
   'u client \<Rightarrow> 'u client res" where
  "client_connect alloc fresh handover self s = cn_start alloc fresh handover self (s\<lparr>cl_connect := True\<rparr>)"

definition client_disconnect :: "'u client \<Rightarrow> 'u client" where
  "client_disconnect s =
     (let s = s\<lparr>cl_connect := False\<rparr>
      in case cl_connection s of None \<Rightarrow> s | Some c \<Rightarrow> cl_tell (Cl_Shutdown c) s)"

definition client_stop :: "nat \<Rightarrow> 'u client \<Rightarrow> 'u client" where
  "client_stop self s = cn_stop self (s\<lparr>cl_connect := False\<rparr>)"

definition cl_enableRetry :: "'u client \<Rightarrow> 'u client" where
  "cl_enableRetry s = s\<lparr>cl_retry := True\<rparr>"

definition cl_setConnectionCallback :: "'u option \<Rightarrow> 'u client \<Rightarrow> 'u client" where
  "cl_setConnectionCallback cb s = s\<lparr>cl_connectionCallback := cb\<rparr>"

definition cl_setMessageCallback :: "'u option \<Rightarrow> 'u client \<Rightarrow> 'u client" where
  "cl_setMessageCallback cb s = s\<lparr>cl_messageCallback := cb\<rparr>"

definition cl_setWriteCompleteCallback :: "'u option \<Rightarrow> 'u client \<Rightarrow> 'u client" where
  "cl_setWriteCompleteCallback cb s = s\<lparr>cl_writeCompleteCallback := cb\<rparr>"

definition cl_addresses :: "'u client \<Rightarrow> sockaddr_in \<times> sockaddr_in \<times> 'u client" where
  "cl_addresses s =
     (case cl_peers s of
        [] \<Rightarrow> (getPeerAddr None, getLocalAddr None, s)
      | (peer, local) # answers \<Rightarrow> (getPeerAddr peer, getLocalAddr local, s\<lparr>cl_peers := answers\<rparr>))"

definition cl_conn_name :: "'u client \<Rightarrow> string \<Rightarrow> string" where
  "cl_conn_name s peer = cl_name s @ snprintf 32 (CHR '':'' # peer @ CHR ''#'' # dec_int (cl_nextConnId s))"

definition cl_newConnection :: "endianness \<Rightarrow> int \<Rightarrow> 'u client \<Rightarrow> 'u client res" where
  "cl_newConnection e sockfd s =
     (let (peerAddr, localAddr, s) = cl_addresses s
      in bindr (ia_toIpPort e peerAddr) (\<lambda>text.
           let connName = cl_conn_name s text;
               s = s\<lparr>cl_nextConnId := to_int32 (cl_nextConnId s + 1)\<rparr>;
               conn = length (cl_conns s);
               s = s\<lparr>cl_conns := cl_conns s @ [\<lparr>ci_name = connName, ci_loop = loop_id s, ci_fd = sockfd,
                     cc_localAddr = localAddr, cc_peerAddr = peerAddr, cc_connectionCallback = cl_connectionCallback s,
                     cc_messageCallback = cl_messageCallback s, cc_writeCompleteCallback = cl_writeCompleteCallback s\<rparr>]\<rparr>;
               s = s\<lparr>cl_connection := Some conn\<rparr>
           in Inr (cl_tell (Cl_Established conn) s)))"

definition cl_removeConnection ::
  "('u client \<Rightarrow> taddr option) \<Rightarrow> ('u client \<Rightarrow> cid option) \<Rightarrow> nat \<Rightarrow> nat \<Rightarrow> 'u client \<Rightarrow> 'u client res" where
  "cl_removeConnection alloc fresh self conn s =
     ensure ''removeConnection: loop_'' (loop_id s = ci_loop (cl_conns s ! conn))
       (ensure ''removeConnection: connection_ == conn'' (cl_connection s = Some conn)
         (let s = cl_tell (Cl_Destroyed conn) (s\<lparr>cl_connection := None\<rparr>)
          in if cl_retry s \<and> cl_connect s then cn_restart alloc fresh self s else Inr s))"

section \<open>Names\<close>

text \<open>At most 21 characters, for any answer of the kernel.\<close>

lemma ia_toIpPort_total:
  obtains ip where "ia_toIpPort e a = Inr ip" "length ip \<le> 21"
proof (cases "sin_family a = AF_INET")
  case True
  then show ?thesis using toIpPort_eq [OF True] that by blast
next
  case False
  have "length (dec_nat (unat (networkToHost16 e (sin_port a)))) \<le> 5" by (rule port_digits)
  then show ?thesis
    using False that by (simp add: ia_toIpPort_def toIpPort_def toIp_def ensure_def snprintf_def)
qed

lemma no_hash [simp]: "CHR ''#'' \<notin> set (dec_nat n)"
  using dec_nat_digits [of "CHR ''#''" n] by (auto simp: is_digit_def)

definition name_of :: "string \<Rightarrow> nat \<Rightarrow> string \<Rightarrow> bool" where
  "name_of client n name \<longleftrightarrow> (\<exists>text. length text \<le> 21 \<and> name = client @ CHR '':'' # text @ CHR ''#'' # dec_nat n)"

lemma name_of_inject:
  assumes "name_of client m name" "name_of client n name"
  shows "m = n"
proof -
  have number: "takeWhile (\<lambda>c. c \<noteq> CHR ''#'') (rev (client @ CHR '':'' # ip @ CHR ''#'' # dec_nat k)) = rev (dec_nat k)"
    for ip k
  proof -
    have "takeWhile (\<lambda>c. c \<noteq> CHR ''#'') (rev (dec_nat k) @ CHR ''#'' # rest) = rev (dec_nat k)" for rest
      by (subst takeWhile_append2) auto
    then show ?thesis by simp
  qed
  have "rev (dec_nat m) = rev (dec_nat n)" using assms number unfolding name_of_def by metis
  then show ?thesis by simp
qed

text \<open>With eight digits the name still fits into the array.\<close>

lemma cl_conn_name_ok:
  assumes "length ip \<le> 21" "cl_nextConnId s = int n" "n \<le> 99999999"
  shows "name_of (cl_name s) n (cl_conn_name s ip)"
proof -
  have "length (dec_nat n) \<le> 8" using assms(3) by (intro length_dec_nat_le) simp_all
  then show ?thesis using assms by (auto simp: name_of_def cl_conn_name_def dec_int_def snprintf_def)
qed

section \<open>The invariant\<close>

fun cl_subject :: "cl_call \<Rightarrow> nat" where
  "cl_subject (Cl_Established c) = c"
| "cl_subject (Cl_Destroyed c) = c"
| "cl_subject (Cl_Shutdown c) = c"
| "cl_subject (Cl_Set_Close c) = c"
| "cl_subject (Cl_Force_Close c) = c"

text \<open>What was called on connection \<open>c\<close>, requests to close it left out.\<close>

definition lifecycle :: "nat \<Rightarrow> 'u client \<Rightarrow> cl_call list" where
  "lifecycle c s = filter (\<lambda>k. k = Cl_Established c \<or> k = Cl_Destroyed c) (cl_told s)"

text \<open>
  The connections have the sockets the connector handed over, in their order, and the names of
  their numbers.  The last of them may be the current one, and then the connector has nothing to
  do; every other one was told to stop.
\<close>

definition cl_inv :: "'u client \<Rightarrow> bool" where
  "cl_inv s \<longleftrightarrow> cl_nextConnId s = int (length (cl_conns s)) + 1 \<and> length (cl_conns s) \<le> 99999999 \<and>
     map ci_fd (cl_conns s) = cn_handed s \<and>
     (\<forall>c < length (cl_conns s). ci_loop (cl_conns s ! c) = loop_id s \<and>
        name_of (cl_name s) (Suc c) (ci_name (cl_conns s ! c)) \<and>
        lifecycle c s = Cl_Established c # (if cl_connection s = Some c then [] else [Cl_Destroyed c])) \<and>
     (\<forall>k \<in> set (cl_told s). cl_subject k < length (cl_conns s)) \<and>
     (\<forall>c. cl_connection s = Some c \<longrightarrow> Suc c = length (cl_conns s) \<and> cn_state s = cnConnected)"

definition cl_ok :: "nat \<Rightarrow> 'u client \<Rightarrow> bool" where
  "cl_ok self s \<longleftrightarrow> cn_ok False self s \<and> cl_inv s"

lemma cl_invD:
  assumes "cl_inv s"
  shows "cl_nextConnId s = int (length (cl_conns s)) + 1" "length (cl_conns s) \<le> 99999999"
    "map ci_fd (cl_conns s) = cn_handed s"
    "c < length (cl_conns s) \<Longrightarrow> ci_loop (cl_conns s ! c) = loop_id s"
    "c < length (cl_conns s) \<Longrightarrow> name_of (cl_name s) (Suc c) (ci_name (cl_conns s ! c))"
    "c < length (cl_conns s) \<Longrightarrow>
      lifecycle c s = Cl_Established c # (if cl_connection s = Some c then [] else [Cl_Destroyed c])"
    "k \<in> set (cl_told s) \<Longrightarrow> cl_subject k < length (cl_conns s)"
    "cl_connection s = Some c \<Longrightarrow> Suc c = length (cl_conns s) \<and> cn_state s = cnConnected"
  using assms unfolding cl_inv_def by blast+

text \<open>The connector leaves the client's members alone.\<close>

lemma cl_view:
  assumes "cn_view s' = cn_view (s :: 'u client)"
  shows "cn_connect s' = cn_connect s" and "cl_name s' = cl_name s" "cl_retry s' = cl_retry s" "cl_connect s' = cl_connect s"
    "cl_nextConnId s' = cl_nextConnId s" "cl_connection s' = cl_connection s" "cl_conns s' = cl_conns s"
    "cl_told s' = cl_told s" "loop_id s' = loop_id s" "lifecycle c s' = lifecycle c s"
proof -
  have same: "connector.more s' = connector.more s" "loop_id s' = loop_id s" and c: "cn_connect s' = cn_connect s"
    using assms by (simp_all add: cn_view_def)
  show "cn_connect s' = cn_connect s" by (rule c)
  show f: "cl_name s' = cl_name s" "cl_retry s' = cl_retry s" "cl_connect s' = cl_connect s"
    "cl_nextConnId s' = cl_nextConnId s" "cl_connection s' = cl_connection s" "cl_conns s' = cl_conns s"
    "cl_told s' = cl_told s" "loop_id s' = loop_id s"
    using same by (cases s, cases s', simp)+
  show "lifecycle c s' = lifecycle c s" by (simp add: lifecycle_def f)
qed

lemma cl_inv_view:
  assumes inv: "cl_inv s" and same: "cn_view s' = cn_view s" "cn_handed s' = cn_handed s"
    and st: "cn_state s' = cn_state s \<or> cl_connection s = None"
  shows "cl_inv s'"
  using inv st unfolding cl_inv_def cl_view [OF same(1)] same(2) by auto

lemma cl_members_ok [simp]:
  "loop_ok (s\<lparr>cl_connect := x1\<rparr>) = loop_ok s" "loop_ok (s\<lparr>cl_told := x2\<rparr>) = loop_ok s"
  "loop_ok (s\<lparr>cl_peers := x3\<rparr>) = loop_ok s" "loop_ok (s\<lparr>cl_nextConnId := x4\<rparr>) = loop_ok s"
  "loop_ok (s\<lparr>cl_conns := x5\<rparr>) = loop_ok s" "loop_ok (s\<lparr>cl_connection := x6\<rparr>) = loop_ok s"
  "loop_ok (s\<lparr>cl_retry := x7\<rparr>) = loop_ok s"
  by (rule loop_ok_cong; simp)+

lemma cn_ok_connect [simp]: "cn_ok h self (s\<lparr>cn_connect := b\<rparr>) = cn_ok h self s"
  by (simp add: cn_ok_def)

lemma cn_ok_cl_members [simp]:
  "cn_ok h self (s\<lparr>cl_connect := x1\<rparr>) = cn_ok h self s" "cn_ok h self (s\<lparr>cl_told := x2\<rparr>) = cn_ok h self s"
  "cn_ok h self (s\<lparr>cl_peers := x3\<rparr>) = cn_ok h self s" "cn_ok h self (s\<lparr>cl_nextConnId := x4\<rparr>) = cn_ok h self s"
  "cn_ok h self (s\<lparr>cl_conns := x5\<rparr>) = cn_ok h self s" "cn_ok h self (s\<lparr>cl_connection := x6\<rparr>) = cn_ok h self s"
  "cn_ok h self (s\<lparr>cl_retry := x7\<rparr>) = cn_ok h self s"
  by (simp_all add: cn_ok_def cn_core_def cn_link_def queue_ok_def tq_ok_def set_for_def seq_of_def split: option.split)

section \<open>Operations keep it\<close>

lemma cl_newConnection_run:
  fixes s :: "'u client"
  obtains answers ip c where "length ip \<le> 21" "cl_newConnection e fd s = Inr (s\<lparr>cl_peers := answers,
      cl_nextConnId := to_int32 (cl_nextConnId s + 1), cl_conns := cl_conns s @ [c],
      cl_connection := Some (length (cl_conns s)), cl_told := cl_told s @ [Cl_Established (length (cl_conns s))]\<rparr>)"
    "ci_fd c = fd" "ci_loop c = loop_id s" "ci_name c = cl_conn_name s ip"
proof -
  obtain peer local answers where a: "cl_addresses s = (peer, local, s\<lparr>cl_peers := answers\<rparr>)"
  proof (cases "cl_peers s")
    case Nil
    have "s = s\<lparr>cl_peers := cl_peers s\<rparr>" by simp
    then show ?thesis using Nil that by (metis cl_addresses_def list.simps(4))
  next
    case (Cons x xs)
    then show ?thesis using that by (cases x) (simp add: cl_addresses_def)
  qed
  obtain ip where ip: "ia_toIpPort e peer = Inr ip" "length ip \<le> 21" by (rule ia_toIpPort_total)
  have name: "cl_conn_name (s\<lparr>cl_peers := answers\<rparr>) ip = cl_conn_name s ip" by (simp add: cl_conn_name_def)
  show ?thesis
    by (rule that [OF ip(2), where c = "\<lparr>ci_name = cl_conn_name s ip, ci_loop = loop_id s, ci_fd = fd,
        cc_localAddr = local, cc_peerAddr = peer, cc_connectionCallback = cl_connectionCallback s,
        cc_messageCallback = cl_messageCallback s, cc_writeCompleteCallback = cl_writeCompleteCallback s\<rparr>"
        and answers = answers])
      (simp_all add: cl_newConnection_def a ip Let_def cl_tell_def name)
qed

lemma cl_handover_ok: "handover_ok self (cl_newConnection e)"
  unfolding handover_ok_def
proof (intro allI impI)
  fix h fd and s :: "'u client" assume "cn_ok h self s"
  then show "safe (\<lambda>s'. cn_ok h self s' \<and> cn_channel s' = cn_channel s \<and> cn_state s' = cn_state s) (cl_newConnection e fd s)"
    by (rule_tac cl_newConnection_run [of e fd s]) simp
qed

lemma cl_inv_new:
  assumes inv: "cl_inv s" and none: "cl_connection s = None" and n: "length (cl_conns s) < 99999999"
    and u: "cn_view u = cn_view s" "cn_handed u = cn_handed s @ [fd]" "cn_state u = cnConnected"
    and run: "cl_newConnection e fd u = Inr v"
  shows "cl_inv v"
proof -
  note D = cl_invD [OF inv] and f = cl_view [OF u(1)]
  let ?n = "length (cl_conns s)"
  obtain answers ip c where v: "length ip \<le> 21" "cl_newConnection e fd u = Inr (u\<lparr>cl_peers := answers,
      cl_nextConnId := to_int32 (cl_nextConnId u + 1), cl_conns := cl_conns u @ [c],
      cl_connection := Some (length (cl_conns u)), cl_told := cl_told u @ [Cl_Established (length (cl_conns u))]\<rparr>)"
    "ci_fd c = fd" "ci_loop c = loop_id u" "ci_name c = cl_conn_name u ip"
    by (rule cl_newConnection_run)
  note v_eq = v(2) [unfolded run, THEN sum.inject(2) [THEN iffD1]]
  have g: "cl_name v = cl_name s" "cl_nextConnId v = to_int32 (cl_nextConnId s + 1)" "cl_conns v = cl_conns s @ [c]"
      "cl_connection v = Some ?n" "cl_told v = cl_told s @ [Cl_Established ?n]" "loop_id v = loop_id s"
      "cn_handed v = cn_handed u" "cn_state v = cn_state u"
    unfolding v_eq by (simp_all add: f)
  have name: "name_of (cl_name s) (Suc ?n) (ci_name c)"
    using cl_conn_name_ok [OF v(1), of u "Suc ?n"] v(5) D(1) n f by simp
  have old: "lifecycle ?n s = []"
    using D(7) [of "Cl_Established ?n"] D(7) [of "Cl_Destroyed ?n"] by (auto simp: lifecycle_def filter_empty_conv)
  have life: "lifecycle i v = lifecycle i s @ (if i = ?n then [Cl_Established ?n] else [])" for i
    by (simp add: lifecycle_def g)
  show ?thesis
    unfolding cl_inv_def
  proof (intro conjI allI impI ballI)
    show "cl_nextConnId v = int (length (cl_conns v)) + 1" using D(1) n by (simp add: g)
    show "ci_loop (cl_conns v ! i) = loop_id v" if "i < length (cl_conns v)" for i
      using that D(4) v(4) f(9) by (auto simp: g nth_append less_Suc_eq)
    show "name_of (cl_name v) (Suc i) (ci_name (cl_conns v ! i))" if "i < length (cl_conns v)" for i
      using that D(5) name by (auto simp: g nth_append less_Suc_eq)
    show "lifecycle i v = Cl_Established i # (if cl_connection v = Some i then [] else [Cl_Destroyed i])"
      if "i < length (cl_conns v)" for i
      using that D(6) [of i] none old unfolding life by (auto simp: g less_Suc_eq)
    show "cl_subject k < length (cl_conns v)" if "k \<in> set (cl_told v)" for k
      using that D(7) [of k] by (auto simp: g)
  qed (use D(2,3) u(2,3) v(3) n in \<open>simp_all add: g\<close>)
qed

lemma cl_inv_hands_over:
  assumes inv: "cl_inv s" and st: "cn_state s = cnConnecting" and n: "length (cl_conns s) < 99999999"
    and h: "hands_over (cl_newConnection e) s s'"
  shows "cl_inv s'"
proof -
  have none: "cl_connection s = None" using cl_invD(8) [OF inv] st by (cases "cl_connection s") auto
  from h [unfolded hands_over_def] show ?thesis
  proof (elim disjE exE conjE)
    fix h self fd u v
    assume u: "cn_view u = cn_view s" "cn_handed u = cn_handed s @ [fd]" "cn_state u = cnConnected"
      "cl_newConnection e fd u = Inr v" and v: "cn_view s' = cn_view v" "cn_handed s' = cn_handed v" "cn_state s' = cn_state v"
    have "cl_inv v" by (rule cl_inv_new [OF inv none n u])
    then show ?thesis using cl_inv_view v by blast
  qed (use cl_inv_view [OF inv] none in blast)
qed

text \<open>After the close callback: the connection is told to stop, and a retrying client starts again.\<close>

lemma cl_closed_inv:
  assumes inv: "cl_inv s" and c: "cl_connection s = Some c"
  shows "cl_inv (cl_tell (Cl_Destroyed c) (s\<lparr>cl_connection := None\<rparr>))"
proof -
  note D = cl_invD [OF inv]
  let ?s' = "cl_tell (Cl_Destroyed c) (s\<lparr>cl_connection := None\<rparr>)"
  have n: "c < length (cl_conns s)" using D(8) [OF c] by simp
  have life: "lifecycle i ?s' = lifecycle i s @ (if i = c then [Cl_Destroyed c] else [])" for i
    by (simp add: lifecycle_def cl_tell_def)
  show ?thesis
    unfolding cl_inv_def
  proof (intro conjI allI impI ballI)
    show "lifecycle i ?s' = Cl_Established i # (if cl_connection ?s' = Some i then [] else [Cl_Destroyed i])"
      if "i < length (cl_conns ?s')" for i
      using that D(6) [of i] c unfolding life by (simp add: cl_tell_def)
    show "cl_subject k < length (cl_conns ?s')" if "k \<in> set (cl_told ?s')" for k
      using that D(7) [of k] n by (auto simp: cl_tell_def)
  qed (use D in \<open>simp_all add: cl_tell_def\<close>)
qed

lemma cl_tell_frame [simp]:
  "cn_ok h self (cl_tell k s) = cn_ok h self s" "cn_state (cl_tell k s) = cn_state s"
  "cn_channel (cl_tell k s) = cn_channel s" "next_socket_free (cl_tell k s) = next_socket_free s"
  "connect_waits (cl_tell k s) = connect_waits s"
  by (auto simp: cl_tell_def next_socket_free_def connect_waits_def createNonblockingOrDie_def sys_connect_def Let_def
    split: list.splits)

lemma cl_member_frame [simp]:
  "next_socket_free (s\<lparr>cl_connect := x1\<rparr>) = next_socket_free s" "connect_waits (s\<lparr>cl_connect := x1\<rparr>) = connect_waits s"
  "next_socket_free (s\<lparr>cl_connection := x2\<rparr>) = next_socket_free s"
  "connect_waits (s\<lparr>cl_connection := x2\<rparr>) = connect_waits s"
  by (auto simp: next_socket_free_def connect_waits_def createNonblockingOrDie_def sys_connect_def Let_def
    split: list.splits)

lemma start_fault_member [simp]: "start_fault w (s\<lparr>cl_connect := x\<rparr>) = start_fault w s"
  by (simp add: start_fault_def)

text \<open>A request to close a connection changes nothing yet.\<close>

lemma cl_tell_request:
  assumes inv: "cl_inv s" and k: "k \<in> {Cl_Shutdown c, Cl_Set_Close c, Cl_Force_Close c}" "cl_connection s = Some c"
  shows "cl_inv (cl_tell k s)"
proof -
  have life: "lifecycle i (cl_tell k s) = lifecycle i s" for i using k(1) by (auto simp: lifecycle_def cl_tell_def)
  have "cl_subject k < length (cl_conns s)" using k cl_invD(8) [OF inv k(2)] by auto
  then show ?thesis using inv unfolding cl_inv_def life by (simp add: cl_tell_def)
qed

lemma cl_inv_flags [simp]:
  "cl_inv (s\<lparr>cl_connect := b\<rparr>) = cl_inv s" "cl_inv (s\<lparr>cl_retry := b\<rparr>) = cl_inv s" "cl_inv (s\<lparr>cn_connect := b\<rparr>) = cl_inv s"
  by (simp_all add: cl_inv_def lifecycle_def)

section \<open>Runs\<close>

text \<open>\<open>connect\<close> and \<open>stop\<close> may be called in any thread, and are given the caller.\<close>

datatype cl_event =
    Cl_Connect nat | Cl_Disconnect | Cl_Stop nat | Cl_Enable_Retry
  | Cl_Closed nat          \<comment> \<open>the close callback of a connection\<close>
  | Cl_Loop cn_event       \<comment> \<open>the loop works for the connector\<close>

fun cl_step ::
  "('u client \<Rightarrow> taddr option) \<Rightarrow> ('u client \<Rightarrow> cid option) \<Rightarrow> endianness \<Rightarrow> nat \<Rightarrow> cl_event \<Rightarrow> 'u client \<Rightarrow> 'u client res" where
  "cl_step alloc fresh e self (Cl_Connect caller) s = client_connect alloc fresh (cl_newConnection e) caller s"
| "cl_step alloc fresh e self Cl_Disconnect s = Inr (client_disconnect s)"
| "cl_step alloc fresh e self (Cl_Stop caller) s = Inr (client_stop caller s)"
| "cl_step alloc fresh e self Cl_Enable_Retry s = Inr (cl_enableRetry s)"
| "cl_step alloc fresh e self (Cl_Closed c) s = cl_removeConnection alloc fresh self c s"
| "cl_step alloc fresh e self (Cl_Loop ev) s = cn_step alloc fresh (cl_newConnection e) self ev s"

text \<open>What the loop does for a connector, its owner's calls left out.\<close>

fun loop_event :: "cn_event \<Rightarrow> bool" where
  "loop_event Cn_Retry_Due \<longleftrightarrow> True"
| "loop_event Cn_Functor \<longleftrightarrow> True"
| "loop_event (Cn_Io m t) \<longleftrightarrow> True"
| "loop_event _ \<longleftrightarrow> False"

text \<open>
  What the connections and the kernel promise: a connection calls its close callback once (theorem
  \<open>callback_protocol\<close> of \<open>ConnectionRuns\<close>); events come for a channel that is watched, and a new socket
  has a new number; and the client makes at most 99999999 connections.  Nothing is asked of the calls of
  the user and of the retry timers.
\<close>

fun cl_promised :: "cl_event \<Rightarrow> 'u client \<Rightarrow> bool" where
  "cl_promised (Cl_Connect caller) s \<longleftrightarrow> next_socket_free s"
| "cl_promised (Cl_Closed c) s \<longleftrightarrow> c < length (cl_conns s) \<and> Cl_Destroyed c \<notin> set (cl_told s) \<and> next_socket_free s"
| "cl_promised (Cl_Loop ev) s \<longleftrightarrow> loop_event ev \<and> cn_promised ev s \<and> length (cl_conns s) < 99999999"
| "cl_promised _ s \<longleftrightarrow> True"

text \<open>Which events fail, and how: those with which the connector cannot start.\<close>

fun cl_fault :: "nat \<Rightarrow> cl_event \<Rightarrow> 'u client \<Rightarrow> fault option" where
  "cl_fault self (Cl_Connect caller) s = cn_fault self (Cn_Start caller) s"
| "cl_fault self (Cl_Closed c) s = (if cl_retry s \<and> cl_connect s then cn_fault self Cn_Restart s else None)"
| "cl_fault self (Cl_Loop ev) s = cn_fault self ev s"
| "cl_fault self _ s = None"

definition cl_blame :: "nat \<Rightarrow> cl_event \<Rightarrow> 'u client \<Rightarrow> fault \<Rightarrow> bool" where
  "cl_blame self ev s err \<longleftrightarrow> cl_fault self ev s = Some err"

text \<open>The starting state: a client just made, in a loop that is in order.\<close>

lemma new_client_ok:
  assumes core: "cn_ok False self s" and idle: "cn_state s = cnDisconnected" "cn_channel s = None"
  shows "cl_ok self (new_TcpClient d m nm s)"
proof -
  have "loop_ok (new_TcpClient d m nm s) = loop_ok s"
    by (rule loop_ok_cong) (simp_all add: new_TcpClient_def setNewConnectionCallback_def new_Connector_def)
  then have "cn_ok False self (new_TcpClient d m nm s)"
    using assms
    by (simp add: cn_ok_def cn_core_def queue_ok_def tq_ok_def set_for_def seq_of_def cn_link_def)
      (simp add: new_TcpClient_def setNewConnectionCallback_def new_Connector_def kInitRetryDelayMs_def kMaxRetryDelayMs_def)
  moreover have "cl_inv (new_TcpClient d m nm s)"
    by (simp add: cl_inv_def new_TcpClient_def setNewConnectionCallback_def new_Connector_def)
  ultimately show ?thesis by (simp add: cl_ok_def)
qed

text \<open>What the loop does for the connector; a client that wants no connection hears of none.\<close>

lemma cl_loop_ok:
  assumes ok: "cl_ok self s" and promise: "cl_promised (Cl_Loop ev) s" and none: "cn_fault self ev s = None"
    and alloc: "alloc_ok alloc" and fresh: "fresh_ok fresh"
  shows "safe (\<lambda>s'. cl_ok self s' \<and> (\<not> cn_connect s \<longrightarrow> cn_view s' = cn_view s \<and> cn_handed s' = cn_handed s))
    (cl_step alloc fresh e self (Cl_Loop ev) s)" (is "safe ?P _")
proof -
  have cn: "cn_ok False self s" and inv: "cl_inv s" using ok by (simp_all add: cl_ok_def)
  have same: "?P s'" if "cn_ok False self s'" "cn_view s' = cn_view s" "cn_handed s' = cn_handed s"
      "cn_state s' = cn_state s \<or> cn_state s \<noteq> cnConnected" for s'
  proof -
    have "cn_state s' = cn_state s \<or> cl_connection s = None" using that(4) cl_invD(8) [OF inv] by (cases "cl_connection s") auto
    then show ?thesis using cl_inv_view [OF inv that(2,3)] that(1-3) by (simp add: cl_ok_def)
  qed
  show ?thesis
  proof (cases ev)
    case Cn_Retry_Due
    then have k: "next_socket_free s" and free: "start_fault (cn_connect s) s = None" using promise none by simp_all
    have "safe ?P (cn_startInLoop alloc fresh self s)"
      by (rule barring_mono [OF cn_startInLoop_ok [OF cn k free alloc fresh]], rule same)
        (use free in \<open>simp_all add: start_fault_def split: if_splits\<close>)
    then show ?thesis using Cn_Retry_Due by simp
  next
    case Cn_Functor
    show ?thesis
    proof (cases "pendingFunctors s")
      case Nil
      then show ?thesis using ok Cn_Functor by simp
    next
      case (Cons f fs)
      have "safe ?P (run_cn alloc fresh (cl_newConnection e) self (Run f) (s\<lparr>pendingFunctors := fs\<rparr>))"
        by (rule barring_mono [OF cn_functor_ok [OF cn Cons _ _ alloc fresh]], rule_tac [3] same)
          (use promise none Cons Cn_Functor in auto)
      then show ?thesis using Cons Cn_Functor by simp
    qed
  next
    case (Cn_Io m t)
    then have st: "cn_state s = cnConnecting" and n: "length (cl_conns s) < 99999999"
      using cn_watched_connecting [OF cn] promise by simp_all
    have "?P s'" if h: "cn_ok False self s' \<and> hands_over (cl_newConnection e) s s'" for s'
    proof -
      have "cl_inv s'" using cl_inv_hands_over [OF inv st n] h by blast
      moreover have "cn_view s' = cn_view s \<and> cn_handed s' = cn_handed s" if "\<not> cn_connect s"
      proof -
        have "cn_connect u = cn_connect s" if "cn_view u = cn_view s" for u :: "'a client" using cl_view(1) [OF that] .
        then show ?thesis using h that unfolding hands_over_def by blast
      qed
      ultimately show ?thesis using h by (simp add: cl_ok_def)
    qed
    then have "safe ?P (cn_step alloc fresh (cl_newConnection e) self (Cn_Io m t) s)"
      by (rule barring_mono [OF cn_io_ok [OF cn st alloc cl_handover_ok]])
    then show ?thesis using Cn_Io by simp
  qed (use promise in simp_all)
qed

lemma cl_current:
  assumes inv: "cl_inv s" and c: "c < length (cl_conns s)" "Cl_Destroyed c \<notin> set (cl_told s)"
  shows "cl_connection s = Some c"
proof (rule ccontr)
  assume "cl_connection s \<noteq> Some c"
  then have "Cl_Destroyed c \<in> set (lifecycle c s)" using cl_invD(6) [OF inv c(1)] by simp
  then show False using c(2) by (simp add: lifecycle_def)
qed

lemma cl_stop_ok:
  assumes "cl_ok self s"
  shows "cl_ok self (cn_stop caller s)"
proof -
  have "cl_inv (cn_stop caller s)"
    by (rule cl_inv_view [of "s\<lparr>cn_connect := False\<rparr>"]) (use assms in \<open>simp_all add: cl_ok_def\<close>)
  then show ?thesis using assms by (simp add: cl_ok_def cn_stop_ok)
qed

lemma cl_step_ok:
  assumes ok: "cl_ok self s" and promise: "cl_promised ev s" and none: "cl_fault self ev s = None"
    and alloc: "alloc_ok alloc" and fresh: "fresh_ok fresh"
  shows "safe (cl_ok self) (cl_step alloc fresh e self ev s)"
proof -
  have cn: "cn_ok False self s" and inv: "cl_inv s" using ok by (simp_all add: cl_ok_def)
  show ?thesis
  proof (cases ev)
    case (Cl_Connect caller)
    let ?s = "s\<lparr>cl_connect := True\<rparr>"
    have "cn_ok False self ?s" "next_socket_free ?s" "cn_fault self (Cn_Start caller) ?s = None"
      using cn promise none Cl_Connect by (simp_all split: if_splits)
    from cn_start_ok [OF this alloc fresh, of "cl_newConnection e"]
    have "safe (cl_ok self) (cn_start alloc fresh (cl_newConnection e) caller ?s)"
    proof (rule barring_mono)
      fix s' assume s': "cn_ok False self s' \<and> cn_handed s' = cn_handed ?s \<and> cn_view s' = cn_view (?s\<lparr>cn_connect := True\<rparr>) \<and>
        (cn_state s' = cn_state ?s \<or> cn_state ?s \<noteq> cnConnected)"
      have st: "cn_state s' = cn_state s \<or> cl_connection s = None" using s' cl_invD(8) [OF inv] by (cases "cl_connection s") auto
      have "cl_inv s'" by (rule cl_inv_view [of "?s\<lparr>cn_connect := True\<rparr>"]) (use s' inv st in simp_all)
      then show "cl_ok self s'" using s' by (simp add: cl_ok_def)
    qed
    then show ?thesis using Cl_Connect by (simp add: client_connect_def)
  next
    case Cl_Disconnect
    have "cl_inv (client_disconnect s)"
      using cl_tell_request [of "s\<lparr>cl_connect := False\<rparr>"] inv
      by (simp add: client_disconnect_def Let_def split: option.split)
    moreover have "cn_ok False self (client_disconnect s)"
      using cn by (simp add: client_disconnect_def Let_def split: option.split)
    ultimately show ?thesis using Cl_Disconnect by (simp add: cl_ok_def)
  next
    case (Cl_Stop caller)
    have "cl_ok self (s\<lparr>cl_connect := False\<rparr>)" using ok by (simp add: cl_ok_def)
    then show ?thesis using Cl_Stop cl_stop_ok by (simp add: client_stop_def)
  next
    case Cl_Enable_Retry
    then show ?thesis using ok by (simp add: cl_ok_def cl_enableRetry_def)
  next
    case (Cl_Closed c)
    then have c: "c < length (cl_conns s)" "cl_connection s = Some c" "next_socket_free s"
      using promise cl_current [OF inv] by simp_all
    let ?s = "cl_tell (Cl_Destroyed c) (s\<lparr>cl_connection := None\<rparr>)"
    have inv': "cl_inv ?s" by (rule cl_closed_inv [OF inv c(2)])
    have f: "cn_ok False self ?s" "cn_state ?s \<noteq> cnConnecting" "next_socket_free ?s" "cl_connection ?s = None"
      using cn c cl_invD(8) [OF inv c(2)] by (simp_all, simp_all add: cl_tell_def)
    have "safe (cl_ok self) (cn_restart alloc fresh self ?s)" if "cl_retry s \<and> cl_connect s"
    proof (rule barring_mono [OF cn_restart_ok [OF f(1-3) _ alloc fresh]])
      show "cn_fault self Cn_Restart ?s = None" using none Cl_Closed that by simp
      fix s' assume s': "cn_ok False self s' \<and> cn_handed s' = cn_handed ?s \<and> cn_view s' = cn_view (?s\<lparr>cn_connect := True\<rparr>)"
      have "cl_inv s'" by (rule cl_inv_view [of "?s\<lparr>cn_connect := True\<rparr>"]) (use s' inv' f(4) in simp_all)
      then show "cl_ok self s'" using s' by (simp add: cl_ok_def)
    qed
    moreover have "cl_ok self ?s" using f(1) inv' by (simp add: cl_ok_def)
    moreover have "cl_retry ?s = cl_retry s" "cl_connect ?s = cl_connect s" by (simp_all add: cl_tell_def)
    ultimately show ?thesis
      using Cl_Closed c cl_invD(4) [OF inv c(1)] by (simp add: cl_removeConnection_def Let_def)
  next
    case (Cl_Loop ev)
    then show ?thesis using barring_mono [OF cl_loop_ok [OF ok _ _ alloc fresh]] promise none by simp
  qed
qed

lemma cl_step_fails:
  assumes ok: "cl_ok self s" and promise: "cl_promised ev s" and fault: "cl_fault self ev s = Some err"
  shows "cl_step alloc fresh e self ev s = Inl err"
proof -
  have cn: "cn_ok False self s" and inv: "cl_inv s" using ok by (simp_all add: cl_ok_def)
  show ?thesis
  proof (cases ev)
    case (Cl_Connect caller)
    then show ?thesis
      using cn_step_fails [of self "s\<lparr>cl_connect := True\<rparr>" "Cn_Start caller" err alloc fresh] cn fault
      by (simp add: client_connect_def split: if_splits)
  next
    case (Cl_Closed c)
    let ?s = "cl_tell (Cl_Destroyed c) (s\<lparr>cl_connection := None\<rparr>)"
    have c: "c < length (cl_conns s)" "cl_connection s = Some c"
      using promise cl_current [OF inv] Cl_Closed by simp_all
    have "cn_restart alloc fresh self ?s = Inl err"
      using cn_step_fails [of self ?s Cn_Restart err alloc fresh] cn fault Cl_Closed by (simp split: if_splits)
    moreover have "cl_retry ?s = cl_retry s" "cl_connect ?s = cl_connect s" by (simp_all add: cl_tell_def)
    ultimately show ?thesis
      using fault Cl_Closed c cl_invD(4) [OF inv c(1)] by (simp add: cl_removeConnection_def Let_def split: if_splits)
  qed (use cn_step_fails [OF cn] fault in simp_all)
qed

interpretation client_run: accountable "\<lambda>err. err = Bad_Alloc"
  "\<lambda>s. cl_ok self s \<and> alloc_ok alloc \<and> fresh_ok fresh" cl_promised "cl_step alloc fresh e self" "cl_blame self"
  for self alloc fresh e
proof unfold_locales
  fix s :: "'a client" and ev
  assume ok: "cl_ok self s \<and> alloc_ok alloc \<and> fresh_ok fresh" and promise: "cl_promised ev s"
  show "barring (\<lambda>err. err = Bad_Alloc \<or> cl_blame self ev s err) (\<lambda>s. cl_ok self s \<and> alloc_ok alloc \<and> fresh_ok fresh)
      (cl_step alloc fresh e self ev s)"
  proof (cases "cl_fault self ev s")
    case None
    have "safe (\<lambda>s. cl_ok self s \<and> alloc_ok alloc \<and> fresh_ok fresh) (cl_step alloc fresh e self ev s)"
      by (rule barring_mono [OF cl_step_ok [OF _ promise None]]) (use ok in simp_all)
    then show ?thesis by (rule barring_errors) simp
  next
    case (Some err)
    then show ?thesis using cl_step_fails [OF conjunct1 [OF ok] promise Some] by (simp add: cl_blame_def)
  qed
  show "cl_step alloc fresh e self ev s = Inl err" if "cl_blame self ev s err" for err
    using that ok promise by (simp add: cl_blame_def cl_step_fails)
qed






section \<open>Properties\<close>

text \<open>C9: the sessions of a client, in any interleaving of its calls from any thread, of the close
  callbacks, and of the loop's work for the connector, retry timers that are out of date included.  A run
  stops early only when memory runs out, or at an event that starts the connector at the wrong time, and
  at each of those it does stop: \<open>connect\<close>, a queued start or a retry timer while the connector is not
  disconnected, or one of these, or the restart of a retrying client, while the channel of an earlier
  attempt is still there.  Otherwise every socket the connector handed over became one connection, in
  order; the connections have different names; each was started once and, unless it is the current
  one, afterwards stopped once; and only the last can be the current one, while the connector holds
  no socket of its own.\<close>

theorem client_sessions:
  assumes "cl_ok self s" "alloc_ok alloc" "fresh_ok fresh"
    and promises: "all_along cl_promised (cl_step alloc fresh e self) evs s"
  shows "case foldr_res (cl_step alloc fresh e self) evs s of
      Inl err \<Rightarrow> err = Bad_Alloc \<or> fails_at (cl_blame self) (cl_step alloc fresh e self) evs s err
    | Inr s' \<Rightarrow> map ci_fd (cl_conns s') = cn_handed s' \<and> distinct (map ci_name (cl_conns s')) \<and>
        (\<forall>c < length (cl_conns s'). lifecycle c s' =
           Cl_Established c # (if cl_connection s' = Some c then [] else [Cl_Destroyed c])) \<and>
        (case cl_connection s' of None \<Rightarrow> True
         | Some c \<Rightarrow> Suc c = length (cl_conns s') \<and> cn_state s' = cnConnected \<and> cn_open s' = {}) \<and>
        (\<forall>ev err. cl_promised ev s' \<and> cl_blame self ev s' err \<longrightarrow> cl_step alloc fresh e self ev s' = Inl err)"
proof -
  have run: "barring (\<lambda>err. err = Bad_Alloc \<or> fails_at (cl_blame self) (cl_step alloc fresh e self) evs s err)
      (\<lambda>s. cl_ok self s \<and> alloc_ok alloc \<and> fresh_ok fresh) (foldr_res (cl_step alloc fresh e self) evs s)"
    by (rule client_run.run_accounted [OF _ promises]) (use assms in blast)
  show ?thesis
  proof (cases "foldr_res (cl_step alloc fresh e self) evs s")
    case (Inr s')
    then have cn: "cn_ok False self s'" and inv: "cl_inv s'" using run by (simp_all add: cl_ok_def)
    note D = cl_invD [OF inv]
    have "ci_name (cl_conns s' ! i) \<noteq> ci_name (cl_conns s' ! j)"
      if "i < length (cl_conns s')" "j < length (cl_conns s')" "i \<noteq> j" for i j
      using name_of_inject D(5) that by (metis Suc_inject)
    then have "distinct (map ci_name (cl_conns s'))" by (simp add: distinct_conv_nth)
    moreover have "cn_open s' = {}" if "cn_state s' = cnConnected" using cn that by (simp add: cn_ok_def cn_link_def)
    moreover have "cl_step alloc fresh e self ev s' = Inl err" if "cl_promised ev s'" "cl_blame self ev s' err" for ev err
      using that cl_step_fails [of self s' ev err alloc fresh e] cn inv by (simp add: cl_blame_def cl_ok_def)
    ultimately show ?thesis using Inr D(3,6,8) by (auto split: option.split)
  qed (use run in simp)
qed

text \<open>A client cannot connect twice.  The state of the connector stays connected when the connection
  closes, so \<open>connect\<close>, called again while a connection is open or after it was closed, fails the
  assertion of \<open>startInLoop\<close>; only a client that retries by itself connects again.\<close>

theorem client_connect_again_fails:
  assumes "cl_ok self s" "cl_connection s = Some c" "\<not> cl_retry s"
  shows "client_connect alloc fresh handover self s = Inl (Assert_Failed ''startInLoop: state_'') \<and>
    bindr (cl_removeConnection alloc fresh self c s) (client_connect alloc fresh handover self) =
      Inl (Assert_Failed ''startInLoop: state_'')"
proof -
  have cn: "cn_ok False self s" and inv: "cl_inv s" using assms(1) by (simp_all add: cl_ok_def)
  note thread = cn_coreD(3) [OF cn_ok_core [OF cn]]
  have c: "c < length (cl_conns s)" "cn_state s = cnConnected" using cl_invD(8) [OF inv assms(2)] by simp_all
  have fails: "client_connect alloc fresh handover self u = Inl (Assert_Failed ''startInLoop: state_'')"
    if "threadId u = self" "cn_state u = cnConnected" for u
    using that by (simp add: client_connect_def cn_start_def runInLoop_def isInLoopThread_def cn_startInLoop_def ensure_def)
  have "cl_removeConnection alloc fresh self c s = Inr (cl_tell (Cl_Destroyed c) (s\<lparr>cl_connection := None\<rparr>))"
    using assms(2,3) cl_invD(4) [OF inv c(1)] by (simp add: cl_removeConnection_def cl_tell_def)
  then show ?thesis using fails thread c by (simp add: cl_tell_def)
qed



section \<open>Samples\<close>

definition sample_new_client :: "nat client" where
  "sample_new_client = new_TcpClient 1 2 ''cli'' (connector.extend (connector.truncate sample_idle)
     (client_ext [] None None None False False 1 None [] [] [(None, None)] ()))"

definition sample_client_fresh :: "nat client \<Rightarrow> cid option" where
  "sample_client_fresh s = (if chans s 7 = None then Some 7 else None)"

definition sample_client_addr :: "nat client \<Rightarrow> taddr option" where
  "sample_client_addr s = (if tq_heap s 6 = None then Some 6 else None)"

lemma sample_client_world: "alloc_ok sample_client_addr" "fresh_ok sample_client_fresh"
  by (auto simp: alloc_ok_def sample_client_addr_def UINTPTR_MAX_def fresh_ok_def sample_client_fresh_def)

text \<open>A connector with members of a user added is the connector it was.\<close>

lemma extend_connector_ok:
  fixes s :: connector
  assumes "cn_ok h self s"
  shows "cn_ok h self (connector.extend (connector.truncate s) m)"
proof -
  let ?s = "connector.extend (connector.truncate s) m"
  have f: "chans ?s = chans s" "pl_channels ?s = pl_channels s" "ctl_log ?s = ctl_log s"
      "event_capacity ?s = event_capacity s" "loop_id ?s = loop_id s" "threadId ?s = threadId s"
      "lp_eventHandling ?s = lp_eventHandling s" "pendingFunctors ?s = pendingFunctors s"
      "tq_heap ?s = tq_heap s" "numCreated ?s = numCreated s" "timers ?s = timers s"
      "activeTimers ?s = activeTimers s" "armed ?s = armed s" "cn_channel ?s = cn_channel s" "cn_state ?s = cn_state s"
      "cn_open ?s = cn_open s" "retryDelayMs ?s = retryDelayMs s"
      "newConnectionCallback_set ?s = newConnectionCallback_set s"
    by (simp_all add: connector.defs)
  have same: "loop_ok ?s = loop_ok s" "queue_ok (\<lambda>_. True) {} ?s = queue_ok (\<lambda>_. True) {} s"
    by (rule loop_ok_cong queue_ok_cong; simp only: f)+
  show ?thesis using assms unfolding cn_ok_def cn_core_def cn_link_def f same .
qed

lemma sample_new_client_ok: "cl_ok 1 sample_new_client" "cl_connection sample_new_client = None"
proof -
  show "cl_ok 1 sample_new_client"
    unfolding sample_new_client_def
    by (rule new_client_ok [OF extend_connector_ok [OF sample_idle_ok(1)]])
      (use sample_idle_ok(2,3) in \<open>simp_all add: connector.defs\<close>)
  show "cl_connection sample_new_client = None" by (simp add: sample_new_client_def new_TcpClient_def setNewConnectionCallback_def)
qed

lemma sample_client_fields:
  "cn_state sample_new_client = cnDisconnected" "cn_channel sample_new_client = None" "cn_open sample_new_client = {}"
  "cl_conns sample_new_client = []" "socket_answers sample_new_client = [12, 13]" "connect_answers sample_new_client = []"
  "pl_channels sample_new_client 12 = None" "pl_channels sample_new_client 13 = None" "chans sample_new_client 7 = None"
  "pendingFunctors sample_new_client = []"
proof -
  have f: "pl_channels sample_new_client = pl_channels sample_idle" "chans sample_new_client = chans sample_idle"
      "socket_answers sample_new_client = socket_answers sample_idle" "pendingFunctors sample_new_client = pendingFunctors sample_idle"
      "connect_answers sample_new_client = connect_answers sample_idle"
    by (simp_all add: sample_new_client_def new_TcpClient_def setNewConnectionCallback_def new_Connector_def connector.defs)
  show "pl_channels sample_new_client 12 = None" "pl_channels sample_new_client 13 = None" "chans sample_new_client 7 = None"
    "socket_answers sample_new_client = [12, 13]" "connect_answers sample_new_client = []"
    "pendingFunctors sample_new_client = []"
    by (simp_all add: f sample_idle_ok)
qed (simp_all add: sample_new_client_def new_TcpClient_def setNewConnectionCallback_def new_Connector_def)

text \<open>The client's first attempt waits for its socket.\<close>

lemma sample_client_connecting:
  obtains u where "cl_step sample_client_addr sample_client_fresh Little 1 (Cl_Connect 1) sample_new_client = Inr u"
    "cn_ok False 1 u" "cn_state u = cnConnecting" "cl_conns u = []" "next_socket_free u"
proof -
  note F = sample_client_fields
  have ok: "cn_ok False 1 sample_new_client" using sample_new_client_ok(1) by (simp add: cl_ok_def)
  let ?s = "sample_new_client\<lparr>cl_connect := True, cn_connect := True, socket_answers := [13], cn_open := {12}\<rparr>"
  have "threadId sample_new_client = 1" using cn_coreD(3) [OF cn_ok_core [OF ok]] .
  then have run: "cl_step sample_client_addr sample_client_fresh Little 1 (Cl_Connect 1) sample_new_client =
      cn_connecting sample_client_fresh 12 ?s"
    using F by (simp add: client_connect_def cn_start_def runInLoop_def isInLoopThread_def cn_startInLoop_def
      cn_connect_now_def createNonblockingOrDie_def sys_connect_def in_progress_def)
  have "cn_core 1 ?s" using cn_ok_core [of False 1 "sample_new_client\<lparr>cl_connect := True\<rparr>"] ok by simp
  from cn_connecting_run [OF this, of 12 sample_client_fresh 7]
  obtain u where u: "cn_connecting sample_client_fresh 12 ?s = Inr u" "cn_ok False 1 u" "cn_state u = cnConnecting"
      "socket_answers u = [13]" "cn_view u = cn_view ?s" "pl_channels u = (pl_channels ?s)(12 \<mapsto> 7)"
    using F sample_client_world(2) by (auto simp: sample_client_fresh_def cn_setState_def)
  have "cl_conns u = []" using cl_view(7) [OF u(5)] F(4) by simp
  moreover have "next_socket_free u" using u(4,6) F(8) by (simp add: next_socket_free_def)
  ultimately show thesis using that run u by simp
qed

theorem client_sessions_witness:
  "case foldr_res (cl_step sample_client_addr sample_client_fresh Little 1)
      [Cl_Connect 1, Cl_Enable_Retry, Cl_Loop (Cn_Io POLLOUT (Timestamp 6000000))] sample_new_client of
      Inl err \<Rightarrow> err = Bad_Alloc \<or> fails_at (cl_blame 1) (cl_step sample_client_addr sample_client_fresh Little 1)
        [Cl_Connect 1, Cl_Enable_Retry, Cl_Loop (Cn_Io POLLOUT (Timestamp 6000000))] sample_new_client err
    | Inr s' \<Rightarrow> map ci_fd (cl_conns s') = cn_handed s' \<and> distinct (map ci_name (cl_conns s'))"
proof -
  define evs where "evs = [Cl_Connect 1, Cl_Enable_Retry, Cl_Loop (Cn_Io POLLOUT (Timestamp 6000000))]"
  obtain u where u: "cl_step sample_client_addr sample_client_fresh Little 1 (Cl_Connect 1) sample_new_client = Inr u"
      "cn_ok False 1 u" "cn_state u = cnConnecting" "cl_conns u = []" "next_socket_free u"
    by (rule sample_client_connecting)
  have "cn_ok False 1 (cl_enableRetry u)" "cn_state (cl_enableRetry u) = cnConnecting"
    using u(2,3) by (simp_all add: cl_enableRetry_def)
  from cn_promised_io [OF this] have "cn_promised (Cn_Io POLLOUT (Timestamp 6000000)) (cl_enableRetry u)" .
  moreover have "next_socket_free sample_new_client" using sample_client_fields by (simp add: next_socket_free_def)
  moreover have "cl_conns (cl_enableRetry u) = []" using u(4) by (simp add: cl_enableRetry_def)
  ultimately have "all_along cl_promised (cl_step sample_client_addr sample_client_fresh Little 1) evs sample_new_client"
    using u(1) by (simp add: evs_def del: cn_promised.simps split: sum.split)
  note r = client_sessions [OF sample_new_client_ok(1) sample_client_world this]
  show ?thesis
    unfolding evs_def [symmetric]
    by (cases "foldr_res (cl_step sample_client_addr sample_client_fresh Little 1) evs sample_new_client")
      (use r in simp_all)
qed

text \<open>A client with an open connection.\<close>

definition sample_open_client :: "nat client" where
  "sample_open_client = sample_new_client\<lparr>cn_state := cnConnected, cn_handed := [12], cl_nextConnId := 2,
     cl_connection := Some 0, cl_told := [Cl_Established 0],
     cl_conns := [\<lparr>ci_name = ''cli:127.0.0.1:80#1'', ci_loop = loop_id sample_new_client, ci_fd = 12, cc_localAddr = zero_addr,
       cc_peerAddr = zero_addr, cc_connectionCallback = Some 1, cc_messageCallback = Some 2, cc_writeCompleteCallback = None\<rparr>]\<rparr>"

lemma sample_open_client_ok: "cl_ok 1 sample_open_client"
proof -
  have new: "cl_name sample_new_client = ''cli''" "cn_state sample_new_client = cnDisconnected"
    by (simp_all add: sample_new_client_def new_TcpClient_def setNewConnectionCallback_def new_Connector_def)
  have link: "cn_ok False 1 sample_new_client" using sample_new_client_ok(1) by (simp add: cl_ok_def)
  have "cn_ok False 1 (sample_new_client\<lparr>cn_state := cnConnected, cn_handed := [12]\<rparr>)"
    using link new(2) by (simp add: cn_ok_def) (simp add: cn_link_def)
  moreover have "name_of ''cli'' 1 ''cli:127.0.0.1:80#1''"
    unfolding name_of_def by (rule exI [of _ "''127.0.0.1:80''"]) (simp add: dec_nat.simps digit_def char_of_def bit_0)
  ultimately show ?thesis
    by (simp add: sample_open_client_def cl_ok_def cl_inv_def new lifecycle_def)
qed

theorem client_connect_again_fails_witness:
  "bindr (cl_removeConnection sample_client_addr sample_client_fresh 1 0 sample_open_client)
     (client_connect sample_client_addr sample_client_fresh (cl_newConnection Little) 1) =
   Inl (Assert_Failed ''startInLoop: state_'')"
proof -
  have "cl_connection sample_open_client = Some 0" "\<not> cl_retry sample_open_client"
    by (simp_all add: sample_open_client_def sample_new_client_def new_TcpClient_def setNewConnectionCallback_def)
  then show ?thesis using client_connect_again_fails [OF sample_open_client_ok] by blast
qed


end
