(* ===== verification/LoopChannels.thy ===== *)
theory LoopChannels
  imports ConnectionRuns
begin

text \<open>
  The channels of a real loop with a connection: the connection's, the loop's own for its wakeup
  descriptor, and the timer queue's.  How the loop calls what it polls and queues, what the two
  channels of the loop do when they are dispatched, and that every channel reported is dispatched
  without a fault.
\<close>

section \<open>Running calls by their kind\<close>

text \<open>
  A read callback takes the time of the poll, every other one nothing.  In the code the types of
  the callbacks see to it; here a call of the wrong kind fails, as one of an empty function would.
  \<open>clocks\<close> gives, for the time of a poll, the clock when \<open>TimerQueue::handleRead\<close> then starts and
  when it sets the descriptor again.
\<close>

type_synonym clocks = "timestamp \<Rightarrow> timestamp \<times> timestamp"

fun loop_task ::
  "('u, 'm) app \<Rightarrow> clocks \<Rightarrow> nat \<Rightarrow> 'u task call \<Rightarrow> ('u, 'm) conn \<Rightarrow> ('u, 'm) conn res" where
  "loop_task app clocks self (Run_Read Loop_Read t) s = Inr (loop_handleRead s)"
| "loop_task app clocks self (Run_Read Timer_Read t) s =
     tq_handleRead (run_task app self) (fst (clocks t)) (snd (clocks t)) s"
| "loop_task app clocks self (Run_Read Conn_Handle_Read t) s = run_task app self (Run_Read Conn_Handle_Read t) s"
| "loop_task app clocks self (Run_Read f t) s = Inl Bad_Function_Call"
| "loop_task app clocks self (Run Loop_Read) s = Inl Bad_Function_Call"
| "loop_task app clocks self (Run Timer_Read) s = Inl Bad_Function_Call"
| "loop_task app clocks self (Run Conn_Handle_Read) s = Inl Bad_Function_Call"
| "loop_task app clocks self k s = run_task app self k s"

lemma loop_task_serves: "serves app self (loop_task app clocks self)"
proof -
  have "loop_task app clocks self (Run f) s = run_task app self (Run f) s" if "task_ok f" for f s
    using that by (cases f) simp_all
  then show ?thesis by (simp add: serves_def)
qed

lemma loop_handleRead_framed [simp]: "own_only stay s (loop_handleRead s') = own_only stay s s'"
  by (simp add: loop_handleRead_def)

lemma loop_task_framed:
  assumes app: "app_ok self app"
  shows "framed stay s (loop_task app clocks self k s)"
proof -
  have "framed stay s (loop_task app clocks self (Run f) s)" for f
    using run_task_framed [OF app, of stay s "Run f"] by (cases f) simp_all
  moreover have "framed stay s (loop_task app clocks self (Run_Read f t) s)" for f t
    using run_task_framed [OF app, of stay s "Run_Read f t"]
      tq_handleRead_framed [where exec = "run_task app self" and s = s, OF run_task_framed [OF app], of stay "fst (clocks t)" "snd (clocks t)"] by (cases f) simp_all
  moreover have "framed stay s (loop_task app clocks self (Destroy obj) s)" for obj
    using run_task_framed [OF app, of stay s "Destroy obj"] by simp
  ultimately show ?thesis by (cases k) simp_all
qed

lemma fire_framed: "(\<And>k s. framed stay s (exec k s)) \<Longrightarrow> framed stay s (fire exec c g cb s)"
  by (cases "chans s c"; cases "cb (the (chans s c))") (simp_all add: fire_def chan_def)

lemma upd_chan_framed: "tc_channel s = c \<Longrightarrow> framed stay s (upd_chan c g s)"
  using framed_own(3) by blast

lemma handleEvent_framed:
  assumes exec: "\<And>k s. framed stay s (exec k s)"
  shows "framed stay s (handleEvent exec (tc_channel s) t s)"
proof -
  have guard: "framed stay s (handleEventWithGuard exec c t s)" if "tc_channel s = c" for c s
    unfolding handleEventWithGuard_def
    by (rule framed_seq [OF upd_chan_framed]) (use that in \<open>auto intro!: framed_seq fire_framed exec upd_chan_framed
      dest!: own_only_channel\<close>)
  have "framed stay s (bindr (handleEventWithGuard exec (tc_channel s) t (lock_ptr obj s)) (release_ptr exec obj))" for obj
    by (rule framed_from [of _ _ "lock_ptr obj s"], simp, rule framed_seq [OF guard])
      (simp_all add: lock_ptr_def release_framed [OF exec])
  then show ?thesis using guard by (simp add: handleEvent_def chan_def split: option.split)
qed

lemma handle_active_framed:
  assumes "\<And>k s. framed stay s (exec k s)" "tc_channel s = c"
  shows "framed stay s (handle_active exec c s)"
  unfolding handle_active_def Let_def
  by (rule framed_from [of _ _ "s\<lparr>currentActiveChannel := Some c\<rparr>"])
    (use handleEvent_framed [OF assms(1), of "s\<lparr>currentActiveChannel := Some c\<rparr>"] assms(2) in \<open>simp_all add: own_only_def\<close>)

lemma doPendingFunctors_framed:
  assumes exec: "\<And>k s. framed stay s (exec k s)"
  shows "framed stay s (doPendingFunctors exec s)"
proof -
  let ?s = "s\<lparr>callingPendingFunctors := True, pendingFunctors := []\<rparr>"
  have "framed stay s (foldr_res (\<lambda>f. exec (Run f)) fs ?s)" for fs
    by (rule barring_foldr_res) (auto intro: framed_from [OF _ exec])
  then have "framed stay s (bindr (foldr_res (\<lambda>f. exec (Run f)) fs ?s) (\<lambda>s. Inr (s\<lparr>callingPendingFunctors := False\<rparr>)))" for fs
    by (rule barring_bindr) simp
  then show ?thesis by (simp add: doPendingFunctors_def)
qed

section \<open>The channels of the loop\<close>

text \<open>A channel of the loop itself, registered: its read callback is the given one, and it watches for reading.\<close>

definition of_loop :: "'u task \<Rightarrow> 'u task channel \<Rightarrow> bool" where
  "of_loop f ch \<longleftrightarrow> readCallback ch = Some f \<and> writeCallback ch = None \<and> closeCallback ch = None \<and>
     errorCallback ch = None \<and> \<not> tied ch \<and> ch_events ch = kReadEvent"

definition posted :: "'u task \<Rightarrow> cid \<Rightarrow> ('u, 'm) conn \<Rightarrow> bool" where
  "posted f c s \<longleftrightarrow> (\<exists>ch. chans s c = Some ch \<and> of_loop f ch \<and> pl_channels s (ch_fd ch) = Some c)"

definition crew :: "('u, 'm) conn \<Rightarrow> bool" where
  "crew s \<longleftrightarrow> distinct [wakeupChannel s, timerfdChannel s, tc_channel s] \<and>
     posted Loop_Read (wakeupChannel s) s \<and> posted Timer_Read (timerfdChannel s) s \<and>
     (\<forall>fd c. pl_channels s fd = Some c \<longrightarrow> c \<in> {wakeupChannel s, timerfdChannel s, tc_channel s})"

lemma posted_own: "posted f c s \<Longrightarrow> own_only stay s s' \<Longrightarrow> c \<noteq> tc_channel s \<Longrightarrow> posted f c s'"
  by (auto simp: posted_def own_only_def)

lemma crew_own:
  assumes "crew s" "own_only stay s s'"
  shows "crew s'"
proof -
  have names: "wakeupChannel s' = wakeupChannel s" "timerfdChannel s' = timerfdChannel s" "tc_channel s' = tc_channel s"
    using assms(2) by (simp_all add: own_only_def)
  moreover have "c \<in> {wakeupChannel s, timerfdChannel s, tc_channel s}" if "pl_channels s' fd = Some c" for fd c
    using that assms unfolding crew_def own_only_def by blast
  ultimately show ?thesis using assms(1) posted_own [OF _ assms(2)] by (simp add: crew_def)
qed

lemma crew_fields [simp]:
  "crew (s\<lparr>activeChannels := x1\<rparr>) = crew s" "crew (s\<lparr>pollReturnTime := x2\<rparr>) = crew s"
  "crew (s\<lparr>lp_eventHandling := x3\<rparr>) = crew s" "crew (s\<lparr>currentActiveChannel := x4\<rparr>) = crew s"
  "crew (s\<lparr>event_capacity := x5\<rparr>) = crew s" "crew (s\<lparr>looping := x6\<rparr>) = crew s" "crew (s\<lparr>quit_flag := x7\<rparr>) = crew s"
  by (simp_all add: crew_def posted_def)

lemma loop_ok_round [simp]:
  "loop_ok (s\<lparr>activeChannels := x1\<rparr>) = loop_ok s" "loop_ok (s\<lparr>pollReturnTime := x2\<rparr>) = loop_ok s"
  "loop_ok (s\<lparr>lp_eventHandling := x3\<rparr>) = loop_ok s" "loop_ok (s\<lparr>currentActiveChannel := x4\<rparr>) = loop_ok s"
  "loop_ok (s\<lparr>looping := x5\<rparr>) = loop_ok s" "loop_ok (s\<lparr>quit_flag := x6\<rparr>) = loop_ok s"
  by (rule loop_ok_cong; simp)+

lemma conn_ok_round [simp]:
  "conn_ok self (s\<lparr>activeChannels := x1\<rparr>) = conn_ok self s" "conn_ok self (s\<lparr>pollReturnTime := x2\<rparr>) = conn_ok self s"
  "conn_ok self (s\<lparr>lp_eventHandling := x3\<rparr>) = conn_ok self s"
  "conn_ok self (s\<lparr>currentActiveChannel := x4\<rparr>) = conn_ok self s"
  "conn_ok self (s\<lparr>looping := x5\<rparr>) = conn_ok self s" "conn_ok self (s\<lparr>quit_flag := x6\<rparr>) = conn_ok self s"
  by (simp_all add: conn_ok_def callbacks_set_def memory_ok_def)

lemma advances_round [simp]:
  "advances self s (s'\<lparr>activeChannels := x1\<rparr>) = advances self s s'" "advances self s (s'\<lparr>pollReturnTime := x2\<rparr>) = advances self s s'"
  "advances self s (s'\<lparr>lp_eventHandling := x3\<rparr>) = advances self s s'"
  "advances self s (s'\<lparr>currentActiveChannel := x4\<rparr>) = advances self s s'"
  by (simp_all add: advances_def taken_def)

text \<open>Changes of channels that their owners do not see.\<close>

definition quiet_change :: "('u, 'm) conn \<Rightarrow> ('u, 'm) conn \<Rightarrow> bool" where
  "quiet_change s s' \<longleftrightarrow> poller_ok s' \<and> (\<exists>h cap n. s' = s\<lparr>chans := h, event_capacity := cap, eventfd_count := n\<rparr>) \<and>
     (\<forall>c. rel_option same_channel (chans s c) (chans s' c))"

lemma quiet_fields:
  assumes "quiet_change s s'"
  shows "tc_channel s' = tc_channel s" "tc_state s' = tc_state s" "lp_eventHandling s' = lp_eventHandling s"
    "wakeupChannel s' = wakeupChannel s" "timerfdChannel s' = timerfdChannel s" "timer_state s' = timer_state s"
    "pl_channels s' = pl_channels s"
  using assms by (auto simp: quiet_change_def)

lemma quiet_posted:
  assumes q: "quiet_change s s'" and p: "posted f c s"
  shows "posted f c s'"
proof -
  obtain ch where ch: "chans s c = Some ch" "of_loop f ch" "pl_channels s (ch_fd ch) = Some c" using p by (auto simp: posted_def)
  moreover obtain ch' where ch': "chans s' c = Some ch'" "same_channel ch ch'"
    using q ch(1) by (metis option_rel_Some1 quiet_change_def)
  moreover have "of_loop f ch'" using ch(2) by (subst ch'(2) [unfolded same_channel_def]) (simp add: of_loop_def)
  ultimately show ?thesis using same_channelD(1) [OF ch'(2)] quiet_fields(7) [OF q] by (simp add: posted_def)
qed

lemma quiet_crew: "quiet_change s s' \<Longrightarrow> crew s \<Longrightarrow> crew s'"
  by (simp add: crew_def quiet_posted quiet_fields)

lemma quiet_change_ok:
  assumes q: "quiet_change s s'" and ok: "conn_ok self s"
  shows "conn_ok self s'" "advances self s s'"
proof -
  obtain h cap n where s': "s' = s\<lparr>chans := h, event_capacity := cap, eventfd_count := n\<rparr>" using q by (auto simp: quiet_change_def)
  have rel: "rel_option same_channel (chans s c) (chans s' c)" for c using q by (simp add: quiet_change_def)
  have same: "\<exists>ch. chans s c = Some ch \<and> same_channel ch ch'" if "chans s' c = Some ch'" for c ch'
    using rel that by (metis option_rel_Some2)
  have fwd: "\<exists>ch'. chans s' c = Some ch' \<and> same_channel ch ch'" if "chans s c = Some ch" for c ch
    using rel that by (metis option_rel_Some1)
  have lok: "loop_ok s'"
    unfolding loop_ok_def
  proof (intro conjI allI impI)
    show "poller_ok s'" using q by (simp add: quiet_change_def)
  next
    fix c ch' assume "chans s' c = Some ch'"
    then obtain ch where ch: "chans s c = Some ch" "same_channel ch ch'" using same by blast
    note sd = same_channelD [OF ch(2)]
    show "ch_loop ch' = loop_id s'" "addedToLoop ch' = (pl_channels s' (ch_fd ch') = Some c)"
      using loop_okD(2,3) [OF conn_okD(1) [OF ok] ch(1)] sd by (simp_all add: s')
  qed
  obtain ch where ch: "chans s (tc_channel s) = Some ch"
      "link_ok (tc_state s) (contents (outputBuffer s)) (tc_obj s) (tc_channel s) (pl_channels s) ch"
    by (rule conn_channel [OF ok])
  obtain ch' where ch': "chans s' (tc_channel s) = Some ch'" "same_channel ch ch'" using fwd [OF ch(1)] by blast
  note sd = same_channelD [OF ch'(2)]
  have "link_ok (tc_state s) (contents (outputBuffer s)) (tc_obj s) (tc_channel s) (pl_channels s) ch'"
    using ch(2) sd by (simp add: link_ok_def isNoneEvent_def isReading_def isWriting_def split: conn_state.splits)
  then show ok': "conn_ok self s'"
    using ok lok ch'(1) by (simp add: conn_ok_def callbacks_set_def memory_ok_def) (simp add: s')
  show "advances self s s'" using ok' by (simp add: advances_def) (simp add: s' taken_def)
qed

lemma same_channel_refl [simp]: "same_channel ch ch"
  by (simp add: same_channel_def)

lemma put_chan_quiet:
  assumes ok: "conn_ok self s" and ch: "chans s c = Some ch" and same: "same_channel ch ch'"
  shows "quiet_change s (put_chan c ch' s)"
proof -
  have "loop_ok (put_chan c ch' s)"
    by (rule put_chan_loop_ok [OF conn_okD(1) [OF ok] ch same_channelD(1-5) [OF same]])
  then have "poller_ok (put_chan c ch' s)" by (rule loop_okD)
  moreover have "rel_option same_channel (chans s d) (chans (put_chan c ch' s) d)" for d
    using ch same by (cases "chans s d") (auto simp: put_chan_def)
  moreover have "put_chan c ch' s = s\<lparr>chans := (chans s)(c \<mapsto> ch'), event_capacity := event_capacity s, eventfd_count := eventfd_count s\<rparr>"
    by (cases s) (simp add: put_chan_def)
  ultimately show ?thesis unfolding quiet_change_def by blast
qed

section \<open>The timers of the loop\<close>

text \<open>
  What runs on a timer: a function of the user, or the delayed \<open>forceClose\<close>.  The application's
  callbacks call the connection, and add or cancel no timers.
\<close>

definition timer_task :: "'u task \<Rightarrow> bool" where
  "timer_task f \<longleftrightarrow> f = Force_Close_Weak \<or> (\<exists>u. f = User u)"

definition timers_ok :: "(timestamp \<Rightarrow> bool) \<Rightarrow> taddr set \<Rightarrow> ('u, 'm) conn \<Rightarrow> bool" where
  "timers_ok D X s \<longleftrightarrow> queue_ok D X s \<and> timer_callbacks timer_task s"

lemma timers_ok_cong: "timer_state s' = timer_state s \<Longrightarrow> timers_ok D X s' = timers_ok D X s"
  by (simp add: timers_ok_def timer_state_def queue_ok_def tq_ok_def seq_of_def set_for_def timer_callbacks_def)

text \<open>\<open>advances\<close>, with the timers free to change, and what else the channels of the loop respect.\<close>

definition proceeds :: "nat \<Rightarrow> ('u, 'm) conn \<Rightarrow> ('u, 'm) conn \<Rightarrow> bool" where
  "proceeds self s s' \<longleftrightarrow>
     conn_ok self s' \<and> tc_channel s' = tc_channel s \<and> tc_obj s' = tc_obj s \<and> use_count s' = use_count s \<and>
     rank (tc_state s) \<le> rank (tc_state s') \<and> prefix (taken s) (taken s') \<and> prefix (trace s) (trace s')"

lemma proceeds_refl: "conn_ok self s \<Longrightarrow> proceeds self s s"
  by (simp add: proceeds_def)

lemma proceeds_trans: "proceeds self s t \<Longrightarrow> proceeds self t u \<Longrightarrow> proceeds self s u"
  unfolding proceeds_def by (auto intro: prefix_order.trans)

lemma proceeds_ok: "proceeds self s s' \<Longrightarrow> conn_ok self s'"
  by (simp add: proceeds_def)

lemma proceeds_up: "proceeds self s s' \<Longrightarrow> tc_state s \<noteq> kConnecting \<Longrightarrow> tc_state s' \<noteq> kConnecting"
  unfolding proceeds_def by (metis le_zero_eq rank_0)

lemma advances_proceeds: "advances self s s' \<longleftrightarrow> proceeds self s s' \<and> timer_state s' = timer_state s"
  by (auto simp: advances_def proceeds_def)

definition undisturbed :: "nat \<Rightarrow> ('u, 'm) conn \<Rightarrow> ('u, 'm) conn \<Rightarrow> bool" where
  "undisturbed self s s' \<longleftrightarrow> proceeds self s s' \<and> wakeupChannel s' = wakeupChannel s \<and> timerfdChannel s' = timerfdChannel s \<and>
     (live s \<longrightarrow> live s') \<and>
     map_option ch_revents (chans s' (tc_channel s)) = map_option ch_revents (chans s (tc_channel s))"

lemma undisturbed_trans: "undisturbed self s t \<Longrightarrow> undisturbed self t u \<Longrightarrow> undisturbed self s u"
  unfolding undisturbed_def by (auto simp: proceeds_def intro: prefix_order.trans)

lemma quiet_undisturbed:
  assumes "quiet_change s s'" "conn_ok self s" "chans s' (tc_channel s) = chans s (tc_channel s)"
  shows "undisturbed self s s'"
  using quiet_change_ok [OF assms(1,2)] quiet_fields [OF assms(1)] assms(3)
  by (simp add: undisturbed_def advances_proceeds live_def)

text \<open>The fields of the queue are no concern of the connection.\<close>

lemma loop_ok_timers [simp]:
  "loop_ok (s\<lparr>tq_heap := x1\<rparr>) = loop_ok s" "loop_ok (s\<lparr>numCreated := x2\<rparr>) = loop_ok s" "loop_ok (s\<lparr>timers := x3\<rparr>) = loop_ok s"
  "loop_ok (s\<lparr>activeTimers := x4\<rparr>) = loop_ok s" "loop_ok (s\<lparr>callingExpiredTimers := x5\<rparr>) = loop_ok s"
  "loop_ok (s\<lparr>cancelingTimers := x6\<rparr>) = loop_ok s" "loop_ok (s\<lparr>armed := x7\<rparr>) = loop_ok s"
  by (rule loop_ok_cong; simp)+

lemma outside_kept:
  assumes "outside_queue s' = outside_queue s"
  shows "conn_ok self s' = conn_ok self s" "proceeds self t s' = proceeds self t s" "undisturbed self t s' = undisturbed self t s"
    "tc_state s' = tc_state s"
  by (subst outside_queue_eqD [OF assms], simp add: conn_ok_def callbacks_set_def memory_ok_def proceeds_def undisturbed_def
    taken_def live_def)+

text \<open>Polling stores what happened in the channels reported.\<close>

lemma fill_loop_frame: "fill_loop evs active s = Inr (active', s') \<Longrightarrow> \<exists>h. s' = s\<lparr>chans := h\<rparr>"
proof (induction evs active s rule: fill_loop.induct)
  case (1 active s)
  then have "s' = s\<lparr>chans := chans s\<rparr>" by simp
  then show ?case by (rule exI [of _ "chans s"])
next
  case (2 ev c evs active s)
  then show ?case
    by (fastforce simp: chan_def upd_chan_def put_chan_def ensure_def split: option.splits if_splits)
qed

lemma poll_quiet:
  assumes ok: "conn_ok self s" and kernel: "kernel_answers s evs"
  shows "\<exists>s'. ep_poll now (Ready evs) [] s = Inr (now, map snd evs, s') \<and> quiet_change s s' \<and>
    eventfd_count s' = eventfd_count s \<and>
    (\<forall>ev c. (ev, c) \<in> set evs \<longrightarrow> chans s' c = map_option (set_revents ev) (chans s c))"
proof -
  obtain s' where s': "ep_poll now (Ready evs) [] s = Inr (now, map snd evs, s')" "poller_ok s'"
      "\<And>c. chans s' c = (case map_of (map prod.swap evs) c of
        None \<Rightarrow> chans s c | Some ev \<Rightarrow> map_option (set_revents ev) (chans s c))"
    using ep_poll_ready [OF loop_okD(1) [OF conn_okD(1) [OF ok]] kernel, of now "[]"] by auto
  have "\<exists>h cap. s' = s\<lparr>chans := h, event_capacity := cap\<rparr>"
  proof (cases "evs = []")
    case True
    then have "s' = s\<lparr>chans := chans s, event_capacity := event_capacity s\<rparr>" using s'(1) by (simp add: ep_poll_def)
    then show ?thesis by blast
  next
    case False
    then obtain u where u: "fill_loop evs [] s = Inr (map snd evs, u)"
        "s' = (if length evs = event_capacity u then u\<lparr>event_capacity := event_capacity u * 2\<rparr> else u)"
    proof (cases "fill_loop evs [] s")
      case (Inl e)
      then show ?thesis using False s'(1) by (simp add: ep_poll_def fillActiveChannels_def ensure_def split: if_splits)
    next
      case (Inr p)
      obtain act u where p: "p = (act, u)" by (cases p)
      have "act = map snd evs \<and> s' = (if length evs = event_capacity u then u\<lparr>event_capacity := event_capacity u * 2\<rparr> else u)"
        using False s'(1) Inr p kernel by (simp add: ep_poll_def fillActiveChannels_def ensure_def kernel_answers_def)
      then show ?thesis using that Inr p by blast
    qed
    obtain h where "u = s\<lparr>chans := h\<rparr>" using fill_loop_frame [OF u(1)] by blast
    then have "s' = s\<lparr>chans := h, event_capacity := event_capacity s'\<rparr>" using u(2) by (cases s) auto
    then show ?thesis by blast
  qed
  then obtain h cap where h: "s' = s\<lparr>chans := h, event_capacity := cap\<rparr>" by blast
  have "rel_option same_channel (chans s c) (chans s' c)" for c
    unfolding s'(3) by (cases "chans s c") (auto simp: same_channel_def set_revents_def split: option.split)
  moreover have "s' = s\<lparr>chans := h, event_capacity := cap, eventfd_count := eventfd_count s\<rparr>" using h by (cases s) simp
  ultimately have "quiet_change s s'" using s'(2) unfolding quiet_change_def by blast
  moreover have "chans s' c = map_option (set_revents ev) (chans s c)" if "(ev, c) \<in> set evs" for ev c
  proof -
    have "distinct (map fst (map prod.swap evs))" using kernel by (simp add: kernel_answers_def comp_def)
    moreover have "(c, ev) \<in> set (map prod.swap evs)" using that by force
    ultimately have "map_of (map prod.swap evs) c = Some ev" by (simp only: map_of_eq_Some_iff)
    then show ?thesis by (simp add: s'(3))
  qed
  ultimately show ?thesis using s'(1) h by auto
qed

section \<open>Dispatching the loop's own channels\<close>

definition in_shape :: "('u, 'm) conn \<Rightarrow> bool" where
  "in_shape s \<longleftrightarrow> crew s \<and> timers_ok (\<lambda>_. True) {} s"

lemma quiet_shape: "quiet_change s s' \<Longrightarrow> in_shape s \<Longrightarrow> in_shape s'"
  using timers_ok_cong [OF quiet_fields(6), of s s'] by (simp add: in_shape_def quiet_crew)

lemma timers_ok_fields [simp]:
  "timers_ok D X (s\<lparr>activeChannels := x1\<rparr>) = timers_ok D X s" "timers_ok D X (s\<lparr>pollReturnTime := x2\<rparr>) = timers_ok D X s"
  "timers_ok D X (s\<lparr>lp_eventHandling := x3\<rparr>) = timers_ok D X s"
  "timers_ok D X (s\<lparr>currentActiveChannel := x4\<rparr>) = timers_ok D X s"
  "timers_ok D X (s\<lparr>looping := x5\<rparr>) = timers_ok D X s" "timers_ok D X (s\<lparr>quit_flag := x6\<rparr>) = timers_ok D X s"
  by (rule timers_ok_cong; simp)+

lemma in_shape_fields [simp]:
  "in_shape (s\<lparr>activeChannels := x1\<rparr>) = in_shape s" "in_shape (s\<lparr>pollReturnTime := x2\<rparr>) = in_shape s"
  "in_shape (s\<lparr>lp_eventHandling := x3\<rparr>) = in_shape s" "in_shape (s\<lparr>currentActiveChannel := x4\<rparr>) = in_shape s"
  "in_shape (s\<lparr>looping := x6\<rparr>) = in_shape s" "in_shape (s\<lparr>quit_flag := x7\<rparr>) = in_shape s"
  by (simp_all add: in_shape_def)

text \<open>A channel of the loop has a read callback only, and it is not tied.\<close>

lemma own_dispatch:
  fixes s :: "('u, 'm) conn"
  assumes ok: "conn_ok self s" and shape: "in_shape s" and p: "posted f c s" and c: "c \<noteq> tc_channel s"
    and run: "\<And>s1 :: ('u, 'm) conn. quiet_change s s1 \<Longrightarrow>
      limited (\<lambda>u. undisturbed self s1 u \<and> chans u c = chans s1 c \<and> in_shape u) (exec (Run_Read f t) s1)"
  shows "limited (\<lambda>u. undisturbed self s u \<and> in_shape u) (handleEvent exec c t s)"
proof -
  obtain ch where ch: "chans s c = Some ch" "of_loop f ch" using p by (auto simp: posted_def)
  let ?ch = "ch\<lparr>ch_eventHandling := True\<rparr>"
  define s1 where "s1 = put_chan c ?ch s"
  have q1: "quiet_change s s1" unfolding s1_def by (rule put_chan_quiet [OF ok ch(1)]) (simp add: same_channel_def)
  have u1: "undisturbed self s s1" by (rule quiet_undisturbed [OF q1 ok]) (use c in \<open>simp add: s1_def put_chan_def\<close>)
  have c1: "chans s1 c = Some ?ch" by (simp add: s1_def put_chan_def)
  have all: "handleEvent exec c t s =
      bindr (if has (ch_revents ch) (POLLIN OR POLLPRI OR POLLRDHUP) then exec (Run_Read f t) s1 else Inr s1) (\<lambda>s.
        bindr (fire exec c (\<lambda>r. has r POLLOUT) (\<lambda>ch. map_option Run (writeCallback ch)) s) (\<lambda>s.
        upd_chan c (ch_eventHandling_update (\<lambda>_. False)) s))"
    using ch c1 by (simp add: handleEvent_def handleEventWithGuard_def upd_chan_def chan_def s1_def [symmetric] of_loop_def)
      (simp add: fire_def chan_def)
  have "limited (\<lambda>u. undisturbed self s1 u \<and> chans u c = chans s1 c \<and> in_shape u)
      (if has (ch_revents ch) (POLLIN OR POLLPRI OR POLLRDHUP) then exec (Run_Read f t) s1 else Inr s1)"
    using run [OF q1] quiet_shape [OF q1 shape] u1 by (simp add: undisturbed_def proceeds_def)
  then show ?thesis
    unfolding all
  proof (rule barring_bindr)
    fix u :: "('u, 'm) conn" assume u: "undisturbed self s1 u \<and> chans u c = chans s1 c \<and> in_shape u"
    have uok: "conn_ok self u" using u by (simp add: undisturbed_def proceeds_def)
    let ?u = "put_chan c (?ch\<lparr>ch_eventHandling := False\<rparr>) u"
    have q: "quiet_change u ?u" by (rule put_chan_quiet [OF uok]) (use u c1 in \<open>simp_all add: same_channel_def\<close>, cases ch, simp)
    have su: "undisturbed self s u" using undisturbed_trans [OF u1] u by blast
    then have "tc_channel u = tc_channel s" by (simp add: undisturbed_def proceeds_def)
    then have "undisturbed self u ?u" by (intro quiet_undisturbed [OF q uok]) (use c in \<open>simp add: put_chan_def\<close>)
    then have "undisturbed self s ?u \<and> in_shape ?u" using undisturbed_trans [OF su] quiet_shape [OF q] u by blast
    then show "limited (\<lambda>u. undisturbed self s u \<and> in_shape u)
        (bindr (fire exec c (\<lambda>r. has r POLLOUT) (\<lambda>ch. map_option Run (writeCallback ch)) u)
          (\<lambda>s. upd_chan c (ch_eventHandling_update (\<lambda>_. False)) s))"
      using ch(2) u c1 by (simp add: fire_def chan_def upd_chan_def of_loop_def)
  qed
qed

text \<open>The wakeup channel empties the counter behind it.\<close>

lemma wake_dispatch:
  assumes ok: "conn_ok self s" and shape: "in_shape s"
  shows "limited (\<lambda>u. undisturbed self s u \<and> in_shape u) (handleEvent (loop_task app clocks self) (wakeupChannel s) t s)"
proof (rule own_dispatch [OF ok shape])
  show "posted Loop_Read (wakeupChannel s) s" "wakeupChannel s \<noteq> tc_channel s" using shape by (simp_all add: in_shape_def crew_def)
  fix s1 assume q1: "quiet_change s s1"
  let ?u = "loop_handleRead s1"
  have ok1: "conn_ok self s1" by (rule quiet_change_ok [OF q1 ok])
  have "watched ?u = watched s1" by (rule ext) (simp add: loop_handleRead_def watched_def cong: option.case_cong)
  then have "poller_ok ?u = poller_ok s1" by (simp add: loop_handleRead_def poller_ok_def entry_ok_def)
  moreover have "?u = s1\<lparr>chans := chans s1, event_capacity := event_capacity s1, eventfd_count := 0\<rparr>"
    by (cases s1) (simp add: loop_handleRead_def)
  moreover have "rel_option same_channel (chans s1 c) (chans ?u c)" for c
    by (cases "chans s1 c") (simp_all add: loop_handleRead_def)
  ultimately have q: "quiet_change s1 ?u" using loop_okD(1) [OF conn_okD(1) [OF ok1]] unfolding quiet_change_def by blast
  have "undisturbed self s1 ?u" by (rule quiet_undisturbed [OF q ok1]) (simp add: loop_handleRead_def)
  then show "limited (\<lambda>u. undisturbed self s1 u \<and> chans u (wakeupChannel s) = chans s1 (wakeupChannel s) \<and> in_shape u)
      (loop_task app clocks self (Run_Read Loop_Read t) s1)"
    using quiet_shape [OF q quiet_shape [OF q1 shape]] by (simp add: loop_handleRead_def)
qed

text \<open>A callback of a timer only calls the interface.\<close>

lemma timer_task_ok:
  assumes app: "app_ok self app" and ok: "conn_ok self s" and st: "tc_state s \<noteq> kConnecting" and f: "timer_task f"
  shows "limited (\<lambda>u. evolves self s u \<and> (live s \<longrightarrow> live u)) (run_task app self (Run f) s)"
proof (cases "f = Force_Close_Weak")
  case True
  note n = conn_okD(4) [OF ok]
  let ?l = "lock_ptr (tc_obj s) s"
  have k: "kept self ?l (forceClose self ?l)" by (rule forceClose_kept [OF conn_ok_lock [OF ok]])
  from guard_evolves [OF kept_evolves [OF k] n n] obtain u where
    u: "release_ptr (\<lambda>_. delete_TcpConnection self) (tc_obj s) (forceClose self ?l) = Inr u" "evolves self s u"
      "tc_state u = tc_state (forceClose self ?l)"
    by blast
  have "live s \<longrightarrow> live u" using u(3) k by (auto simp: live_def kept_def api_frame_def lock_ptr_def)
  then show ?thesis using True n u by (simp add: weak_callback_def)
next
  case False
  then obtain v where v: "f = User v" using f by (auto simp: timer_task_def)
  have "phase_ok (tc_state s) (trace s @ [On_User v])" by (rule phase_ok_push [OF conn_okD(9) [OF ok] _ st]) simp
  from call_back_evolves [where k = On_User and u = v, OF app ok this]
  have "limited (\<lambda>u. evolves self s u \<and> (live s \<longrightarrow> live u)) (call_back app On_User (Some v) s)"
    by (rule barring_mono) (auto simp: api_frame_def live_def)
  then show ?thesis by (simp add: v)
qed

text \<open>The timer channel runs what is due and sets the descriptor again.\<close>

lemma tick_dispatch:
  fixes s :: "('u, 'm) conn"
  assumes app: "app_ok self app" and ok: "conn_ok self s" and shape: "in_shape s" and st: "tc_state s \<noteq> kConnecting"
    and now: "time_ok (fst (clocks t))"
  shows "limited (\<lambda>u. undisturbed self s u \<and> in_shape u) (handleEvent (loop_task app clocks self) (timerfdChannel s) t s)"
proof (rule own_dispatch [OF ok shape])
  show posted: "posted Timer_Read (timerfdChannel s) s" "timerfdChannel s \<noteq> tc_channel s"
    using shape by (simp_all add: in_shape_def crew_def)
  fix s1 assume q1: "quiet_change s s1"
  note same = quiet_fields [OF q1]
  have ok1: "conn_ok self s1" by (rule quiet_change_ok [OF q1 ok])
  have sh1: "crew s1" "queue_ok (\<lambda>_. True) {} s1" "timer_callbacks timer_task s1"
    using quiet_shape [OF q1 shape] by (simp_all add: in_shape_def timers_ok_def)
  let ?J = "\<lambda>u. undisturbed self s1 u \<and> own_only True s1 u"
  have "limited (\<lambda>u. queue_ok (\<lambda>_. True) {} u \<and> ?J u \<and> timer_callbacks timer_task u)
      (tq_handleRead (run_task app self) (fst (clocks t)) (snd (clocks t)) s1)"
  proof (rule tq_handleRead_runs [OF sh1(2) _ sh1(3) now])
    show "?J s1" using ok1 by (simp add: undisturbed_def proceeds_refl)
  next
    fix f :: "'u task" and X and x :: "('u, 'm) conn"
    assume f: "timer_task f" and x: "queue_ok (\<lambda>w. w \<le> fst (clocks t)) X x" "?J x" "timer_callbacks timer_task x"
    have xok: "conn_ok self x" "tc_state x \<noteq> kConnecting"
      using x(2) proceeds_up [of self s1 x] st same(2) by (simp_all add: undisturbed_def proceeds_def)
    note both = barring_conj [OF timer_task_ok [OF app xok f] run_task_framed [OF app, of True x "Run f"]]
    show "limited (\<lambda>u. queue_ok (\<lambda>w. w \<le> fst (clocks t)) X u \<and> ?J u \<and> timer_callbacks timer_task u) (run_task app self (Run f) x)"
    proof (rule barring_mono [OF both])
      fix u assume u: "(evolves self x u \<and> (live x \<longrightarrow> live u)) \<and> own_only True x u"
      then have "undisturbed self x u"
        by (simp add: undisturbed_def proceeds_def evolves_def own_only_def)
      moreover have "timers_ok (\<lambda>w. w \<le> fst (clocks t)) X u = timers_ok (\<lambda>w. w \<le> fst (clocks t)) X x"
        by (rule timers_ok_cong) (use u in \<open>simp add: evolves_def\<close>)
      ultimately show "queue_ok (\<lambda>w. w \<le> fst (clocks t)) X u \<and> ?J u \<and> timer_callbacks timer_task u"
        using x u undisturbed_trans own_only_trans unfolding timers_ok_def by blast
    qed
  next
    fix x u :: "('u, 'm) conn"
    assume "?J x" and same: "outside_queue u = outside_queue x"
    then show "?J u" using outside_kept(3) [OF same] own_only_trans [OF _ outside_own [OF same]] by blast
  qed
  then show "limited (\<lambda>u. undisturbed self s1 u \<and> chans u (timerfdChannel s) = chans s1 (timerfdChannel s) \<and> in_shape u)
      (loop_task app clocks self (Run_Read Timer_Read t) s1)"
    unfolding loop_task.simps
    by (rule barring_mono)
      (use posted(2) same crew_own [OF sh1(1)] in \<open>auto simp: in_shape_def timers_ok_def own_only_def\<close>)
qed

end
