(* ===== verification/LoopRuns.thy ===== *)
theory LoopRuns
  imports LoopChannels
begin

text \<open>
  A connection and timers in the real loop.  \<open>ConnectionRuns\<close> lets the environment hand events to a
  connection; here they come from \<open>EventLoop::loop\<close> with its poller: the kernel answers
  \<open>epoll_wait\<close>, the poller fills the list of active channels, the loop dispatches them, its wakeup
  channel and the timer channel among them, and calls the pending functors.
\<close>

section \<open>Dispatching\<close>

definition fine_events :: "mask \<Rightarrow> bool" where
  "fine_events m \<longleftrightarrow> (has m POLLHUP \<and> \<not> has m POLLIN \<longrightarrow> \<not> has m POLLPRI \<and> \<not> has m POLLRDHUP)"

lemma live_quiet: "quiet_change s s' \<Longrightarrow> live s \<Longrightarrow> live s'"
  by (auto simp: live_def quiet_change_def)

text \<open>The channels reported, each at most once, are dispatched without a fault.\<close>

definition ready :: "('u, 'm) conn \<Rightarrow> bool" where
  "ready s \<longleftrightarrow> live s \<and> (\<exists>ch. chans s (tc_channel s) = Some ch \<and> fine_events (ch_revents ch))"

lemma undisturbed_ready: "undisturbed self s s' \<Longrightarrow> ready s \<Longrightarrow> ready s'"
  by (cases "chans s' (tc_channel s)") (auto simp: undisturbed_def proceeds_def ready_def)

lemma dispatch_all_ok:
  fixes s :: "('u, 'm) conn"
  assumes app: "app_ok self app" and clocks: "\<And>t. time_ok (fst (clocks t))"
  shows "conn_ok self s \<Longrightarrow> in_shape s \<Longrightarrow> tc_state s \<noteq> kConnecting \<Longrightarrow> distinct cs \<Longrightarrow>
    set cs \<subseteq> {wakeupChannel s, timerfdChannel s, tc_channel s} \<Longrightarrow> (tc_channel s \<in> set cs \<Longrightarrow> ready s) \<Longrightarrow>
    limited (\<lambda>s'. proceeds self s s' \<and> in_shape s') (foldr_res (handle_active (loop_task app clocks self)) cs s)"
proof (induction cs arbitrary: s)
  case Nil
  then show ?case by (simp add: proceeds_refl)
next
  case (Cons c cs)
  let ?s = "s\<lparr>currentActiveChannel := Some c\<rparr>" and ?exec = "loop_task app clocks self"
  note ok = Cons.prems(1-3)
  have s: "conn_ok self ?s" "in_shape ?s" "tc_state ?s \<noteq> kConnecting" using ok by simp_all
  have go: "limited (\<lambda>s'. proceeds self s s' \<and> in_shape s') (bindr (handleEvent ?exec c (pollReturnTime s) ?s)
      (foldr_res (handle_active ?exec) cs))"
    if first: "limited (\<lambda>t. proceeds self ?s t \<and> in_shape t \<and> wakeupChannel t = wakeupChannel s \<and>
        timerfdChannel t = timerfdChannel s \<and> (tc_channel s \<in> set cs \<longrightarrow> ready t))
      (handleEvent ?exec c (pollReturnTime s) ?s)"
  proof (rule barring_bindr [OF first])
    fix t assume t: "proceeds self ?s t \<and> in_shape t \<and> wakeupChannel t = wakeupChannel s \<and>
        timerfdChannel t = timerfdChannel s \<and> (tc_channel s \<in> set cs \<longrightarrow> ready t)"
    have st: "proceeds self s t" using t by (simp add: proceeds_def taken_def)
    then have chn: "tc_channel t = tc_channel s" by (simp add: proceeds_def)
    have "limited (\<lambda>s'. proceeds self t s' \<and> in_shape s') (foldr_res (handle_active ?exec) cs t)"
      by (rule Cons.IH) (use t st Cons.prems(4,5) chn proceeds_up [OF st ok(3)] in \<open>auto simp: proceeds_def\<close>)
    then show "limited (\<lambda>s'. proceeds self s s' \<and> in_shape s') (foldr_res (handle_active ?exec) cs t)"
      by (rule barring_mono) (use proceeds_trans [OF st] in blast)
  qed
  have quietly: "limited (\<lambda>s'. proceeds self s s' \<and> in_shape s') (bindr (handleEvent ?exec c (pollReturnTime s) ?s)
      (foldr_res (handle_active ?exec) cs))"
    if "limited (\<lambda>u. undisturbed self ?s u \<and> in_shape u) (handleEvent ?exec c (pollReturnTime s) ?s)"
  proof (rule go [OF barring_mono [OF that]])
    fix t assume t: "undisturbed self ?s t \<and> in_shape t"
    moreover have "ready ?s = ready s" by (simp add: ready_def live_def)
    ultimately have "ready t" if "tc_channel s \<in> set cs" using undisturbed_ready [of self ?s t] Cons.prems(6) that by simp
    then show "proceeds self ?s t \<and> in_shape t \<and> wakeupChannel t = wakeupChannel s \<and>
        timerfdChannel t = timerfdChannel s \<and> (tc_channel s \<in> set cs \<longrightarrow> ready t)"
      using t by (auto simp: undisturbed_def)
  qed
  consider "c = wakeupChannel s" | "c = timerfdChannel s" | "c = tc_channel s" using Cons.prems(5) by auto
  then have "limited (\<lambda>s'. proceeds self s s' \<and> in_shape s') (bindr (handleEvent ?exec c (pollReturnTime s) ?s)
      (foldr_res (handle_active ?exec) cs))"
  proof cases
    case 1
    then show ?thesis using quietly wake_dispatch [OF s(1,2), where app = app and clocks = clocks and t = "pollReturnTime s"] by simp
  next
    case 2
    then show ?thesis using quietly tick_dispatch [OF app s clocks, where t = "pollReturnTime s"] by simp
  next
    case 3
    then have c: "tc_channel s \<notin> set cs" using Cons.prems(4) by auto
    obtain ch where ch: "live s" "chans s c = Some ch" "fine_events (ch_revents ch)"
      using Cons.prems(6) 3 by (auto simp: ready_def)
    have 1: "limited (advances self ?s) (handleEvent ?exec (tc_channel ?s) (pollReturnTime s) ?s)"
      by (rule handleEvent_ok [OF app loop_task_serves s(1)]) (use ch 3 in \<open>simp_all add: live_def fine_events_def\<close>)
    have 2: "framed True ?s (handleEvent ?exec (tc_channel ?s) (pollReturnTime s) ?s)"
      by (rule handleEvent_framed [OF loop_task_framed [OF app]])
    have "limited (\<lambda>t. proceeds self ?s t \<and> in_shape t \<and> wakeupChannel t = wakeupChannel s \<and>
        timerfdChannel t = timerfdChannel s \<and> (tc_channel s \<in> set cs \<longrightarrow> ready t))
      (handleEvent ?exec (tc_channel ?s) (pollReturnTime s) ?s)"
    proof (rule barring_mono [OF barring_conj [OF 1 2]])
      fix t assume t: "advances self ?s t \<and> own_only True ?s t"
      have "timers_ok (\<lambda>_. True) {} t = timers_ok (\<lambda>_. True) {} ?s"
        by (rule timers_ok_cong) (use t in \<open>simp add: advances_def\<close>)
      moreover have "crew t" by (rule crew_own [of ?s True]) (use s(2) t in \<open>simp_all add: in_shape_def\<close>)
      ultimately have "in_shape t" using s(2) by (simp add: in_shape_def)
      then show "proceeds self ?s t \<and> in_shape t \<and> wakeupChannel t = wakeupChannel s \<and>
          timerfdChannel t = timerfdChannel s \<and> (tc_channel s \<in> set cs \<longrightarrow> ready t)"
        using t c by (simp add: advances_proceeds own_only_def)
    qed
    then show ?thesis using go 3 by simp
  qed
  moreover have "handle_active ?exec c s = handleEvent ?exec c (pollReturnTime s) ?s" by (simp add: handle_active_def Let_def)
  ultimately show ?case by simp
qed

section \<open>Rounds of the loop\<close>

text \<open>
  What happens to the loop: a round of its \<open>while\<close>, or, between two rounds, what the owner of the
  connection, a functor of the owner or another thread does; a call of the loop's thread that adds or
  cancels a timer; and \<open>forceCloseWithDelay\<close> there.
\<close>

datatype 'u serve_event =
    Round timestamp wait_answer
  | Between conn_event
  | Timer_Request "'u task timer_call"
  | Delayed_Close dbl

text \<open>What the loop is given: the user's callbacks, the clock and the allocator of timers.\<close>

record ('u, 'm) surroundings =
  app_of :: "('u, 'm) app"
  clocks_of :: clocks
  alloc_of :: "('u, 'm) conn \<Rightarrow> taddr option"

definition fit :: "nat \<Rightarrow> ('u, 'm) surroundings \<Rightarrow> bool" where
  "fit self e \<longleftrightarrow> app_ok self (app_of e) \<and> (\<forall>t. time_ok (fst (clocks_of e t))) \<and> alloc_ok (alloc_of e)"

lemma fitD:
  assumes "fit self e"
  shows "app_ok self (app_of e)" "time_ok (fst (clocks_of e t))" "alloc_ok (alloc_of e)"
  using assms by (simp_all add: fit_def)

abbreviation calls_of :: "('u, 'm) surroundings \<Rightarrow> nat \<Rightarrow> ('u task, ('u, 'm) conn) runner" where
  "calls_of e self \<equiv> loop_task (app_of e) (clocks_of e) self"

fun serve_step :: "('u, 'm) surroundings \<Rightarrow> nat \<Rightarrow> 'u serve_event \<Rightarrow> ('u, 'm) conn \<Rightarrow> ('u, 'm) conn res" where
  "serve_step e self (Round now answer) s = loop_once (calls_of e self) (now, answer) (s\<lparr>activeChannels := []\<rparr>)"
| "serve_step e self (Between ev) s = conn_step (app_of e) self ev s"
| "serve_step e self (Timer_Request c) s = call_step (alloc_of e) c s"
| "serve_step e self (Delayed_Close seconds) s = forceCloseWithDelay (alloc_of e) self seconds s"

text \<open>
  The kernel reports watched descriptors only, each once, and hang-ups as \<open>polled\<close> says; the
  connection was established before the rounds begin; timers run what \<open>timer_task\<close> allows.
\<close>

fun serve_admissible :: "'u serve_event \<Rightarrow> ('u, 'm) conn \<Rightarrow> bool" where
  "serve_admissible (Round now (Ready evs)) s \<longleftrightarrow> tc_state s \<noteq> kConnecting \<and> kernel_answers s evs \<and>
     (\<forall>(m, c) \<in> set evs. fine_events m)"
| "serve_admissible (Round now (Wait_Error e)) s \<longleftrightarrow> tc_state s \<noteq> kConnecting"
| "serve_admissible (Between (Io_Event m t)) s \<longleftrightarrow> False"
| "serve_admissible (Between Pending_Batch) s \<longleftrightarrow> False"
| "serve_admissible (Between ev) s \<longleftrightarrow> admissible ev s"
| "serve_admissible (Timer_Request (Call_Add f w i clock)) s \<longleftrightarrow> timer_task f \<and> interval_ok i"
| "serve_admissible (Timer_Request (Call_Cancel timer)) s \<longleftrightarrow> True"
| "serve_admissible (Delayed_Close seconds) s \<longleftrightarrow> True"

definition serve_guarded :: "('u, 'm) surroundings \<Rightarrow> nat \<Rightarrow> 'u serve_event \<Rightarrow> ('u, 'm) conn \<Rightarrow> ('u, 'm) conn res" where
  "serve_guarded e self ev s = (if serve_admissible ev s then serve_step e self ev s else Inr s)"

text \<open>
  The state between two rounds of the loop: the connection is in order, the loop's own channels have
  callbacks of their kind, nothing else is registered, and the timer queue is in order.
\<close>

definition serving :: "nat \<Rightarrow> ('u, 'm) conn \<Rightarrow> bool" where
  "serving self s \<longleftrightarrow> conn_ok self s \<and> in_shape s \<and> \<not> lp_eventHandling s"

lemma polled_channels:
  assumes ok: "conn_ok self s" and crew: "crew s" and kernel: "kernel_answers s evs"
  shows "set (map snd evs) \<subseteq> {wakeupChannel s, timerfdChannel s, tc_channel s}"
    "tc_channel s \<in> set (map snd evs) \<Longrightarrow> live s"
proof -
  have w: "\<exists>fd m. watched s fd = Some (m, c)" if "c \<in> set (map snd evs)" for c
    using kernel that by (auto simp: kernel_answers_def)
  have pl: "\<exists>ch. chans s c = Some ch \<and> pl_channels s (ch_fd ch) = Some c" if "watched s fd = Some (m, c)" for fd m c
    using watched_live [OF that loop_okD(1) [OF conn_okD(1) [OF ok]]] by blast
  show "set (map snd evs) \<subseteq> {wakeupChannel s, timerfdChannel s, tc_channel s}"
    using w pl crew unfolding crew_def by blast
  assume "tc_channel s \<in> set (map snd evs)"
  then obtain fd m where fd: "watched s fd = Some (m, tc_channel s)" using w by blast
  have "polled 0 s"
    using watched_live [OF fd loop_okD(1) [OF conn_okD(1) [OF ok]]] fd by (auto simp: polled_def)
  then show "live s" by (rule polled_live [OF ok])
qed

text \<open>A round after its poll.\<close>

lemma after_poll:
  assumes e: "fit self e" and t: "conn_ok self t" "in_shape t" "tc_state t \<noteq> kConnecting" "distinct cs"
    "set cs \<subseteq> {wakeupChannel t, timerfdChannel t, tc_channel t}" "tc_channel t \<in> set cs \<Longrightarrow> ready t"
  shows "limited (\<lambda>s'. proceeds self t s' \<and> serving self s')
      (bindr (foldr_res (handle_active (calls_of e self)) cs (t\<lparr>pollReturnTime := now, activeChannels := cs, lp_eventHandling := True\<rparr>))
        (\<lambda>s. doPendingFunctors (calls_of e self) (s\<lparr>currentActiveChannel := None, lp_eventHandling := False\<rparr>)))"
proof -
  note app = fitD(1) [OF e]
  let ?t = "t\<lparr>pollReturnTime := now, activeChannels := cs, lp_eventHandling := True\<rparr>" and ?exec = "calls_of e self"
  have "ready ?t = ready t" by (simp add: ready_def live_def)
  then have "limited (\<lambda>s'. proceeds self ?t s' \<and> in_shape s') (foldr_res (handle_active ?exec) cs ?t)"
    using t by (intro dispatch_all_ok [OF app fitD(2) [OF e]]) simp_all
  then show ?thesis
  proof (rule barring_bindr)
    fix u assume u: "proceeds self ?t u \<and> in_shape u"
    let ?u = "u\<lparr>currentActiveChannel := None, lp_eventHandling := False\<rparr>"
    have tu: "proceeds self t ?u" using u by (simp add: proceeds_def taken_def)
    then have uok: "conn_ok self ?u" "tc_state ?u \<noteq> kConnecting" using proceeds_up [OF tu t(3)] by (simp_all add: proceeds_def)
    have 1: "limited (advances self ?u) (doPendingFunctors ?exec ?u)" by (rule batch_ok [OF app loop_task_serves uok])
    have 2: "framed False ?u (doPendingFunctors ?exec ?u)" by (rule doPendingFunctors_framed [OF loop_task_framed [OF app]])
    show "limited (\<lambda>s'. proceeds self t s' \<and> serving self s') (doPendingFunctors ?exec ?u)"
    proof (rule barring_mono [OF barring_conj [OF 1 2]])
      fix v assume v: "advances self ?u v \<and> own_only False ?u v"
      have "timers_ok (\<lambda>_. True) {} v = timers_ok (\<lambda>_. True) {} ?u" by (rule timers_ok_cong) (use v in \<open>simp add: advances_def\<close>)
      moreover have "in_shape ?u" using u by simp
      ultimately have "in_shape v" using crew_own [of ?u False v] v by (simp add: in_shape_def)
      moreover have "\<not> lp_eventHandling v" using v by (simp add: own_only_def)
      ultimately show "proceeds self t v \<and> serving self v"
        using proceeds_trans [OF tu] proceeds_ok [of self ?u v] v by (simp add: serving_def advances_proceeds)
    qed
  qed
qed

lemma round_ok:
  assumes e: "fit self e" and sv: "serving self s" and adm: "serve_admissible (Round now answer) s"
  shows "limited (\<lambda>s'. proceeds self s s' \<and> serving self s') (serve_step e self (Round now answer) s)"
proof -
  let ?s = "s\<lparr>activeChannels := []\<rparr>"
  have ok: "conn_ok self ?s" "in_shape ?s" "tc_state ?s \<noteq> kConnecting"
    using sv adm by (simp_all add: serving_def) (cases answer; simp)
  have drop: "proceeds self ?s s' \<Longrightarrow> proceeds self s s'" for s' by (simp add: proceeds_def taken_def)
  show ?thesis
  proof (cases answer)
    case (Wait_Error n)
    have "s\<lparr>activeChannels := [], pollReturnTime := now, activeChannels := [], lp_eventHandling := True\<rparr> =
        ?s\<lparr>pollReturnTime := now, activeChannels := [], lp_eventHandling := True\<rparr>" by simp
    then show ?thesis
      using barring_mono [OF after_poll [OF e ok, of "[]" now]] drop Wait_Error by (simp add: loop_once_def ep_poll_def)
  next
    case (Ready evs)
    have kernel: "kernel_answers ?s evs" "\<forall>(m, c) \<in> set evs. fine_events m"
      using adm Ready by (simp_all add: kernel_answers_def watched_cong [of ?s s])
    obtain t where t: "ep_poll now (Ready evs) [] ?s = Inr (now, map snd evs, t)" "quiet_change ?s t"
        "\<And>ev c. (ev, c) \<in> set evs \<Longrightarrow> chans t c = map_option (set_revents ev) (chans ?s c)"
      using poll_quiet [OF ok(1) kernel(1), of now] by blast
    note q = quiet_change_ok [OF t(2) ok(1)] and qf = quiet_fields [OF t(2)]
    have crew: "crew ?s" using ok(2) by (simp add: in_shape_def)
    note pc = polled_channels [OF ok(1) crew kernel(1)]
    have rdy: "ready t" if own: "tc_channel t \<in> set (map snd evs)"
    proof -
      have own': "tc_channel ?s \<in> set (map snd evs)" using own qf(1) by simp
      obtain m where m: "(m, tc_channel ?s) \<in> set evs" using own' by auto
      obtain ch where "chans ?s (tc_channel ?s) = Some ch" by (rule conn_channel [OF ok(1)])
      then have "chans t (tc_channel t) = Some (set_revents m ch)" using t(3) [OF m] qf(1) by simp
      moreover have "fine_events m" using kernel(2) m by auto
      ultimately show ?thesis using live_quiet [OF t(2) pc(2) [OF own']] by (simp add: ready_def set_revents_def)
    qed
    have st: "proceeds self s t" using drop q(2) by (simp add: advances_proceeds)
    have "distinct (map snd evs)" "set (map snd evs) \<subseteq> {wakeupChannel t, timerfdChannel t, tc_channel t}" "tc_state t \<noteq> kConnecting"
      using kernel(1) pc(1) qf ok(3) by (simp_all add: kernel_answers_def)
    from after_poll [OF e q(1) quiet_shape [OF t(2) ok(2)] this(3,1,2) rdy, of now] show ?thesis
      using t(1) Ready by (auto simp: loop_once_def Let_def elim!: barring_mono intro: proceeds_trans [OF st])
  qed
qed

text \<open>Requests to the timer queue.\<close>

lemma timer_call_ok:
  assumes e: "fit self e" and ok: "conn_ok self s" and shape: "in_shape s"
    and c: "serve_admissible (Timer_Request c) s"
  shows "safe (\<lambda>s'. proceeds self s s' \<and> in_shape s' \<and> lp_eventHandling s' = lp_eventHandling s) (call_step (alloc_of e) c s)"
proof -
  have q: "queue_ok (\<lambda>_. True) {} s" "timer_callbacks timer_task s" "crew s"
    using shape by (simp_all add: in_shape_def timers_ok_def)
  have c': "call_ok c" "case c of Call_Add cb w i clock \<Rightarrow> timer_task cb | _ \<Rightarrow> True"
    using c by (cases c; simp)+
  have 1: "safe (queue_ok (\<lambda>_. True) {}) (call_step (alloc_of e) c s)"
    by (rule call_step_ok [OF q(1) fitD(3) [OF e] c'(1) downward_all])
  show ?thesis
  proof (cases "call_step (alloc_of e) c s")
    case (Inr s')
    have "queue_ok (\<lambda>_. True) {} s'" using 1 Inr by simp
    moreover have "timer_callbacks timer_task s'" by (rule call_step_outside(2) [OF Inr q(2) c'(2)])
    moreover note outside = call_step_outside(1) [OF Inr]
    moreover have "crew s'" by (rule crew_own [OF q(3) outside_own [where stay = True, OF outside]])
    moreover have "lp_eventHandling s' = lp_eventHandling s"
      by (subst outside_queue_eqD [OF outside]) simp
    moreover have "proceeds self s s'" using outside_kept(2) [OF outside] proceeds_refl [OF ok] by blast
    ultimately show ?thesis using Inr by (simp add: in_shape_def timers_ok_def)
  qed (use 1 in simp)
qed

text \<open>In the loop's thread the delayed close is a timer.\<close>

lemma delayed_close_eq:
  assumes "threadId s = self"
  shows "forceCloseWithDelay alloc self seconds s =
    (if live s then call_step alloc (Call_Add Force_Close_Weak (addTime (clock_now s) seconds) (Dbl 0 0) (clock_now s))
       (setState kDisconnecting s) else Inr s)"
proof -
  let ?s = "setState kDisconnecting s" and ?w = "addTime (clock_now s) seconds"
  have "bindr (addTimer (run_request self) alloc Add_Timer_In_Loop self Inr Force_Close_Weak ?w (Dbl 0 0) ?s) (\<lambda>(_, s). Inr s) =
      call_step alloc (Call_Add Force_Close_Weak ?w (Dbl 0 0) (clock_now s)) ?s"
  proof (cases "create_Timer alloc Force_Close_Weak ?w (Dbl 0 0) ?s")
    case (Inr p)
    obtain a s1 where p: "p = (a, s1)" by (cases p)
    have s1: "threadId s1 = self" "clock_now s1 = clock_now s" "\<exists>t. tq_heap s1 a = Some t"
      using Inr p assms by (auto simp: create_Timer_def setState_def split: option.splits)
    show ?thesis
    proof (cases "addTimerInLoop (clock_now s) a s1")
      case (Inr s2)
      then have "\<exists>t. tq_heap s2 a = Some t" using addTimerInLoop_heap s1(3) by metis
      then show ?thesis
        using \<open>create_Timer _ _ _ _ _ = Inr p\<close> p s1(1,2) Inr
        by (auto simp: addTimer_def runInLoop_def isInLoopThread_def timer_at_def)
    qed (use Inr p s1 in \<open>simp add: addTimer_def runInLoop_def isInLoopThread_def\<close>)
  qed (simp add: addTimer_def)
  then show ?thesis by (simp add: forceCloseWithDelay_def live_def runAfter_def runAt_def)
qed

lemma connectEstablished_framed:
  assumes app: "app_ok self app"
  shows "framed stay s (connectEstablished app s)"
proof -
  let ?s = "setState kConnected s"
  have "framed stay ?s (bindr (upd_chan (tc_channel ?s) (ch_tie (tc_obj ?s)) ?s) (\<lambda>s.
           bindr (enableReading (tc_channel s) s) (\<lambda>s. call_back app On_Connection (tc_connectionCallback s) s)))"
    by (intro framed_seq framed_own framed_interest call_back_framed [OF app])
  then show ?thesis
    unfolding connectEstablished_def Let_def ensure_def using framed_from [of _ s ?s] by simp
qed

lemma connectDestroyed_framed:
  assumes app: "app_ok self app"
  shows "framed False s (connectDestroyed app s)"
proof -
  let ?s = "setState kDisconnected s"
  have "framed False ?s (bindr (disableAll (tc_channel ?s) ?s) (\<lambda>s. call_back app On_Connection (tc_connectionCallback s) s))"
    by (intro framed_seq framed_interest call_back_framed [OF app])
  then have "framed False s (bindr (disableAll (tc_channel ?s) ?s) (\<lambda>s. call_back app On_Connection (tc_connectionCallback s) s))"
    by (rule framed_from [rotated]) simp
  then show ?thesis unfolding connectDestroyed_def Let_def by (intro framed_seq framed_own) simp
qed

abbreviation bounded :: "('s \<Rightarrow> bool) \<Rightarrow> 's res \<Rightarrow> bool" where
  "bounded \<equiv> barring (\<lambda>e. e = Length_Error \<or> e = Bad_Alloc)"

lemma serve_guarded_ok:
  assumes e: "fit self e" and sv: "serving self s"
  shows "bounded (\<lambda>s'. proceeds self s s' \<and> serving self s') (serve_guarded e self ev s)"
proof (cases "serve_admissible ev s")
  case True
  note app = fitD(1) [OF e]
  have ok: "conn_ok self s" "in_shape s" "\<not> lp_eventHandling s" using sv by (simp_all add: serving_def)
  have "bounded (\<lambda>s'. proceeds self s s' \<and> serving self s') (serve_step e self ev s)"
  proof (cases ev)
    case (Round now answer)
    then show ?thesis using barring_errors [OF round_ok [OF e sv]] True by simp
  next
    case (Between b)
    then have adm: "admissible b s" using True by (cases b) simp_all
    have 1: "limited (advances self s) (conn_step (app_of e) self b s)"
      using guarded_step_ok [OF app advances_refl [OF ok(1)], of b] adm by (simp add: guarded_step_def)
    have 2: "framed False s (conn_step (app_of e) self b s)"
      using True Between by (cases b) (simp_all add: connectEstablished_framed [OF app] connectDestroyed_framed [OF app] api_step_framed)
    have "proceeds self s s' \<and> serving self s'" if s': "advances self s s' \<and> own_only False s s'" for s'
    proof -
      have "timers_ok (\<lambda>_. True) {} s' = timers_ok (\<lambda>_. True) {} s" by (rule timers_ok_cong) (use s' in \<open>simp add: advances_def\<close>)
      then have "in_shape s'" using ok(2) crew_own [of s False s'] s' by (simp add: in_shape_def)
      then show ?thesis using s' ok(3) by (auto simp: serving_def advances_proceeds own_only_def proceeds_ok)
    qed
    then have "limited (\<lambda>s'. proceeds self s s' \<and> serving self s') (conn_step (app_of e) self b s)"
      by (rule barring_mono [OF barring_conj [OF 1 2]])
    then show ?thesis using Between by (simp add: barring_errors)
  next
    case (Timer_Request c)
    have "safe (\<lambda>s'. proceeds self s s' \<and> in_shape s' \<and> lp_eventHandling s' = lp_eventHandling s) (call_step (alloc_of e) c s)"
      by (rule timer_call_ok [OF e ok(1,2)]) (use True Timer_Request in simp)
    then have "safe (\<lambda>s'. proceeds self s s' \<and> serving self s') (call_step (alloc_of e) c s)"
      by (rule barring_mono) (use ok(3) proceeds_ok in \<open>auto simp: serving_def\<close>)
    then show ?thesis using Timer_Request by (simp add: barring_errors)
  next
    case (Delayed_Close seconds)
    have self: "threadId s = self" using conn_okD(8) [OF ok(1)] .
    show ?thesis
    proof (cases "live s")
      case live: True
      let ?s = "setState kDisconnecting s"
      have k: "kept self s ?s" by (rule setState_kept [OF ok(1) live])
      have st: "proceeds self s ?s" using evolves_advances [OF kept_evolves [OF k]] by (simp add: advances_proceeds)
      have "timers_ok (\<lambda>_. True) {} ?s = timers_ok (\<lambda>_. True) {} s" by (rule timers_ok_cong) simp
      then have shape: "in_shape ?s" using ok(2) crew_own [of s True ?s] by (simp add: in_shape_def)
      have "safe (\<lambda>s'. proceeds self ?s s' \<and> in_shape s' \<and> lp_eventHandling s' = lp_eventHandling ?s)
          (call_step (alloc_of e) (Call_Add Force_Close_Weak (addTime (clock_now s) seconds) (Dbl 0 0) (clock_now s)) ?s)"
        by (rule timer_call_ok [OF e proceeds_ok [OF st] shape]) (simp add: timer_task_def interval_ok_def)
      then have "safe (\<lambda>s'. proceeds self s s' \<and> serving self s') (forceCloseWithDelay (alloc_of e) self seconds s)"
        unfolding delayed_close_eq [OF self] using live ok(3)
        by (auto simp: serving_def setState_def proceeds_ok elim!: barring_mono intro: proceeds_trans [OF st, unfolded setState_def])
      then show ?thesis using Delayed_Close by (simp add: barring_errors)
    next
      case False
      then show ?thesis using Delayed_Close sv proceeds_refl [OF ok(1)] by (simp add: delayed_close_eq [OF self])
    qed
  qed
  then show ?thesis using True by (simp add: serve_guarded_def)
next
  case False
  then show ?thesis using sv proceeds_refl [of self s] by (simp add: serve_guarded_def) (simp add: serving_def)
qed


text \<open>The rounds of one call of \<open>loop()\<close>, when the kernel's answers are admissible.\<close>

fun honest :: "('u, 'm) surroundings \<Rightarrow> nat \<Rightarrow> (timestamp \<times> wait_answer) list \<Rightarrow> ('u, 'm) conn \<Rightarrow> bool" where
  "honest e self [] s \<longleftrightarrow> True"
| "honest e self ((now, answer) # answers) s \<longleftrightarrow>
     (\<not> quit_flag s \<longrightarrow> serve_admissible (Round now answer) s \<and>
        (case serve_step e self (Round now answer) s of Inl _ \<Rightarrow> True | Inr s' \<Rightarrow> honest e self answers s'))"

lemma loop_while_ok:
  assumes e: "fit self e"
  shows "serving self s \<Longrightarrow> honest e self answers s \<Longrightarrow>
    limited (\<lambda>(returned, s'). proceeds self s s' \<and> serving self s' \<and> (returned \<longrightarrow> quit_flag s'))
      (loop_while (calls_of e self) answers s)"
proof (induction answers arbitrary: s)
  case Nil
  then show ?case using proceeds_refl [of self s]
    by (simp add: loop_while.simps [of _ _ s]) (simp add: serving_def proceeds_def taken_def)
next
  case (Cons a answers)
  obtain now answer where a: "a = (now, answer)" by (cases a)
  show ?case
  proof (cases "quit_flag s")
    case True
    then show ?thesis using Cons.prems(1) proceeds_refl [of self s]
      by (simp add: loop_while.simps [of _ _ s]) (simp add: serving_def)
  next
    case False
    have adm: "serve_admissible (Round now answer) s" and tl: "\<And>t. serve_step e self (Round now answer) s = Inr t \<Longrightarrow> honest e self answers t"
      using Cons.prems(2) False a by auto
    have "limited (\<lambda>(returned, s'). proceeds self s s' \<and> serving self s' \<and> (returned \<longrightarrow> quit_flag s'))
        (bindr (serve_step e self (Round now answer) s) (loop_while (calls_of e self) answers))"
    proof (cases "serve_step e self (Round now answer) s")
      case (Inl x)
      then show ?thesis using round_ok [OF e Cons.prems(1) adm] by simp
    next
      case (Inr t)
      then have t: "proceeds self s t" "serving self t" using round_ok [OF e Cons.prems(1) adm] by simp_all
      show ?thesis using Cons.IH [OF t(2) tl [OF Inr]] Inr
        by (auto elim!: barring_mono intro: proceeds_trans [OF t(1)])
    qed
    then show ?thesis using False a by (simp add: loop_while.simps [of _ _ s])
  qed
qed

section \<open>Properties\<close>


text \<open>C6: \<open>loop()\<close> serves the connection and the timers.  Called when it is not looping yet, with a
  kernel that reports only what is watched, it fails no assertion of the loop, the poller, the timer
  queue or the connection, and when it waits in \<open>poll\<close> again the connection, the timers and the loop's
  own channels are in order.  Nothing in these runs calls \<open>quit\<close> (theory \<open>LoopThreads\<close> has it), so that
  they go on as long as the kernel answers; if the loop returned, it would be because of the flag.\<close>

theorem loop_serves:
  assumes "serving self s" "fit self e" "\<not> looping s" "honest e self answers (s\<lparr>looping := True, quit_flag := False\<rparr>)"
  shows "case loop_run (loop_task (app_of e) (clocks_of e) self) answers s of
      Inl x \<Rightarrow> x = Length_Error
    | Inr (returned, s') \<Rightarrow> serving self s' \<and> prefix (trace s) (trace s') \<and> (returned \<longrightarrow> quit_flag s' \<and> \<not> looping s')"
proof -
  let ?s = "s\<lparr>looping := True, quit_flag := False\<rparr>"
  have sv: "serving self ?s" and same: "trace ?s = trace s" using assms(1) by (simp_all add: serving_def)
  have run: "loop_run (calls_of e self) answers s =
      bindr (loop_while (calls_of e self) answers ?s) (\<lambda>(returned, s). Inr (returned, if returned then s\<lparr>looping := False\<rparr> else s))"
    using assms(3) by (simp add: loop_run_def)
  have "limited (\<lambda>(returned, s'). serving self s' \<and> prefix (trace s) (trace s') \<and> (returned \<longrightarrow> quit_flag s' \<and> \<not> looping s'))
      (loop_run (calls_of e self) answers s)"
    unfolding run
    by (rule barring_bindr [OF loop_while_ok [OF assms(2) sv assms(4)]])
      (auto simp: serving_def proceeds_def)
  then show ?thesis by (auto simp: barring_def split: sum.splits)
qed

section \<open>Samples\<close>

text \<open>The timer queue of a loop: its channel is registered, and the queue is empty.\<close>

lemma new_TimerQueue_ok:
  fixes s :: "('u, 'm) conn"
  assumes ok: "loop_ok s" and fresh: "chans s c = None" "pl_channels s fd = None"
  shows "\<exists>s' ch. new_TimerQueue n c fd f s = Inr s' \<and> loop_ok s' \<and> chans s' = (chans s)(c \<mapsto> ch) \<and> of_loop f ch \<and> ch_fd ch = fd \<and>
    pl_channels s' = (pl_channels s)(fd \<mapsto> c) \<and>
    timer_state s' = (Map.empty, n, [], {}, False, {}, c, None) \<and> wakeupChannel s' = wakeupChannel s \<and>
    use_count s' = use_count s \<and> pendingFunctors s' = pendingFunctors s \<and> threadId s' = threadId s \<and>
    lp_eventHandling s' = lp_eventHandling s \<and> looping s' = looping s \<and> user_mem s' = user_mem s \<and> user_bufs s' = user_bufs s"
proof -
  let ?s0 = "s\<lparr>tq_heap := Map.empty, numCreated := n, timers := [], activeTimers := {}, callingExpiredTimers := False,
      cancelingTimers := {}, timerfdChannel := c, armed := None\<rparr>"
  let ?n = "new_Channel (loop_id s) fd :: 'u task channel"
  let ?ch = "setReadCallback (Some f) ?n"
  let ?s1 = "create_Channel c fd ?s0"
  let ?s2 = "put_chan c ?ch ?s1"
  have "loop_ok ?s0 = loop_ok s" by (rule loop_ok_cong) simp_all
  then have lok1: "loop_ok ?s1" using ok fresh(1) by (intro create_Channel_ok(1)) simp_all
  have c1: "chans ?s1 c = Some ?n" by (simp add: create_Channel_def put_chan_def)
  have lok2: "loop_ok ?s2" by (rule put_chan_loop_ok [OF lok1 c1]) (simp_all add: setReadCallback_def)
  have c2: "chans ?s2 c = Some ?ch" "pl_channels ?s2 fd = None" "ch_fd ?ch = fd" "ch_events ?ch = kNoneEvent"
    using fresh(2) by (simp_all add: create_Channel_def put_chan_def setReadCallback_def new_Channel_def kNoneEvent_def)
  obtain s' ch where s': "set_interest (\<lambda>m. m OR kReadEvent) c ?s2 = Inr s'" "loop_ok s'" "poller_change ?s2 s'"
      "chans s' = (chans ?s2)(c \<mapsto> ch)" "ch_events ch = kReadEvent" "ch_fd ch = fd" "readCallback ch = Some f"
      "writeCallback ch = None" "closeCallback ch = None" "errorCallback ch = None" "\<not> tied ch"
      "pl_channels s' = (pl_channels ?s2)(fd \<mapsto> c)"
    using interest_change [OF lok2 c2(1), of "\<lambda>m. m OR kReadEvent"] c2(2-4)
    by (auto simp: setReadCallback_def new_Channel_def kNoneEvent_def)
  have "new_TimerQueue n c fd f s = Inr s'"
    using s'(1) c1 by (simp add: new_TimerQueue_def Let_def upd_chan_def chan_def interest_ops)
  moreover have "of_loop f ch" using s'(5-11) by (simp add: of_loop_def)
  moreover have "timer_state s' = (Map.empty, n, [], {}, False, {}, c, None)"
    unfolding timer_state_change [OF s'(3)] by (simp add: create_Channel_def put_chan_def timer_state_def)
  ultimately show ?thesis
    using s'(2,4,6,12) tcp_fields_change [OF s'(3)] loop_fields_change [OF s'(3)]
    by (intro exI [of _ s'] exI [of _ ch]) (simp add: create_Channel_def put_chan_def)
qed

text \<open>A new loop has its wakeup channel and nothing else.\<close>

lemma new_EventLoop_crew:
  "\<exists>s. new_EventLoop this self fd c Loop_Read = Inr s \<and> wakeupChannel s = c \<and>
     (\<exists>ch. chans s = [c \<mapsto> ch] \<and> of_loop Loop_Read ch \<and> ch_fd ch = fd) \<and> pl_channels s = [fd \<mapsto> c] \<and> \<not> looping s"
  by (simp add: new_EventLoop_def new_EPollPoller_def Let_def create_Channel_def put_chan_def upd_chan_def chan_def
    enableReading_def ch_update_def loop_updateChannel_def ep_updateChannel_def ep_update_def operationToString_def
    new_Channel_def setReadCallback_def with_reading_def of_loop_def set_index_def ensure_def kNew_def kDeleted_def kAdded_def
    EPOLL_CTL_ADD_def) (intro exI conjI, rule refl, simp_all)

definition sample_timed_env :: "(nat, unit) conn" where
  "sample_timed_env = (case new_TimerQueue 0 4 10 Timer_Read sample_env of Inl _ \<Rightarrow> undefined | Inr s \<Rightarrow> s)"

definition sample_timed :: "(nat, unit) conn" where
  "sample_timed = (case new_TcpConnection ''sample'' 0 7 12 sample_timed_env of
     Inl _ \<Rightarrow> undefined
   | Inr s \<Rightarrow> tc_setConnectionCallback (Some 1) (tc_setMessageCallback (Some 2) (tc_setCloseCallback (Some 3) s)))"

lemma sample_timed_env_ok:
  "loop_ok sample_timed_env" "chans sample_timed_env 7 = None" "pl_channels sample_timed_env = [9 \<mapsto> 3, 10 \<mapsto> 4]"
  "use_count sample_timed_env 0 = 1" "memory_ok sample_timed_env" "pendingFunctors sample_timed_env = []"
  "threadId sample_timed_env = 1" "\<not> lp_eventHandling sample_timed_env" "\<not> looping sample_timed_env"
  "posted Loop_Read 3 sample_timed_env" "posted Timer_Read 4 sample_timed_env"
  "wakeupChannel sample_timed_env = 3" "timer_state sample_timed_env = (Map.empty, 0, [], {}, False, {}, 4, None)"
proof -
  obtain l where l: "new_EventLoop 0 1 9 3 (Loop_Read :: nat task) = Inr l" "wakeupChannel l = 3" "pl_channels l = [9 \<mapsto> 3]"
      "\<exists>ch. chans l = [3 \<mapsto> ch] \<and> of_loop Loop_Read ch \<and> ch_fd ch = 9" "\<not> looping l"
    using new_EventLoop_crew [of 0 1 9 3] by blast
  have env: "wakeupChannel sample_env = 3" "pl_channels sample_env = [9 \<mapsto> 3]" "chans sample_env = chans l" "\<not> looping sample_env"
    using l(2,3,5) by (simp_all add: sample_env_def l(1) [unfolded One_nat_def] loop.defs)
  obtain w where w: "chans sample_env = [3 \<mapsto> w]" "of_loop Loop_Read w" "ch_fd w = 9" using l(4) env(3) by auto
  have free: "chans sample_env 4 = None" "pl_channels sample_env 10 = None" using w(1) env(2) by simp_all
  obtain s ch where s: "new_TimerQueue 0 4 10 Timer_Read sample_env = Inr s" "loop_ok s" "chans s = (chans sample_env)(4 \<mapsto> ch)"
      "of_loop Timer_Read ch" "ch_fd ch = 10" "pl_channels s = (pl_channels sample_env)(10 \<mapsto> 4)"
      "timer_state s = (Map.empty, 0, [], {}, False, {}, 4, None)" "wakeupChannel s = wakeupChannel sample_env"
      "use_count s = use_count sample_env" "pendingFunctors s = pendingFunctors sample_env" "threadId s = threadId sample_env"
      "lp_eventHandling s = lp_eventHandling sample_env" "looping s = looping sample_env" "user_mem s = user_mem sample_env"
      "user_bufs s = user_bufs sample_env"
    using new_TimerQueue_ok [OF sample_env_ok(1) free, of 0 Timer_Read] by blast
  have t: "sample_timed_env = s" by (simp add: sample_timed_env_def s(1))
  show "loop_ok sample_timed_env" "chans sample_timed_env 7 = None" "pl_channels sample_timed_env = [9 \<mapsto> 3, 10 \<mapsto> 4]"
    "use_count sample_timed_env 0 = 1" "pendingFunctors sample_timed_env = []" "threadId sample_timed_env = 1"
    "\<not> lp_eventHandling sample_timed_env" "\<not> looping sample_timed_env" "wakeupChannel sample_timed_env = 3"
    "timer_state sample_timed_env = (Map.empty, 0, [], {}, False, {}, 4, None)"
    using s sample_env_ok env w(1) by (simp_all add: t)
  show "memory_ok sample_timed_env" using sample_env_ok(5) s(14,15) by (simp add: t memory_ok_def)
  show "posted Loop_Read 3 sample_timed_env" "posted Timer_Read 4 sample_timed_env"
    using s(3-6) w env(2) by (simp_all add: t posted_def)
qed

lemma sample_timed_ok:
  "conn_ok 1 sample_timed" "tc_state sample_timed = kConnecting" "serving 1 sample_timed" "\<not> looping sample_timed"
proof -
  note e = sample_timed_env_ok
  have "0 < use_count sample_timed_env 0" "\<forall>f \<in> set (pendingFunctors sample_timed_env). task_ok f" "pl_channels sample_timed_env 12 = None"
    using e(3,4,6) by simp_all
  from new_connection_ok [OF e(1,2) this(3,1) e(5) this(2) e(8), of "''sample''" 1 2 3]
  obtain s where s: "new_TcpConnection ''sample'' 0 7 12 sample_timed_env = Inr s" "tc_state s = kConnecting"
      "conn_ok 1 (tc_setConnectionCallback (Some 1) (tc_setMessageCallback (Some 2) (tc_setCloseCallback (Some 3) s)))"
    using e(7) by auto
  show ok: "conn_ok 1 sample_timed" and "tc_state sample_timed = kConnecting"
    using s by (simp_all add: sample_timed_def tc_setConnectionCallback_def tc_setMessageCallback_def tc_setCloseCallback_def)
  obtain b where b: "new_Buffer kInitialSize = Inr b"
    using new_Buffer_spec [of kInitialSize] by (auto simp: kInitialSize_def max_size_def)
  have f: "tc_channel sample_timed = 7" "wakeupChannel sample_timed = 3" "timer_state sample_timed = timer_state sample_timed_env"
      "pl_channels sample_timed = [9 \<mapsto> 3, 10 \<mapsto> 4]" "chans sample_timed c = chans sample_timed_env c \<or> c = 7"
      "lp_eventHandling sample_timed = lp_eventHandling sample_timed_env" "looping sample_timed = looping sample_timed_env" for c
    using e(3,12)
    by (simp_all add: sample_timed_def new_TcpConnection_def b create_Channel_def put_chan_def upd_chan_def chan_def
      tc_setConnectionCallback_def tc_setMessageCallback_def tc_setCloseCallback_def timer_state_def)
  have q: "timerfdChannel sample_timed = 4" "queue_ok (\<lambda>_. True) {} sample_timed" "timer_callbacks timer_task sample_timed"
    using f(3) e(13) by (simp_all add: timer_state_def queue_ok_def tq_ok_def timer_callbacks_def)
  have "posted Loop_Read 3 sample_timed" "posted Timer_Read 4 sample_timed"
    using e(3,10,11) f(4) f(5) [of 3] f(5) [of 4] by (simp_all add: posted_def)
  then have "crew sample_timed" using f(1,2,4) q(1) by (auto simp: crew_def split: if_splits)
  then show "serving 1 sample_timed" using ok q(2,3) f(6) e(8) by (simp add: serving_def in_shape_def timers_ok_def)
  show "\<not> looping sample_timed" using f(7) e(9) by simp
qed

definition sample_around :: "(nat, unit) surroundings" where
  "sample_around = \<lparr>app_of = sample_app, clocks_of = (\<lambda>t. (Timestamp 100, Timestamp 101)),
     alloc_of = (\<lambda>s. if tq_heap s 6 = None then Some 6 else None)\<rparr>"

lemma sample_around_fit: "fit 1 sample_around"
  using sample_app_ok by (auto simp: fit_def sample_around_def alloc_ok_def UINTPTR_MAX_def time_ok_def ts_valid_def)


definition sample_running :: "(nat, unit) conn" where
  "sample_running = (case connectEstablished (\<lambda>_. Inr) sample_timed of Inl _ \<Rightarrow> undefined | Inr s \<Rightarrow> s)"

lemma sample_running_ok: "serving 1 (sample_running\<lparr>looping := False\<rparr>)" "tc_state sample_running = kConnected"
proof -
  let ?e = "sample_around\<lparr>app_of := \<lambda>_. Inr\<rparr>"
  have e: "fit 1 ?e"
    using sample_around_fit unfolding fit_def app_ok_def by (auto intro!: exI [of _ "[]"])
  have "bounded (\<lambda>s'. proceeds 1 sample_timed s' \<and> serving 1 s') (serve_guarded ?e 1 (Between Establish) sample_timed)"
    by (rule serve_guarded_ok [OF e sample_timed_ok(3)])
  moreover obtain s where s: "connectEstablished (\<lambda>_. Inr) sample_timed = Inr s" "tc_state s = kConnected"
    using established [OF sample_timed_ok(1,2)] by auto
  ultimately have "serving 1 sample_running"
    using sample_timed_ok(2) by (simp add: serve_guarded_def sample_running_def)
  then show "serving 1 (sample_running\<lparr>looping := False\<rparr>)" by (simp add: serving_def)
  show "tc_state sample_running = kConnected" using s by (simp add: sample_running_def)
qed

theorem loop_serves_witness:
  "case loop_run (loop_task sample_app (clocks_of sample_around) 1) [(Timestamp 9, Wait_Error 4)] (sample_running\<lparr>looping := False\<rparr>) of
      Inl x \<Rightarrow> x = Length_Error
    | Inr (returned, s') \<Rightarrow> serving 1 s' \<and> prefix (trace (sample_running\<lparr>looping := False\<rparr>)) (trace s') \<and> (returned \<longrightarrow> quit_flag s' \<and> \<not> looping s')"
proof -
  let ?s = "sample_running\<lparr>looping := False\<rparr>"
  have app: "app_of sample_around = sample_app" by (simp add: sample_around_def)
  have "honest sample_around 1 [(Timestamp 9, Wait_Error 4)] (?s\<lparr>looping := True, quit_flag := False\<rparr>)"
    using sample_running_ok(2) by (simp del: serve_step.simps split: sum.split)
  then show ?thesis unfolding app [symmetric] by (intro loop_serves [OF sample_running_ok(1) sample_around_fit]) simp
qed

end
