(* ===== verification/ServerRuns.thy ===== *)
theory ServerRuns
  imports Server LoopRuns
begin

text \<open>
  The server with its connections.  \<open>Server\<close> records what the server asks the loops of its
  connections to run, \<open>ConnectionRuns\<close> takes it for granted that the owner of a connection calls
  \<open>connectEstablished\<close> and \<open>connectDestroyed\<close> only when it may; here both are put together, and the
  promises of the owner become facts.  A connection has the loop it runs in for itself: what the other
  connections of the loop do does not touch it (\<open>ConnectionFrame\<close>).

  A loop runs the requests of the server in the order they were posted to it, between the events and
  calls of its connections.  The close callback of a connection is \<open>TcpServer::removeConnection\<close>, which
  only asks the server's loop, so it may as well run at the end of the step that calls it.
\<close>

section \<open>The system\<close>

record ('f, 'u, 'm) sr_system =
  sr_server :: "'f server"
  sr_conn :: "nat \<Rightarrow> ('u, 'm) conn"
  sr_queue :: "(nat \<times> sv_task) list"   \<comment> \<open>posted and not yet run, of all loops\<close>
  sr_ran :: "(nat \<times> sv_task) list"

definition told_closed :: "('u, 'm) conn \<Rightarrow> bool" where
  "told_closed s \<longleftrightarrow> (\<exists>u. On_Close u \<in> set (trace s))"

text \<open>A step of the server; \<open>birth\<close> gives the connection object \<open>newConnection\<close> makes.\<close>

definition server_turn ::
  "(conn_info \<Rightarrow> ('u, 'm) conn) \<Rightarrow> sv_event \<Rightarrow> ('f, 'u, 'm) sr_system \<Rightarrow> ('f, 'u, 'm) sr_system res" where
  "server_turn birth ev s =
     bindr (sv_step ev (sr_server s)) (\<lambda>sv.
       let n = length (sv_conns (sr_server s))
       in Inr (s\<lparr>sr_server := sv,
            sr_conn := (if n < length (sv_conns sv) then (sr_conn s)(n := birth (sv_conns sv ! n)) else sr_conn s),
            sr_queue := sr_queue s @ drop (length (sv_posted (sr_server s))) (sv_posted sv)\<rparr>))"

text \<open>A step of connection \<open>c\<close> in loop \<open>l\<close>; \<open>thread l\<close> is the thread of the loop.\<close>

definition conn_turn ::
  "(nat \<Rightarrow> nat) \<Rightarrow> (nat \<Rightarrow> ('u, 'm) app) \<Rightarrow> nat \<Rightarrow> nat \<Rightarrow> conn_event \<Rightarrow>
   ('f, 'u, 'm) sr_system \<Rightarrow> ('f, 'u, 'm) sr_system res" where
  "conn_turn thread app l c ev s =
     bindr (conn_step (app l) (thread l) ev (sr_conn s c)) (\<lambda>t.
       Inr (s\<lparr>sr_conn := (sr_conn s)(c := t),
              sr_server := (if told_closed t \<and> \<not> told_closed (sr_conn s c)
                            then sv_removeConnection c (sr_server s) else sr_server s)\<rparr>))"

fun request_event :: "sv_task \<Rightarrow> conn_event" where
  "request_event (Sv_Established c) = Establish"
| "request_event (Sv_Destroyed c) = Destroy_Connection"

text \<open>Loop \<open>l\<close> runs the first request that was posted to it.\<close>

definition request_turn ::
  "(nat \<Rightarrow> nat) \<Rightarrow> (nat \<Rightarrow> ('u, 'm) app) \<Rightarrow> nat \<Rightarrow> ('f, 'u, 'm) sr_system \<Rightarrow> ('f, 'u, 'm) sr_system res" where
  "request_turn thread app l s =
     (case List.extract (\<lambda>p. fst p = l) (sr_queue s) of
        None \<Rightarrow> Inr s
      | Some (before, p, after) \<Rightarrow>
          conn_turn thread app l (sv_conn p) (request_event (snd p))
            (s\<lparr>sr_queue := before @ after, sr_ran := sr_ran s @ [p]\<rparr>))"

datatype sr_event =
    Sr_Arrival                  \<comment> \<open>the listening socket is readable\<close>
  | Sr_Removal                  \<comment> \<open>the server's loop runs a \<open>removeConnectionInLoop\<close>\<close>
  | Sr_Request nat              \<comment> \<open>a loop runs a request of the server\<close>
  | Sr_Conn nat conn_event      \<comment> \<open>events and functors of a connection, calls of its interface\<close>

fun sr_step ::
  "(nat \<Rightarrow> nat) \<Rightarrow> (nat \<Rightarrow> ('u, 'm) app) \<Rightarrow> (conn_info \<Rightarrow> ('u, 'm) conn) \<Rightarrow> sr_event \<Rightarrow>
   ('f, 'u, 'm) sr_system \<Rightarrow> ('f, 'u, 'm) sr_system res" where
  "sr_step thread app birth Sr_Arrival s = server_turn birth Sv_Readable s"
| "sr_step thread app birth Sr_Removal s = server_turn birth Sv_Run_Removal s"
| "sr_step thread app birth (Sr_Request l) s = request_turn thread app l s"
| "sr_step thread app birth (Sr_Conn c ev) s = conn_turn thread app (ci_loop (sv_conns (sr_server s) ! c)) c ev s"

text \<open>What is left to promise: the number of connections, and what the kernel reports.\<close>

fun own_event :: "conn_event \<Rightarrow> bool" where
  "own_event Establish = False"
| "own_event Destroy_Connection = False"
| "own_event _ = True"

fun sr_admissible :: "sr_event \<Rightarrow> ('f, 'u, 'm) sr_system \<Rightarrow> bool" where
  "sr_admissible Sr_Arrival s \<longleftrightarrow> length (sv_conns (sr_server s)) < 2147483646"
| "sr_admissible Sr_Removal s \<longleftrightarrow> True"
| "sr_admissible (Sr_Request l) s \<longleftrightarrow> True"
| "sr_admissible (Sr_Conn c ev) s \<longleftrightarrow>
     c < length (sv_conns (sr_server s)) \<and> own_event ev \<and> admissible ev (sr_conn s c)"

definition sr_guarded ::
  "(nat \<Rightarrow> nat) \<Rightarrow> (nat \<Rightarrow> ('u, 'm) app) \<Rightarrow> (conn_info \<Rightarrow> ('u, 'm) conn) \<Rightarrow> sr_event \<Rightarrow>
   ('f, 'u, 'm) sr_system \<Rightarrow> ('f, 'u, 'm) sr_system res" where
  "sr_guarded thread app birth ev s = (if sr_admissible ev s then sr_step thread app birth ev s else Inr s)"

section \<open>One connection\<close>

lemma own_registered:
  assumes own: "own_only True s s'" and ok: "conn_ok self s'" and reg: "registered s"
  shows "registered s'"
proof -
  obtain fd where "pl_channels s fd = Some (tc_channel s)" using reg by (auto simp: registered_def)
  then have "pl_channels s' fd = Some (tc_channel s')" using own by (auto simp: own_only_def)
  moreover from this have "entry_ok fd (chans s' (tc_channel s'))"
    by (rule poller_okD(1) [OF loop_okD(1) [OF conn_okD(1) [OF ok]]])
  ultimately show ?thesis by (auto simp: registered_def entry_ok_def split: option.splits)
qed

lemma live_registered: "conn_ok self s \<Longrightarrow> live s \<Longrightarrow> registered s"
  using conn_okD(10) live_link(1) unfolding registered_def by blast

lemma closed_phase:
  "phase_after ks p = Some q \<Longrightarrow> On_Close u \<in> set ks \<Longrightarrow> q = Gone"
proof (induction ks arbitrary: p)
  case (Cons k ks)
  have gone: "phase_after ks Gone = Some q \<Longrightarrow> q = Gone" for ks :: "'a app_call list"
  proof (induction ks)
    case (Cons k ks)
    then show ?case by (cases k) (auto split: option.splits)
  qed simp
  show ?case
  proof (cases "k = On_Close u")
    case True
    then have "p = Down" using Cons.prems(1) by (cases p) simp_all
    then show ?thesis using Cons.prems(1) True gone by simp
  next
    case False
    then show ?thesis using Cons by (auto split: option.splits)
  qed
qed simp

lemma closed_down:
  assumes "conn_ok self s" "told_closed s"
  shows "tc_state s = kDisconnected"
  using conn_okD(9) [OF assms(1)] assms(2) closed_phase
  unfolding phase_ok_def told_closed_def by (fastforce split: conn_state.splits)

lemma told_closed_mono: "prefix (trace s) (trace s') \<Longrightarrow> told_closed s \<Longrightarrow> told_closed s'"
  by (auto simp: told_closed_def prefix_def)

lemma conn_step_framed:
  assumes app: "app_ok self app" and ev: "ev \<noteq> Destroy_Connection"
  shows "framed True s (conn_step app self ev s)"
proof (cases ev)
  case (Io_Event m t)
  have exec: "framed True s (run_task app self k s)" for k s by (rule run_task_framed [OF app])
  have "framed True s (bindr (upd_chan (tc_channel s) (set_revents m) s) (\<lambda>s. handleEvent (run_task app self) (tc_channel s) t s))"
    by (rule framed_seq [OF framed_own(3)]) (rule handleEvent_framed [OF exec])
  moreover have "bindr (upd_chan (tc_channel s) (set_revents m) s) (\<lambda>s. handleEvent (run_task app self) (tc_channel s) t s) =
      conn_step app self ev s"
    using Io_Event by (cases "chans s (tc_channel s)") (simp_all add: upd_chan_def chan_def put_chan_def)
  ultimately show ?thesis by simp
next
  case Pending_Batch
  have "framed True s (run_task app self k s)" for k s by (rule run_task_framed [OF app])
  then show ?thesis using Pending_Batch by (simp add: doPendingFunctors_framed)
qed (use ev in \<open>simp_all add: connectEstablished_framed [OF app] api_step_framed\<close>)


text \<open>After \<open>connectEstablished\<close> the connection is up or shutting down.\<close>

lemma established_live:
  assumes app: "app_ok self app" and ok: "conn_ok self s" and st: "tc_state s = kConnecting"
  shows "limited (\<lambda>s'. conn_ok self s' \<and> live s') (connectEstablished app s)"
proof -
  obtain u where u: "tc_connectionCallback s = Some u" using conn_okD(5) [OF ok] by (auto simp: callbacks_set_def)
  obtain s2 where s2: "bindr (upd_chan (tc_channel s) (ch_tie (tc_obj s)) (setState kConnected s))
        (enableReading (tc_channel s)) = Inr s2"
      "conn_ok self (told (On_Connection u) s2)" "poller_change (setState kConnected s) s2"
    using go_up [OF ok st, of u] by blast
  note same = tcp_fields_change [OF s2(3)]
  have "limited (\<lambda>s'. conn_ok self s' \<and> live s') (call_back app On_Connection (Some u) s2)"
    by (rule barring_mono [OF call_back_kept [where k = On_Connection and u = u, OF app s2(2)]])
      (auto simp: kept_def api_frame_def live_def same setState_def)
  moreover obtain s1 where "upd_chan (tc_channel s) (ch_tie (tc_obj s)) (setState kConnected s) = Inr s1"
      "enableReading (tc_channel s) s1 = Inr s2" "tc_channel s1 = tc_channel s"
    using s2(1) by (cases "chans s (tc_channel s)") (auto simp: upd_chan_def chan_def setState_def put_chan_def)
  ultimately show ?thesis
    using st by (simp add: connectEstablished_def setState_def same u)
qed

section \<open>What a turn of the server changes\<close>

lemma live_about:
  assumes "sv_ok s" "c < length (sv_conns s)"
  shows "sv_live c s \<longleftrightarrow> length (about c s) = 1"
  using sv_okD(7) [OF assms] by simp

text \<open>The lists the server keeps, after an arrival.\<close>

lemma drain_one_lists:
  "sv_conns (drain_one s) = sv_conns s" "sv_posted (drain_one s) = sv_posted s" "sv_removing (drain_one s) = sv_removing s"
  by (simp_all add: drain_one_def sys_accept_def open_null_def ac_close_def Let_def split: list.split sum.split prod.split)

lemma arrival_lists:
  assumes run: "ac_handleRead newConnection s = Inr s'"
  shows "sv_removing s' = sv_removing s \<and>
    (sv_conns s' = sv_conns s \<and> sv_posted s' = sv_posted s \<or>
     (\<exists>i. sv_conns s' = sv_conns s @ [i] \<and> sv_posted s' = sv_posted s @ [(ci_loop i, Sv_Established (length (sv_conns s)))]))"
proof -
  obtain a s1 where a: "accept_connection s = (a, s1)" by (cases "accept_connection s")
  have s1: "sv_conns s1 = sv_conns s" "sv_posted s1 = sv_posted s" "sv_removing s1 = sv_removing s"
    using a by (auto simp: accept_connection_def sys_accept_def split: list.splits sum.splits)
  show ?thesis
  proof (cases a)
    case (Inl e)
    then show ?thesis using run a s1 by (auto simp: ac_handleRead_def drain_one_lists Let_def split: if_splits)
  next
    case (Inr b)
    then show ?thesis
      using run a s1
      by (auto simp: ac_handleRead_def newConnection_def ac_close_def Let_def res_simps split: if_splits prod.splits)
  qed
qed


section \<open>The invariant\<close>

definition requests_of :: "nat \<Rightarrow> (nat \<times> sv_task) list \<Rightarrow> (nat \<times> sv_task) list" where
  "requests_of c ps = filter (\<lambda>p. sv_conn p = c) ps"

lemma requests_of_simps [simp]:
  "requests_of c [] = []" "requests_of c (ps @ qs) = requests_of c ps @ requests_of c qs"
  "requests_of c (p # ps) = (if sv_conn p = c then p # requests_of c ps else requests_of c ps)"
  by (simp_all add: requests_of_def)

text \<open>
  What the requests that were run say of a connection: none, it is connecting; \<open>Sv_Established\<close>, it is in
  the map of its poller.  It has told the server that it closed when its removal is asked for or done.
\<close>

definition conn_fits :: "nat \<Rightarrow> nat \<Rightarrow> bool \<Rightarrow> ('u, 'm) conn \<Rightarrow> bool" where
  "conn_fits self done' leaving s \<longleftrightarrow> conn_ok self s \<and> \<not> lp_eventHandling s \<and> (tc_state s = kConnecting \<longleftrightarrow> done' = 0) \<and>
     (done' = 1 \<longrightarrow> registered s) \<and> (told_closed s \<longleftrightarrow> leaving)"

definition leaving :: "nat \<Rightarrow> 'f server \<Rightarrow> bool" where
  "leaving c s \<longleftrightarrow> \<not> sv_live c s \<or> c \<in> set (sv_removing s)"

definition sr_ok :: "(nat \<Rightarrow> nat) \<Rightarrow> ('f, 'u, 'm) sr_system \<Rightarrow> bool" where
  "sr_ok thread s \<longleftrightarrow> sv_ok (sr_server s) \<and>
     (\<forall>c. requests_of c (sr_ran s @ sr_queue s) = about c (sr_server s)) \<and>
     (\<forall>c < length (sv_conns (sr_server s)).
        conn_fits (thread (ci_loop (sv_conns (sr_server s) ! c))) (length (requests_of c (sr_ran s)))
          (leaving c (sr_server s)) (sr_conn s c))"

definition newborn :: "nat \<Rightarrow> ('u, 'm) conn \<Rightarrow> bool" where
  "newborn self s \<longleftrightarrow> conn_ok self s \<and> tc_state s = kConnecting \<and> \<not> lp_eventHandling s"

lemma newborn_fits: "newborn self s \<Longrightarrow> conn_fits self 0 False s"
  using closed_down [of self s] by (auto simp: newborn_def conn_fits_def)

text \<open>The connection \<open>newConnection\<close> makes, with the callbacks it sets, is one.\<close>

definition server_conn ::
  "string \<Rightarrow> objid \<Rightarrow> cid \<Rightarrow> int \<Rightarrow> 'u \<Rightarrow> 'u \<Rightarrow> 'u option \<Rightarrow> 'u \<Rightarrow> ('u, 'm) conn \<Rightarrow> ('u, 'm) conn res" where
  "server_conn connName obj c sockfd connectionCb messageCb writeCompleteCb removeCb s =
     bindr (new_TcpConnection connName obj c sockfd s) (\<lambda>s.
       let s = tc_setConnectionCallback (Some connectionCb) s;
           s = tc_setMessageCallback (Some messageCb) s;
           s = tc_setWriteCompleteCallback writeCompleteCb s
       in Inr (tc_setCloseCallback (Some removeCb) s))"

lemma server_conn_newborn:
  fixes s :: "('u, 'm) conn"
  assumes lok: "loop_ok s" and fresh: "chans s c = None" "pl_channels s sockfd = None"
    and held: "0 < use_count s obj" "memory_ok s" "\<forall>f \<in> set (pendingFunctors s). task_ok f" "\<not> lp_eventHandling s"
  shows "\<exists>t. server_conn connName obj c sockfd u v x w s = Inr t \<and> newborn (threadId s) t"
proof -
  obtain t where t: "new_TcpConnection connName obj c sockfd s = Inr t" "tc_state t = kConnecting"
      "conn_ok (threadId s) (tc_setConnectionCallback (Some u) (tc_setMessageCallback (Some v) (tc_setCloseCallback (Some w) t)))"
    using new_connection_ok [OF assms, of connName u v w] by blast
  let ?t = "tc_setConnectionCallback (Some u) (tc_setMessageCallback (Some v) (tc_setCloseCallback (Some w) t))"
  have "loop_ok (?t\<lparr>tc_writeCompleteCallback := x\<rparr>) = loop_ok ?t" by (rule loop_ok_cong) simp_all
  then have "conn_ok (threadId s) (?t\<lparr>tc_writeCompleteCallback := x\<rparr>)"
    using t(3) by (simp add: conn_ok_def callbacks_set_def memory_ok_def)
  moreover have "\<not> lp_eventHandling t"
    using t(1) held(4) by (auto simp: new_TcpConnection_def create_Channel_def put_chan_def upd_chan_def chan_def Let_def res_simps)
  moreover have "tc_setCloseCallback (Some w) (tc_setWriteCompleteCallback x (tc_setMessageCallback (Some v)
      (tc_setConnectionCallback (Some u) t))) = ?t\<lparr>tc_writeCompleteCallback := x\<rparr>"
    by (rule tcp.equality) (simp_all add: tc_setConnectionCallback_def tc_setMessageCallback_def
      tc_setCloseCallback_def tc_setWriteCompleteCallback_def)
  ultimately show ?thesis
    using t(1,2)
    by (simp add: server_conn_def newborn_def) (simp add: tc_setConnectionCallback_def tc_setMessageCallback_def
      tc_setCloseCallback_def)
qed

lemma sr_okD:
  assumes "sr_ok thread s"
  shows "sv_ok (sr_server s)" "requests_of c (sr_ran s @ sr_queue s) = about c (sr_server s)"
    "c < length (sv_conns (sr_server s)) \<Longrightarrow>
      conn_fits (thread (ci_loop (sv_conns (sr_server s) ! c))) (length (requests_of c (sr_ran s)))
        (leaving c (sr_server s)) (sr_conn s c)"
  using assms unfolding sr_ok_def by blast+

lemma arrival_ok:
  assumes ok: "sr_ok thread s" and n: "length (sv_conns (sr_server s)) < 2147483646"
    and birth: "\<And>i. newborn (thread (ci_loop i)) (birth i)"
  shows "\<exists>s'. server_turn birth Sv_Readable s = Inr s' \<and> sr_ok thread s'"
proof -
  let ?sv = "sr_server s" and ?n = "length (sv_conns (sr_server s))"
  note D = sr_okD [OF ok]
  obtain sv where sv: "ac_handleRead newConnection ?sv = Inr sv" "sv_ok sv" using sv_readable_ok [OF D(1) n] by blast
  define s' where "s' = s\<lparr>sr_server := sv,
            sr_conn := (if ?n < length (sv_conns sv) then (sr_conn s)(?n := birth (sv_conns sv ! ?n)) else sr_conn s),
            sr_queue := sr_queue s @ drop (length (sv_posted ?sv)) (sv_posted sv)\<rparr>"
  have run: "server_turn birth Sv_Readable s = Inr s'" using sv(1) by (simp add: server_turn_def s'_def Let_def)
  have rem: "sv_removing sv = sv_removing ?sv" using arrival_lists [OF sv(1)] by blast
  consider (same) "sv_conns sv = sv_conns ?sv" "sv_posted sv = sv_posted ?sv"
    | (new) i where "sv_conns sv = sv_conns ?sv @ [i]" "sv_posted sv = sv_posted ?sv @ [(ci_loop i, Sv_Established ?n)]"
    using arrival_lists [OF sv(1)] by blast
  then have "sr_ok thread s'"
  proof cases
    case same
    then have ab: "about c sv = about c ?sv" for c by (simp add: about_def)
    have "leaving c sv = leaving c ?sv" if "c < ?n" for c
      using live_about [OF sv(2), of c] live_about [OF D(1) that] same(1) that by (simp add: leaving_def rem ab)
    then show ?thesis using sv(2) D same by (simp add: sr_ok_def s'_def ab)
  next
    case new
    have ab: "about c sv = about c ?sv @ (if c = ?n then [(ci_loop i, Sv_Established ?n)] else [])" for c
      by (simp add: about_def new(2))
    have old: "leaving c sv = leaving c ?sv" if "c < ?n" for c
      using live_about [OF sv(2), of c] live_about [OF D(1) that] new(1) that by (simp add: leaving_def rem ab)
    have none: "about ?n ?sv = []" using sv_okD(8) [OF D(1)] by (fastforce simp: about_def filter_empty_conv)
    then have "sv_live ?n sv" using live_about [OF sv(2), of ?n] new(1) ab [of ?n] by simp
    moreover have "?n \<notin> set (sv_removing ?sv)" using sv_okD(10) [OF D(1), of ?n] by (auto simp: sv_live_def)
    ultimately have fresh: "\<not> leaving ?n sv" by (simp add: leaving_def rem)
    have "requests_of ?n (sr_ran s) = []" using D(2) [of ?n] none by simp
    then have nb: "conn_fits (thread (ci_loop i)) (length (requests_of ?n (sr_ran s))) (leaving ?n sv) (birth i)"
      using newborn_fits [OF birth [of i]] fresh by simp
    have "conn_fits (thread (ci_loop (sv_conns sv ! c))) (length (requests_of c (sr_ran s))) (leaving c sv) (sr_conn s' c)"
      if "c < length (sv_conns sv)" for c
    proof (cases "c = ?n")
      case True
      then show ?thesis using nb new(1) by (simp add: s'_def)
    next
      case False
      then show ?thesis using that D(3) [of c] old [of c] new(1) by (simp add: s'_def nth_append)
    qed
    moreover have "requests_of c (sr_ran s' @ sr_queue s') = about c sv" for c
      using D(2) [of c] new(2) by (cases "c = ?n") (simp_all add: s'_def ab)
    ultimately show ?thesis using sv(2) by (simp add: sr_ok_def s'_def)
  qed
  then show ?thesis using run by blast
qed

lemma removal_ok:
  assumes ok: "sr_ok thread s"
  shows "\<exists>s'. server_turn birth Sv_Run_Removal s = Inr s' \<and> sr_ok thread s'"
proof (cases "sv_removing (sr_server s)")
  case Nil
  then have "server_turn birth Sv_Run_Removal s = Inr s" by (simp add: server_turn_def)
  then show ?thesis using ok by blast
next
  case (Cons d ds)
  let ?sv = "sr_server s"
  note D = sr_okD [OF ok]
  obtain sv where sv: "removeConnectionInLoop d (?sv\<lparr>sv_removing := ds\<rparr>) = Inr sv" "sv_ok sv"
    using removeConnectionInLoop_ok [OF D(1) Cons] by blast
  have lists: "sv_conns sv = sv_conns ?sv" "sv_removing sv = ds"
      "sv_posted sv = sv_posted ?sv @ [(ci_loop (sv_conns ?sv ! d), Sv_Destroyed d)]"
    using sv(1) by (auto simp: removeConnectionInLoop_def Let_def res_simps)
  have d: "d \<notin> set ds" "sv_live d ?sv" using sv_okD(9,10) [OF D(1)] Cons by simp_all
  have ab: "about c sv = about c ?sv @ (if c = d then [(ci_loop (sv_conns ?sv ! d), Sv_Destroyed d)] else [])" for c
    by (simp add: about_def lists)
  have "leaving c sv = leaving c ?sv" if "c < length (sv_conns ?sv)" for c
    using live_about [OF sv(2), of c] live_about [OF D(1) that] lists that Cons d
    by (cases "c = d") (auto simp: leaving_def ab)
  then have "sr_ok thread (s\<lparr>sr_server := sv, sr_queue := sr_queue s @ [(ci_loop (sv_conns ?sv ! d), Sv_Destroyed d)]\<rparr>)"
    using sv(2) D by (simp add: sr_ok_def lists ab)
  moreover have "server_turn birth Sv_Run_Removal s =
      Inr (s\<lparr>sr_server := sv, sr_queue := sr_queue s @ [(ci_loop (sv_conns ?sv ! d), Sv_Destroyed d)]\<rparr>)"
    using sv(1) Cons by (simp add: server_turn_def lists)
  ultimately show ?thesis by blast
qed


text \<open>A connection after its turn, the server having heard of its close.\<close>

lemma after_turn:
  assumes sv: "sv_ok (sr_server s)" and reqs: "\<And>d. requests_of d (sr_ran s @ sr_queue s) = about d (sr_server s)"
    and others: "\<And>d. d < length (sv_conns (sr_server s)) \<Longrightarrow> d \<noteq> c \<Longrightarrow>
      conn_fits (thread (ci_loop (sv_conns (sr_server s) ! d))) (length (requests_of d (sr_ran s)))
        (leaving d (sr_server s)) (sr_conn s d)"
    and c: "c < length (sv_conns (sr_server s))"
    and t: "conn_fits (thread (ci_loop (sv_conns (sr_server s) ! c))) (length (requests_of c (sr_ran s))) (told_closed t) t"
    and closed: "told_closed (sr_conn s c) \<longleftrightarrow> leaving c (sr_server s)" "told_closed (sr_conn s c) \<Longrightarrow> told_closed t"
  shows "sr_ok thread (s\<lparr>sr_conn := (sr_conn s)(c := t),
    sr_server := (if told_closed t \<and> \<not> told_closed (sr_conn s c) then sv_removeConnection c (sr_server s) else sr_server s)\<rparr>)"
proof (cases "told_closed t \<and> \<not> told_closed (sr_conn s c)")
  case False
  have "leaving c (sr_server s) = told_closed t" using closed False by blast
  then show ?thesis unfolding if_not_P [OF False] using sv reqs others c t by (simp add: sr_ok_def)
next
  case True
  let ?sv = "sv_removeConnection c (sr_server s)"
  have c': "sv_live c (sr_server s)" "c \<notin> set (sv_removing (sr_server s))" using True closed(1) by (simp_all add: leaving_def)
  have frame: "sv_conns ?sv = sv_conns (sr_server s)" "about d ?sv = about d (sr_server s)"
      "leaving d ?sv = (d = c \<or> leaving d (sr_server s))" for d
    by (auto simp: sv_removeConnection_def about_def leaving_def sv_live_def)
  have "sv_ok ?sv" by (rule removeConnection_ok [OF sv c'])
  then show ?thesis unfolding if_P [OF True] using True reqs others t by (simp add: sr_ok_def frame)
qed

lemma still_connecting:
  assumes ok: "conn_ok self s" and st: "tc_state s = kConnecting" and ev: "own_event ev" "admissible ev s"
  shows "limited (\<lambda>t. tc_state t = kConnecting) (conn_step app self ev s)"
proof (cases ev)
  case (Io_Event m t)
  then show ?thesis using polled_live [OF ok, of m] ev st by (auto simp: live_def)
next
  case (Call_From t k)
  show ?thesis unfolding Call_From conn_step.simps
    by (rule barring_mono [OF api_step_kept [OF ok]]) (use st in \<open>auto simp: kept_def api_frame_def\<close>)
qed (use ev st in simp_all)

lemma conn_turn_ok:
  assumes ok: "sr_ok thread s" and app: "\<And>l. app_ok (thread l) (app l)" and ev: "own_event ev"
    and c: "c < length (sv_conns (sr_server s))" and adm: "admissible ev (sr_conn s c)"
  shows "limited (sr_ok thread) (conn_turn thread app (ci_loop (sv_conns (sr_server s) ! c)) c ev s)"
proof -
  let ?cn = "sr_conn s c" and ?l = "ci_loop (sv_conns (sr_server s) ! c)"
  let ?self = "thread ?l"
  note D = sr_okD [OF ok]
  have fits: "conn_fits ?self (length (requests_of c (sr_ran s))) (leaving c (sr_server s)) ?cn" by (rule D(3) [OF c])
  then have cok: "conn_ok ?self ?cn" by (simp add: conn_fits_def)
  let ?P = "\<lambda>t. (advances ?self ?cn t \<and> own_only True ?cn t) \<and> (tc_state t = kConnecting \<longleftrightarrow> tc_state ?cn = kConnecting)"
  have "limited (advances ?self ?cn) (conn_step (app ?l) ?self ev ?cn)"
    using guarded_step_ok [OF app advances_refl [OF cok], of ev] adm by (simp add: guarded_step_def)
  moreover have "framed True ?cn (conn_step (app ?l) ?self ev ?cn)"
    by (rule conn_step_framed [OF app]) (use ev in auto)
  ultimately have both: "limited (\<lambda>t. advances ?self ?cn t \<and> own_only True ?cn t) (conn_step (app ?l) ?self ev ?cn)"
    by (rule barring_conj)
  have "limited ?P (conn_step (app ?l) ?self ev ?cn)"
  proof (cases "tc_state ?cn = kConnecting")
    case True
    then show ?thesis using barring_conj [OF both still_connecting [OF cok True ev adm]] by simp
  next
    case False
    then show ?thesis by (intro barring_mono [OF both]) (auto dest: advances_up)
  qed
  then show ?thesis
    unfolding conn_turn_def
  proof (rule barring_bindr)
    fix t assume t: "?P t"
    then have tok: "conn_ok ?self t" "\<not> lp_eventHandling t" "told_closed ?cn \<Longrightarrow> told_closed t"
      using fits told_closed_mono by (auto simp: advances_def own_only_def conn_fits_def)
    have "registered ?cn \<Longrightarrow> registered t" using own_registered t tok(1) by blast
    then have "conn_fits ?self (length (requests_of c (sr_ran s))) (told_closed t) t"
      using tok t fits by (auto simp: conn_fits_def)
    then have "sr_ok thread (s\<lparr>sr_conn := (sr_conn s)(c := t),
        sr_server := (if told_closed t \<and> \<not> told_closed ?cn then sv_removeConnection c (sr_server s) else sr_server s)\<rparr>)"
      by (intro after_turn) (use D c fits tok(3) in \<open>auto simp: conn_fits_def\<close>)
    then show "limited (sr_ok thread) (Inr (s\<lparr>sr_conn := (sr_conn s)(c := t),
        sr_server := (if told_closed t \<and> \<not> told_closed ?cn then sv_removeConnection c (sr_server s) else sr_server s)\<rparr>))"
      by simp
  qed
qed


text \<open>The first request of a loop: it is the next one about its connection, and finds it as it needs it.\<close>

lemma next_request:
  assumes ok: "sr_ok thread s" and q: "sr_queue s = before @ p # after" "\<forall>q \<in> set before. fst q \<noteq> fst p" and c: "sv_conn p = c"
  shows "c < length (sv_conns (sr_server s))" "fst p = ci_loop (sv_conns (sr_server s) ! c)"
    "requests_of d (sr_ran s @ [p] @ before @ after) = about d (sr_server s)"
    "requests_of c (sr_ran s) = [] \<and> snd p = Sv_Established c \<or>
     length (requests_of c (sr_ran s)) = 1 \<and> snd p = Sv_Destroyed c \<and> \<not> sv_live c (sr_server s)"
proof -
  let ?sv = "sr_server s"
  note D = sr_okD [OF ok]
  have ab: "requests_of c (sr_ran s) @ requests_of c before @ p # requests_of c after = about c ?sv"
    using D(2) [of c] q(1) c by simp
  have "p \<in> set (about c ?sv)" unfolding ab [symmetric] by simp
  then have "p \<in> set (sv_posted ?sv)" by (simp add: about_def)
  then show cn: "c < length (sv_conns ?sv)" using sv_okD(8) [OF D(1)] c by blast
  note shape = sv_okD(7) [OF D(1) cn]
  show l: "fst p = ci_loop (sv_conns ?sv ! c)" using \<open>p \<in> set (about c ?sv)\<close> shape by (auto split: if_splits)
  have "fst q = fst p" if "q \<in> set (requests_of c before)" for q
  proof -
    have "q \<in> set (about c ?sv)" unfolding ab [symmetric] using that by simp
    then show ?thesis using shape l by (auto split: if_splits)
  qed
  moreover have "set (requests_of c before) \<subseteq> set before" by (auto simp: requests_of_def)
  ultimately have "x \<notin> set (requests_of c before)" for x using q(2) by blast
  then have none: "requests_of c before = []" by (metis list.set_intros(1) neq_Nil_conv)
  show "requests_of d (sr_ran s @ [p] @ before @ after) = about d ?sv"
    using D(2) [of d] q(1) c none by (cases "d = c") simp_all
  have "requests_of c (sr_ran s) @ p # requests_of c after = (ci_loop (sv_conns ?sv ! c), Sv_Established c) #
        (if sv_live c ?sv then [] else [(ci_loop (sv_conns ?sv ! c), Sv_Destroyed c)])"
    using ab none shape by simp
  then show "requests_of c (sr_ran s) = [] \<and> snd p = Sv_Established c \<or>
     length (requests_of c (sr_ran s)) = 1 \<and> snd p = Sv_Destroyed c \<and> \<not> sv_live c ?sv"
    by (cases "requests_of c (sr_ran s)") (auto split: if_splits simp: append_eq_Cons_conv)
qed

lemma request_turn_ok:
  fixes s :: "('f, 'u, 'm) sr_system"
  assumes ok: "sr_ok thread s" and app: "\<And>l. app_ok (thread l) (app l)"
  shows "limited (sr_ok thread) (request_turn thread app l s)"
proof (cases "List.extract (\<lambda>p. fst p = l) (sr_queue s)")
  case None
  then show ?thesis using ok by (simp add: request_turn_def)
next
  case (Some r)
  obtain before p after where r: "r = (before, p, after)" by (cases r)
  then have q: "sr_queue s = before @ p # after" "fst p = l" "\<forall>q \<in> set before. fst q \<noteq> fst p"
    using Some by (auto simp: extract_Some_iff)
  define c where "c = sv_conn p"
  let ?cn = "sr_conn s c" and ?self = "thread l"
  let ?s = "s\<lparr>sr_queue := before @ after, sr_ran := sr_ran s @ [p]\<rparr>"
  note D = sr_okD [OF ok]
  note N = next_request [OF ok q(1,3) c_def [symmetric]]
  have fits: "conn_fits ?self (length (requests_of c (sr_ran s))) (leaving c (sr_server s)) ?cn"
    using D(3) [OF N(1)] N(2) q(2) by simp
  then have cok: "conn_ok ?self ?cn" and idle: "\<not> lp_eventHandling ?cn" by (simp_all add: conn_fits_def)
  have "limited (\<lambda>t. conn_fits ?self (length (requests_of c (sr_ran s @ [p]))) (told_closed t) t \<and> (told_closed ?cn \<longrightarrow> told_closed t))
      (conn_step (app l) ?self (request_event (snd p)) ?cn)"
    using N(4)
  proof
    assume est: "requests_of c (sr_ran s) = [] \<and> snd p = Sv_Established c"
    then have st: "tc_state ?cn = kConnecting" using fits by (simp add: conn_fits_def)
    have "limited (\<lambda>t. (conn_ok ?self t \<and> live t) \<and> own_only True ?cn t) (connectEstablished (app l) ?cn)"
      by (rule barring_conj [OF established_live [OF app cok st] connectEstablished_framed [OF app]])
    then have "limited (\<lambda>t. conn_fits ?self (length (requests_of c (sr_ran s @ [p]))) (told_closed t) t \<and> (told_closed ?cn \<longrightarrow> told_closed t))
        (connectEstablished (app l) ?cn)"
    proof (rule barring_mono)
      fix t assume t: "(conn_ok ?self t \<and> live t) \<and> own_only True ?cn t"
      have "\<not> told_closed ?cn" using closed_down [OF cok] st by auto
      then show "conn_fits ?self (length (requests_of c (sr_ran s @ [p]))) (told_closed t) t \<and> (told_closed ?cn \<longrightarrow> told_closed t)"
        using t idle est live_registered [of ?self t] by (auto simp: conn_fits_def live_def own_only_def c_def)
    qed
    then show ?thesis using est by simp
  next
    assume des: "length (requests_of c (sr_ran s)) = 1 \<and> snd p = Sv_Destroyed c \<and> \<not> sv_live c (sr_server s)"
    then have cl: "told_closed ?cn" and reg: "registered ?cn" using fits by (auto simp: conn_fits_def leaving_def)
    have st: "tc_state ?cn = kDisconnected" by (rule closed_down [OF cok cl])
    have "limited (\<lambda>t. evolves ?self ?cn t \<and> own_only False ?cn t) (connectDestroyed (app l) ?cn)"
      by (rule barring_conj [OF connectDestroyed_ok [OF app cok idle] connectDestroyed_framed [OF app]]) (use st reg in blast)
    then have "limited (\<lambda>t. conn_fits ?self (length (requests_of c (sr_ran s @ [p]))) (told_closed t) t \<and> (told_closed ?cn \<longrightarrow> told_closed t))
        (connectDestroyed (app l) ?cn)"
    proof (rule barring_mono)
      fix t assume t: "evolves ?self ?cn t \<and> own_only False ?cn t"
      then have "told_closed t" using told_closed_mono cl by (auto simp: evolves_def)
      then show "conn_fits ?self (length (requests_of c (sr_ran s @ [p]))) (told_closed t) t \<and> (told_closed ?cn \<longrightarrow> told_closed t)"
        using t idle des evolves_up [of ?self ?cn t] st by (auto simp: conn_fits_def own_only_def c_def evolves_def)
    qed
    then show ?thesis using des by simp
  qed
  then have "limited (sr_ok thread) (bindr (conn_step (app l) ?self (request_event (snd p)) ?cn) (\<lambda>t.
      Inr (?s\<lparr>sr_conn := (sr_conn ?s)(c := t),
        sr_server := (if told_closed t \<and> \<not> told_closed (sr_conn ?s c) then sv_removeConnection c (sr_server ?s) else sr_server ?s)\<rparr>)))"
  proof (rule barring_bindr)
    fix t :: "('u, 'm) conn" assume t: "conn_fits ?self (length (requests_of c (sr_ran s @ [p]))) (told_closed t) t \<and> (told_closed ?cn \<longrightarrow> told_closed t)"
    have other: "requests_of d (sr_ran s @ [p]) = requests_of d (sr_ran s)" if "d \<noteq> c" for d using that by (simp add: c_def)
    have "sr_ok thread (?s\<lparr>sr_conn := (sr_conn ?s)(c := t),
        sr_server := (if told_closed t \<and> \<not> told_closed (sr_conn ?s c) then sv_removeConnection c (sr_server ?s) else sr_server ?s)\<rparr>)"
    proof (rule after_turn)
      show "requests_of d (sr_ran ?s @ sr_queue ?s) = about d (sr_server ?s)" for d using N(3) [of d] by simp
      show "conn_fits (thread (ci_loop (sv_conns (sr_server ?s) ! d))) (length (requests_of d (sr_ran ?s)))
        (leaving d (sr_server ?s)) (sr_conn ?s d)" if "d < length (sv_conns (sr_server ?s))" "d \<noteq> c" for d
        using D(3) [of d] that other [of d] by simp
    qed (use D(1) N(1,2) q(2) fits t in \<open>simp_all add: conn_fits_def\<close>)
    then show "limited (sr_ok thread) (Inr (?s\<lparr>sr_conn := (sr_conn ?s)(c := t),
        sr_server := (if told_closed t \<and> \<not> told_closed (sr_conn ?s c) then sv_removeConnection c (sr_server ?s) else sr_server ?s)\<rparr>))"
      by simp
  qed
  moreover have "request_turn thread app l s = conn_turn thread app l c (request_event (snd p)) ?s"
    using Some r q(2) by (simp add: request_turn_def c_def)
  ultimately show ?thesis by (simp add: conn_turn_def)
qed


lemma sr_guarded_ok:
  assumes ok: "sr_ok thread s" and app: "\<And>l. app_ok (thread l) (app l)" and birth: "\<And>i. newborn (thread (ci_loop i)) (birth i)"
  shows "limited (sr_ok thread) (sr_guarded thread app birth ev s)"
proof (cases "sr_admissible ev s")
  case True
  show ?thesis
  proof (cases ev)
    case Sr_Arrival
    then show ?thesis using arrival_ok [where birth = birth, OF ok _ birth] True by (auto simp: sr_guarded_def)
  next
    case Sr_Removal
    then show ?thesis using removal_ok [OF ok, of birth] by (auto simp: sr_guarded_def)
  next
    case (Sr_Request l)
    then show ?thesis using request_turn_ok [OF ok app] by (simp add: sr_guarded_def)
  next
    case (Sr_Conn c e)
    then show ?thesis using conn_turn_ok [OF ok app, of e c] True by (simp add: sr_guarded_def)
  qed
qed (use ok in \<open>simp add: sr_guarded_def\<close>)

interpretation serving_run: service "\<lambda>e. e = Length_Error" "sr_ok thread"
  "\<lambda>_. (\<forall>l. app_ok (thread l) (app l)) \<and> (\<forall>i. newborn (thread (ci_loop i)) (birth i))" "sr_guarded thread app birth"
  for thread app birth
  by unfold_locales (rule sr_guarded_ok; blast)

text \<open>A server that has started and has no connection yet.\<close>

definition sr_idle :: "('f, 'u, 'm) sr_system \<Rightarrow> bool" where
  "sr_idle s \<longleftrightarrow> sv_ok (sr_server s) \<and> sv_conns (sr_server s) = [] \<and> sr_queue s = [] \<and> sr_ran s = []"

lemma sr_idle_ok: "sr_idle s \<Longrightarrow> sr_ok thread s"
  using sv_okD(8) [of "sr_server s"] by (fastforce simp: sr_idle_def sr_ok_def about_def filter_empty_conv)

text \<open>What has been run for a connection, and what that says of it.\<close>

lemma conn_history:
  assumes ok: "sr_ok thread s" and c: "c < length (sv_conns (sr_server s))"
  defines "l \<equiv> ci_loop (sv_conns (sr_server s) ! c)" and "t \<equiv> sr_conn s c"
  shows "well_told (trace t)" "told_closed t \<Longrightarrow> tc_state t = kDisconnected"
    "tc_state t = kConnecting \<longleftrightarrow> (l, Sv_Established c) \<notin> set (sr_ran s)"
    "(l, Sv_Destroyed c) \<in> set (sr_ran s) \<Longrightarrow> told_closed t"
    "told_closed t \<longleftrightarrow> leaving c (sr_server s)"
    "sr_queue s = [] \<Longrightarrow> sv_removing (sr_server s) = [] \<Longrightarrow> told_closed t \<Longrightarrow> (l, Sv_Destroyed c) \<in> set (sr_ran s)"
proof -
  note D = sr_okD [OF ok]
  have fits: "conn_fits (thread l) (length (requests_of c (sr_ran s))) (leaving c (sr_server s)) t"
    unfolding l_def t_def by (rule D(3) [OF c])
  then have cok: "conn_ok (thread l) t" by (simp add: conn_fits_def)
  have "\<exists>p. phase_after (trace t) Before_Up = Some p"
    using conn_okD(9) [OF cok] by (auto simp: phase_ok_def split: conn_state.splits)
  then show "well_told (trace t)" using phase_well_told by blast
  show "told_closed t \<Longrightarrow> tc_state t = kDisconnected" by (rule closed_down [OF cok])
  show closed: "told_closed t \<longleftrightarrow> leaving c (sr_server s)" using fits by (simp add: conn_fits_def)
  have parts: "requests_of c (sr_ran s) @ requests_of c (sr_queue s) =
      (l, Sv_Established c) # (if sv_live c (sr_server s) then [] else [(l, Sv_Destroyed c)])"
    using D(2) [of c] sv_okD(7) [OF D(1) c] by (simp add: l_def)
  have mem: "(l, r) \<in> set (sr_ran s) \<longleftrightarrow> (l, r) \<in> set (requests_of c (sr_ran s))" if "sv_conn (l, r) = c" for r
    using that by (auto simp: requests_of_def)
  consider (none) "requests_of c (sr_ran s) = []" | (one) "requests_of c (sr_ran s) = [(l, Sv_Established c)]"
    | (both) "requests_of c (sr_ran s) = [(l, Sv_Established c), (l, Sv_Destroyed c)]" "\<not> sv_live c (sr_server s)"
    using parts by (auto split: if_splits simp: append_eq_Cons_conv)
  note cases' = this
  show "tc_state t = kConnecting \<longleftrightarrow> (l, Sv_Established c) \<notin> set (sr_ran s)"
    by (rule cases') (use fits mem [of "Sv_Established c"] in \<open>simp_all add: conn_fits_def\<close>)
  show "(l, Sv_Destroyed c) \<in> set (sr_ran s) \<Longrightarrow> told_closed t"
    by (rule cases') (use closed mem [of "Sv_Destroyed c"] in \<open>simp_all add: leaving_def\<close>)
  show "(l, Sv_Destroyed c) \<in> set (sr_ran s)" if "sr_queue s = []" "sv_removing (sr_server s) = []" "told_closed t"
    using that parts closed mem [of "Sv_Destroyed c"] by (auto simp: leaving_def)
qed

section \<open>Properties\<close>

text \<open>C1: the server and its connections together.  However arrivals, removals, the loops' work on the
  server's requests, and the events, functors and calls of all the connections interleave, no
  assertion fails, \<open>connectEstablished\<close> and \<open>connectDestroyed\<close> among them: the server calls them only
  when a connection is ready for them.  A connection is up or has been up when it was told to start,
  and closed before it is told to stop; it is in the map and stays there exactly as long as it has
  not told the server that it closed; and when nothing is left to run, every closed connection has
  been taken off its loop.\<close>

theorem server_serves:
  assumes "sr_idle s" "\<forall>l. app_ok (thread l) (app l)" "\<forall>i. newborn (thread (ci_loop i)) (birth i)"
  shows "case foldr_res (sr_guarded thread app birth) evs s of
      Inl e \<Rightarrow> e = Length_Error
    | Inr s' \<Rightarrow>
        (\<forall>c < length (sv_conns (sr_server s')).
           let t = sr_conn s' c; l = ci_loop (sv_conns (sr_server s') ! c) in
             well_told (trace t) \<and> (told_closed t \<longrightarrow> tc_state t = kDisconnected) \<and>
             (tc_state t = kConnecting \<longleftrightarrow> (l, Sv_Established c) \<notin> set (sr_ran s')) \<and>
             ((l, Sv_Destroyed c) \<in> set (sr_ran s') \<longrightarrow> told_closed t) \<and>
             (told_closed t \<longleftrightarrow> connections (sr_server s') (ci_name (sv_conns (sr_server s') ! c)) \<noteq> Some c \<or>
               c \<in> set (sv_removing (sr_server s'))) \<and>
             (sr_queue s' = [] \<and> sv_removing (sr_server s') = [] \<longrightarrow> told_closed t \<longrightarrow> (l, Sv_Destroyed c) \<in> set (sr_ran s')))"
proof -
  have run: "limited (sr_ok thread) (foldr_res (sr_guarded thread app birth) evs s)"
    by (rule serving_run.run_safe [where app = app and birth = birth]) (use assms sr_idle_ok in blast)+
  show ?thesis
  proof (cases "foldr_res (sr_guarded thread app birth) evs s")
    case (Inr s')
    then have ok: "sr_ok thread s'" using run by simp
    show ?thesis
      unfolding Inr sum.case Let_def using conn_history [OF ok]
      by (simp add: leaving_def sv_live_def)
  qed (use run in simp)
qed


section \<open>Samples\<close>

definition sample_system :: "(nat, nat, unit) sr_system" where
  "sample_system = \<lparr>sr_server = sample_server, sr_conn = (\<lambda>_. sample_conn), sr_queue = [], sr_ran = []\<rparr>"

lemma sample_system_idle: "sr_idle sample_system"
  using sample_server_ok by (simp add: sr_idle_def sample_system_def) (simp add: sample_server_def loop.defs)

lemma sample_newborn: "newborn 1 sample_conn"
  using sample_conn_ok(1,2) sample_conn_idle by (simp add: newborn_def)

theorem server_serves_witness:
  "case foldr_res (sr_guarded (\<lambda>_. 1) (\<lambda>_. sample_app) (\<lambda>_. sample_conn))
       [Sr_Arrival, Sr_Request 0, Sr_Conn 0 (Io_Event POLLIN (Timestamp 9)), Sr_Removal, Sr_Request 0] sample_system of
      Inl e \<Rightarrow> e = Length_Error
    | Inr s' \<Rightarrow> \<forall>c < length (sv_conns (sr_server s')). well_told (trace (sr_conn s' c))"
proof -
  define evs where "evs = [Sr_Arrival, Sr_Request 0, Sr_Conn 0 (Io_Event POLLIN (Timestamp 9)), Sr_Removal, Sr_Request 0]"
  have app: "\<forall>l :: nat. app_ok ((\<lambda>_. 1) l) ((\<lambda>_. sample_app) l)" using sample_app_ok by simp
  have birth: "\<forall>i :: conn_info. newborn ((\<lambda>_ :: nat. 1) (ci_loop i)) ((\<lambda>_. sample_conn) i)" using sample_newborn by simp
  note r = server_serves [OF sample_system_idle app birth, of evs]
  show ?thesis unfolding evs_def [symmetric]
    by (cases "foldr_res (sr_guarded (\<lambda>_. 1) (\<lambda>_. sample_app) (\<lambda>_. sample_conn)) evs sample_system") (use r in \<open>simp_all add: Let_def\<close>)
qed

end
