(* ===== verification/Latch.thy ===== *)
theory Latch
  imports Prelude
begin

text \<open>
  \<open>base/CountDownLatch.h\<close>: the latch and the threads that wait for it.  A step is a critical
  section of the mutex; a thread in the condition variable's \<open>wait\<close> has released the mutex, may
  wake up for no reason, and tests the predicate again before it returns.
\<close>

section \<open>The class\<close>

record latch =
  lt_count :: int

definition new_CountDownLatch :: "int \<Rightarrow> latch" where
  "new_CountDownLatch count = \<lparr>lt_count = count\<rparr>"

definition getCount :: "'m latch_scheme \<Rightarrow> int" where
  "getCount l = lt_count l"

text \<open>The predicate of \<open>wait\<close>.\<close>

definition latch_open :: "'m latch_scheme \<Rightarrow> bool" where
  "latch_open l \<longleftrightarrow> lt_count l \<le> 0"

section \<open>The threads\<close>

datatype waiter =
    L_Outside
  | L_Enter      \<comment> \<open>about to lock the mutex, or woken in the wait\<close>
  | L_Waiting    \<comment> \<open>in \<open>condition_.wait\<close>\<close>
  | L_Returned   \<comment> \<open>\<open>wait()\<close> has returned\<close>

record latch_system = latch +
  waiters :: "waiter list"
  counted :: nat      \<comment> \<open>the calls of \<open>countDown\<close> so far\<close>

fun wake_waiter :: "waiter \<Rightarrow> waiter" where
  "wake_waiter L_Waiting = L_Enter"
| "wake_waiter w = w"

definition notify_all :: "latch_system \<Rightarrow> latch_system" where
  "notify_all s = s\<lparr>waiters := map wake_waiter (waiters s)\<rparr>"

definition countDown :: "latch_system \<Rightarrow> latch_system" where
  "countDown s =
     (let s = s\<lparr>lt_count := lt_count s - 1, counted := Suc (counted s)\<rparr>
      in if lt_count s = 0 then notify_all s else s)"

text \<open>The test of the predicate, under the mutex.\<close>

definition wait_test :: "nat \<Rightarrow> latch_system \<Rightarrow> latch_system" where
  "wait_test i s = s\<lparr>waiters := (waiters s)[i := if latch_open s then L_Returned else L_Waiting]\<rparr>"

text \<open>\<open>countDown\<close> is called at most until the counter of 32 bits is at its least value.\<close>

inductive latch_step :: "latch_system \<Rightarrow> latch_system \<Rightarrow> bool" where
  L_Call: "i < length (waiters s) \<Longrightarrow> waiters s ! i = L_Outside \<Longrightarrow>
    latch_step s (s\<lparr>waiters := (waiters s)[i := L_Enter]\<rparr>)"
| L_Test: "i < length (waiters s) \<Longrightarrow> waiters s ! i = L_Enter \<Longrightarrow> latch_step s (wait_test i s)"
| L_Spurious: "i < length (waiters s) \<Longrightarrow> waiters s ! i = L_Waiting \<Longrightarrow>
    latch_step s (s\<lparr>waiters := (waiters s)[i := L_Enter]\<rparr>)"
| L_Count: "- 2147483648 < lt_count s \<Longrightarrow> latch_step s (countDown s)"

inductive latch_reach :: "int \<Rightarrow> latch_system \<Rightarrow> bool" for n where
  "waiters s = replicate k L_Outside \<Longrightarrow> counted s = 0 \<Longrightarrow> lt_count s = lt_count (new_CountDownLatch n) \<Longrightarrow> latch_reach n s"
| "latch_reach n s \<Longrightarrow> latch_step s s' \<Longrightarrow> latch_reach n s'"

inductive_cases latch_stepE: "latch_step s s'"

definition latch_inv :: "int \<Rightarrow> latch_system \<Rightarrow> bool" where
  "latch_inv n s \<longleftrightarrow> lt_count s = n - int (counted s) \<and> (L_Waiting \<in> set (waiters s) \<longrightarrow> 0 < lt_count s) \<and>
     (L_Returned \<in> set (waiters s) \<longrightarrow> lt_count s \<le> 0)"

lemma in_update: "x \<in> set (xs[i := y]) \<Longrightarrow> x = y \<or> x \<in> set xs"
  using set_update_subset_insert by fastforce

lemma wake_waiter_iff [simp]: "wake_waiter w \<noteq> L_Waiting" "wake_waiter w = L_Returned \<longleftrightarrow> w = L_Returned"
  by (cases w; simp)+

lemma countDown_inv:
  assumes inv: "latch_inv n s"
  shows "latch_inv n (countDown s)"
proof (cases "lt_count s = 1")
  case True
  have "L_Waiting \<notin> set (map wake_waiter (waiters s))" by (auto dest: sym)
  moreover have "L_Returned \<notin> set (waiters s)" using inv True by (auto simp: latch_inv_def)
  then have "L_Returned \<notin> set (map wake_waiter (waiters s))" by (metis (no_types) image_iff list.set_map wake_waiter_iff(2))
  ultimately show ?thesis using inv True by (simp add: latch_inv_def countDown_def notify_all_def Let_def)
next
  case False
  then show ?thesis using inv by (auto simp: latch_inv_def countDown_def Let_def)
qed

lemma latch_step_inv: "latch_step s s' \<Longrightarrow> latch_inv n s \<Longrightarrow> latch_inv n s'"
proof (erule latch_stepE)
  fix i assume "latch_inv n s" "s' = wait_test i s"
  then show ?thesis by (auto simp: latch_inv_def wait_test_def latch_open_def dest!: in_update)
next
  assume "latch_inv n s" "s' = countDown s"
  then show ?thesis using countDown_inv by simp
qed (auto simp: latch_inv_def dest!: in_update)

lemma latch_reach_inv: "latch_reach n s \<Longrightarrow> latch_inv n s"
proof (induction rule: latch_reach.induct)
  case (1 s k)
  then show ?case by (auto simp: latch_inv_def new_CountDownLatch_def)
qed (rule latch_step_inv)

section \<open>Properties\<close>

text \<open>C38: a latch of n opens with the n-th \<open>countDown\<close>, and not before.  In every interleaving, with
  waits before and after and waking up for no reason, nobody has returned from \<open>wait\<close> before, nobody
  sleeps in it afterwards, and whoever is in it then returns with its next step; the latch stays open.\<close>

theorem latch_releases:
  assumes "latch_reach n s"
  shows "getCount s = n - int (counted s) \<and> (int (counted s) < n \<longrightarrow> L_Returned \<notin> set (waiters s)) \<and>
    (n \<le> int (counted s) \<longrightarrow> L_Waiting \<notin> set (waiters s) \<and>
      (\<forall>i < length (waiters s). waiters s ! i = L_Enter \<longrightarrow>
        (\<exists>s'. latch_step s s' \<and> waiters s' ! i = L_Returned \<and> getCount s' = getCount s)))"
proof (intro conjI impI allI)
  have inv: "latch_inv n s" by (rule latch_reach_inv [OF assms])
  then show "getCount s = n - int (counted s)" by (simp add: latch_inv_def getCount_def)
  show "L_Returned \<notin> set (waiters s)" if "int (counted s) < n" using inv that by (auto simp: latch_inv_def)
  show "L_Waiting \<notin> set (waiters s)" if "n \<le> int (counted s)" using inv that by (auto simp: latch_inv_def)
  fix i assume n: "n \<le> int (counted s)" and i: "i < length (waiters s)" "waiters s ! i = L_Enter"
  have "latch_step s (wait_test i s)" by (rule L_Test [OF i])
  moreover have "waiters (wait_test i s) ! i = L_Returned"
    using inv n i by (simp add: wait_test_def latch_open_def latch_inv_def)
  ultimately show "\<exists>s'. latch_step s s' \<and> waiters s' ! i = L_Returned \<and> getCount s' = getCount s"
    by (intro exI [of _ "wait_test i s"]) (simp add: wait_test_def getCount_def)
qed

section \<open>Samples\<close>

definition sample_latch :: latch_system where
  "sample_latch = countDown (wait_test 0 (\<lparr>lt_count = 1, waiters = [L_Enter], counted = 0\<rparr>))"

lemma sample_latch_reach: "latch_reach 1 sample_latch"
proof -
  let ?s = "\<lparr>lt_count = 1, waiters = [L_Outside], counted = 0\<rparr>" and ?t = "\<lparr>lt_count = 1, waiters = [L_Enter], counted = 0\<rparr>"
  have s: "latch_reach 1 ?s" by (rule latch_reach.intros(1) [of _ 1]) (simp_all add: new_CountDownLatch_def)
  have t: "latch_reach 1 ?t" using latch_reach.intros(2) [OF s L_Call [of 0]] by simp
  have "latch_reach 1 (wait_test 0 ?t)" by (rule latch_reach.intros(2) [OF t L_Test]) simp_all
  then show ?thesis
    unfolding sample_latch_def by (rule latch_reach.intros(2) [OF _ L_Count]) (simp add: wait_test_def)
qed

theorem latch_releases_witness:
  "getCount sample_latch = 0 \<and> (\<exists>s'. latch_step sample_latch s' \<and> waiters s' ! 0 = L_Returned)"
proof -
  have "counted sample_latch = 1" "waiters sample_latch = [L_Enter]"
    by (simp_all add: sample_latch_def countDown_def wait_test_def latch_open_def notify_all_def Let_def)
  then show ?thesis using latch_releases [OF sample_latch_reach] by auto
qed

end
