(* ===== verification/ThreadLocals.thy ===== *)
theory ThreadLocals
  imports Prelude
begin

text \<open>
  The two uses of \<open>thread_local\<close>: \<open>base/ThreadLocalSingleton.h\<close>, one object for each thread, and
  \<open>t_loopInThisThread\<close> of \<open>net/EventLoop.cc\<close>, the loop of a thread.  A thread-local variable is a
  map from threads; so is the value of a POSIX key.  The allocator is a parameter.
\<close>

section \<open>The singleton\<close>

record tl_singleton =
  t_value :: "nat \<Rightarrow> nat option"      \<comment> \<open>\<open>t_value_\<close> of each thread\<close>
  specific :: "nat \<Rightarrow> nat option"     \<comment> \<open>the value of \<open>Deleter::pkey_\<close> in each thread\<close>
  objects :: "nat set"               \<comment> \<open>the objects that exist\<close>
  tl_deleted :: "nat list"

definition tl_initial :: tl_singleton where
  "tl_initial = \<lparr>t_value = Map.empty, specific = Map.empty, objects = {}, tl_deleted = []\<rparr>"

definition tl_pointer :: "nat \<Rightarrow> tl_singleton \<Rightarrow> nat option" where
  "tl_pointer t s = t_value s t"

definition deleter_set :: "nat \<Rightarrow> nat \<Rightarrow> tl_singleton \<Rightarrow> tl_singleton res" where
  "deleter_set t newObj s =
     ensure ''set: pthread_getspecific'' (specific s t = None) (Inr (s\<lparr>specific := (specific s)(t \<mapsto> newObj)\<rparr>))"

definition tl_instance :: "(tl_singleton \<Rightarrow> nat option) \<Rightarrow> nat \<Rightarrow> tl_singleton \<Rightarrow> (nat \<times> tl_singleton) res" where
  "tl_instance alloc t s =
     (case t_value s t of
        Some a \<Rightarrow> Inr (a, s)
      | None \<Rightarrow>
          (case alloc s of
             None \<Rightarrow> Inl Bad_Alloc
           | Some a \<Rightarrow>
               bindr (deleter_set t a (s\<lparr>t_value := (t_value s)(t \<mapsto> a), objects := insert a (objects s)\<rparr>))
                 (\<lambda>s. Inr (a, s))))"

definition tl_destructor :: "nat \<Rightarrow> nat \<Rightarrow> tl_singleton \<Rightarrow> tl_singleton res" where
  "tl_destructor t obj s =
     ensure ''destructor: obj == t_value_'' (t_value s t = Some obj)
       (case t_value s t of
          None \<Rightarrow> Inr s
        | Some a \<Rightarrow>
            if a \<in> objects s
            then Inr (s\<lparr>objects := objects s - {a}, tl_deleted := tl_deleted s @ [a], t_value := (t_value s)(t := None)\<rparr>)
            else Inl Use_After_Free)"

text \<open>The end of a thread: POSIX takes the value of the key away and calls the destructor with it.\<close>

definition tl_exit :: "nat \<Rightarrow> tl_singleton \<Rightarrow> tl_singleton res" where
  "tl_exit t s =
     (case specific s t of
        None \<Rightarrow> Inr s
      | Some a \<Rightarrow> tl_destructor t a (s\<lparr>specific := (specific s)(t := None)\<rparr>))"

datatype tl_event = Tl_Instance nat | Tl_Exit nat

fun tl_step :: "(tl_singleton \<Rightarrow> nat option) \<Rightarrow> tl_event \<Rightarrow> tl_singleton \<Rightarrow> tl_singleton res" where
  "tl_step alloc (Tl_Instance t) s = bindr (tl_instance alloc t s) (\<lambda>(_, s). Inr s)"
| "tl_step alloc (Tl_Exit t) s = tl_exit t s"

text \<open>The allocator returns no object that exists.\<close>

definition tl_alloc_ok :: "(tl_singleton \<Rightarrow> nat option) \<Rightarrow> bool" where
  "tl_alloc_ok alloc \<longleftrightarrow> (\<forall>s a. alloc s = Some a \<longrightarrow> a \<notin> objects s)"

definition tl_ok :: "tl_singleton \<Rightarrow> bool" where
  "tl_ok s \<longleftrightarrow> specific s = t_value s \<and> objects s = ran (t_value s) \<and>
     (\<forall>t u a. t_value s t = Some a \<longrightarrow> t_value s u = Some a \<longrightarrow> t = u)"

lemma tl_okD:
  assumes "tl_ok s"
  shows "specific s = t_value s" "objects s = ran (t_value s)"
    "t_value s t = Some a \<Longrightarrow> t_value s u = Some a \<Longrightarrow> t = u"
  using assms unfolding tl_ok_def by blast+

lemma tl_initial_ok: "tl_ok tl_initial"
  by (simp add: tl_ok_def tl_initial_def)

lemma tl_instance_ok:
  assumes ok: "tl_ok s" and alloc: "tl_alloc_ok alloc"
  shows "barring (\<lambda>e. e = Bad_Alloc) (\<lambda>(a, s'). tl_ok s' \<and> t_value s' t = Some a \<and>
    (\<forall>u. u \<noteq> t \<longrightarrow> t_value s' u = t_value s u)) (tl_instance alloc t s)"
proof (cases "t_value s t")
  case None
  show ?thesis
  proof (cases "alloc s")
    case (Some a)
    let ?s' = "s\<lparr>t_value := (t_value s)(t \<mapsto> a), objects := insert a (objects s), specific := (specific s)(t \<mapsto> a)\<rparr>"
    have "objects s = ran (t_value s)" using ok by (simp add: tl_ok_def)
    then have a: "a \<notin> ran (t_value s)" using alloc Some unfolding tl_alloc_ok_def by metis
    have "tl_ok ?s'"
      unfolding tl_ok_def
    proof (intro conjI allI impI)
      fix u v b assume uv: "t_value ?s' u = Some b" "t_value ?s' v = Some b"
      then show "u = v" using a tl_okD(3) [OF ok] by (cases "u = t"; cases "v = t") (auto intro: ranI)
    qed (use tl_okD(1,2) [OF ok] None in \<open>simp_all add: ran_map_upd\<close>)
    then show ?thesis using None Some tl_okD(1) [OF ok] by (simp add: tl_instance_def deleter_set_def)
  qed (use None in \<open>simp add: tl_instance_def\<close>)
qed (use ok in \<open>simp add: tl_instance_def\<close>)

lemma tl_exit_ok:
  assumes ok: "tl_ok s"
  shows "\<exists>s'. tl_exit t s = Inr s' \<and> tl_ok s' \<and> t_value s' = (t_value s)(t := None) \<and>
    tl_deleted s' = tl_deleted s @ (case t_value s t of None \<Rightarrow> [] | Some a \<Rightarrow> [a])"
proof (cases "t_value s t")
  case None
  then show ?thesis using ok tl_okD(1) [OF ok] by (simp add: tl_exit_def fun_upd_idem)
next
  case (Some a)
  let ?s' = "s\<lparr>specific := (specific s)(t := None), objects := objects s - {a}, tl_deleted := tl_deleted s @ [a],
    t_value := (t_value s)(t := None)\<rparr>"
  have a: "a \<in> objects s" "specific s t = Some a" using tl_okD(1,2) [OF ok] Some by (auto intro: ranI)
  have only: "u = t" if "t_value s u = Some a" for u by (rule tl_okD(3) [OF ok that Some])
  have "ran ((t_value s)(t := None)) = {b. \<exists>u. u \<noteq> t \<and> t_value s u = Some b}" by (auto simp: ran_def)
  moreover have "\<dots> = ran (t_value s) - {a}" using Some by (auto simp: ran_def dest: only) (metis option.inject)
  ultimately have gone: "ran ((t_value s)(t := None)) = ran (t_value s) - {a}" by simp
  have "tl_ok ?s'"
    unfolding tl_ok_def
  proof (intro conjI allI impI)
    fix u v b assume uv: "t_value ?s' u = Some b" "t_value ?s' v = Some b"
    then have "t_value s u = Some b" "t_value s v = Some b" by (simp_all split: if_splits)
    then show "u = v" by (rule tl_okD(3) [OF ok])
  qed (use tl_okD(1,2) [OF ok] gone in simp_all)
  then show ?thesis using a Some by (simp add: tl_exit_def tl_destructor_def)
qed

lemma tl_step_ok:
  assumes ok: "tl_ok s" and alloc: "tl_alloc_ok alloc"
  shows "barring (\<lambda>e. e = Bad_Alloc) tl_ok (tl_step alloc ev s)"
proof (cases ev)
  case (Tl_Instance t)
  then show ?thesis
    using tl_instance_ok [OF ok alloc, of t] by (cases "tl_instance alloc t s") auto
next
  case (Tl_Exit t)
  then show ?thesis using tl_exit_ok [OF ok, of t] by auto
qed

interpretation singleton_run: service "\<lambda>e. e = Bad_Alloc" tl_ok "\<lambda>_. tl_alloc_ok alloc" "tl_step alloc" for alloc
  by unfold_locales (use tl_step_ok in blast)

section \<open>The loop of a thread\<close>

definition create_EventLoop :: "nat \<Rightarrow> nat \<Rightarrow> (nat \<Rightarrow> nat option) \<Rightarrow> (nat \<Rightarrow> nat option)" where
  "create_EventLoop t this loops = (if loops t \<noteq> None then loops else loops(t \<mapsto> this))"

definition destroy_EventLoop :: "nat \<Rightarrow> (nat \<Rightarrow> nat option) \<Rightarrow> (nat \<Rightarrow> nat option)" where
  "destroy_EventLoop t loops = loops(t := None)"

definition getEventLoopOfCurrentThread :: "nat \<Rightarrow> (nat \<Rightarrow> nat option) \<Rightarrow> nat option" where
  "getEventLoopOfCurrentThread t loops = loops t"

text \<open>
  A second loop in a thread is only complained about, and when it is destroyed the thread's own loop
  is forgotten, too, although it still exists.
\<close>

lemma second_loop_forgets:
  assumes "getEventLoopOfCurrentThread t loops = Some this"
  shows "getEventLoopOfCurrentThread t (create_EventLoop t other loops) = Some this \<and>
    getEventLoopOfCurrentThread t (destroy_EventLoop t (create_EventLoop t other loops)) = None"
  using assms by (simp add: getEventLoopOfCurrentThread_def create_EventLoop_def destroy_EventLoop_def)

section \<open>Properties\<close>

text \<open>C39: one object for each thread.  In every order of uses and ends of threads no assertion fails
  and nothing is deleted twice: a thread that asks again gets the object it has, two threads never
  share one, asking leaves the objects of the others alone, a thread that ends deletes its object and no
  other, and the objects that exist are those of the threads that have one.\<close>

theorem one_object_per_thread:
  assumes "tl_alloc_ok alloc"
  shows "case foldr_res (tl_step alloc) evs tl_initial of
      Inl e \<Rightarrow> e = Bad_Alloc
    | Inr s \<Rightarrow> objects s = ran (t_value s) \<and>
        (\<forall>t u a. tl_pointer t s = Some a \<longrightarrow> tl_pointer u s = Some a \<longrightarrow> t = u) \<and>
        (\<forall>t. barring (\<lambda>e. e = Bad_Alloc) (\<lambda>(a, s'). tl_pointer t s' = Some a \<and> tl_instance alloc t s' = Inr (a, s') \<and>
           (\<forall>u. u \<noteq> t \<longrightarrow> tl_pointer u s' = tl_pointer u s)) (tl_instance alloc t s)) \<and>
        (\<forall>t. \<exists>s'. tl_exit t s = Inr s' \<and> t_value s' = (t_value s)(t := None) \<and>
           tl_deleted s' = tl_deleted s @ (case tl_pointer t s of None \<Rightarrow> [] | Some a \<Rightarrow> [a]))"
proof -
  have run: "barring (\<lambda>e. e = Bad_Alloc) tl_ok (foldr_res (tl_step alloc) evs tl_initial)"
    by (rule singleton_run.run_safe [where alloc = alloc]) (use assms tl_initial_ok in blast)+
  show ?thesis
  proof (cases "foldr_res (tl_step alloc) evs tl_initial")
    case (Inr s)
    then have ok: "tl_ok s" using run by simp
    have "t = u" if "t_value s t = Some a" "t_value s u = Some a" for t u a
      by (rule tl_okD(3) [OF ok that])
    moreover have "barring (\<lambda>e. e = Bad_Alloc) (\<lambda>(a, s'). tl_pointer t s' = Some a \<and> tl_instance alloc t s' = Inr (a, s') \<and>
           (\<forall>u. u \<noteq> t \<longrightarrow> tl_pointer u s' = tl_pointer u s)) (tl_instance alloc t s)" for t
      by (rule barring_mono [OF tl_instance_ok [OF ok assms]]) (auto simp: tl_pointer_def tl_instance_def)
    moreover have "objects s = ran (t_value s)" using ok by (simp add: tl_ok_def)
    ultimately show ?thesis using Inr tl_exit_ok [OF ok] by (simp add: tl_pointer_def) blast
  qed (use run in simp)
qed

definition sample_object :: "tl_singleton \<Rightarrow> nat option" where
  "sample_object s = (if 1 \<notin> objects s then Some 1 else if 2 \<notin> objects s then Some 2 else None)"

theorem one_object_per_thread_witness:
  "case foldr_res (tl_step sample_object) [Tl_Instance 7, Tl_Instance 8, Tl_Instance 7, Tl_Exit 8] tl_initial of
      Inl e \<Rightarrow> e = Bad_Alloc
    | Inr s \<Rightarrow> objects s = ran (t_value s)"
proof -
  have ok: "tl_alloc_ok sample_object" by (auto simp: tl_alloc_ok_def sample_object_def split: if_splits)
  define evs where "evs = [Tl_Instance 7, Tl_Instance 8, Tl_Instance 7, Tl_Exit 8]"
  note r = one_object_per_thread [OF ok, of evs]
  show ?thesis unfolding evs_def [symmetric]
    by (cases "foldr_res (tl_step sample_object) evs tl_initial") (use r in simp_all)
qed

end
