(* ===== verification/Exceptions.thy ===== *)
theory Exceptions
  imports Prelude
begin

text \<open>
  \<open>base/Exception.cc\<close>: a message and the stack at its construction.  The answer of
  \<open>backtrace_symbols\<close> is a parameter: the text of each frame, at most 200 of them, or a null
  pointer.
\<close>

section \<open>The class\<close>

record exception =
  ex_message :: string
  ex_stack :: string

definition frame_limit :: nat where
  "frame_limit = 200"

definition fillStackTrace :: "string list option \<Rightarrow> exception \<Rightarrow> exception" where
  "fillStackTrace symbols ex =
     (case symbols of
        None \<Rightarrow> ex
      | Some frames \<Rightarrow>
          foldl (\<lambda>ex frame. ex\<lparr>ex_stack := ex_stack ex @ frame @ [CHR 0x0A]\<rparr>) ex (take frame_limit frames))"

definition new_Exception :: "string \<Rightarrow> string list option \<Rightarrow> exception" where
  "new_Exception msg symbols = fillStackTrace symbols \<lparr>ex_message = msg, ex_stack = []\<rparr>"

definition ex_what :: "exception \<Rightarrow> string" where
  "ex_what ex = ex_message ex"

definition stackTrace :: "exception \<Rightarrow> string" where
  "stackTrace ex = ex_stack ex"

section \<open>The lines of the stack\<close>

fun lines_of :: "string \<Rightarrow> string list" where
  "lines_of [] = []"
| "lines_of (c # cs) =
     (if c = CHR 0x0A then [] # lines_of cs
      else case lines_of cs of [] \<Rightarrow> [[c]] | l # ls \<Rightarrow> (c # l) # ls)"

lemma lines_of_frame: "CHR 0x0A \<notin> set f \<Longrightarrow> lines_of (f @ CHR 0x0A # s) = f # lines_of s"
  by (induction f) auto

lemma fill_frames:
  "foldl (\<lambda>ex frame. ex\<lparr>ex_stack := ex_stack ex @ frame @ [CHR 0x0A]\<rparr>) ex frames =
     ex\<lparr>ex_stack := ex_stack ex @ concat (map (\<lambda>f. f @ [CHR 0x0A]) frames)\<rparr>"
  by (induction frames arbitrary: ex) simp_all

lemma lines_of_frames: "\<forall>f \<in> set frames. CHR 0x0A \<notin> set f \<Longrightarrow>
    lines_of (concat (map (\<lambda>f. f @ [CHR 0x0A]) frames)) = frames"
  by (induction frames) (simp_all add: lines_of_frame)

text \<open>The message is kept, and the stack has one line for each frame, in their order.\<close>

lemma stack_lines:
  assumes "\<forall>f \<in> set frames. CHR 0x0A \<notin> set f" "length frames \<le> 200"
  shows "ex_what (new_Exception msg (Some frames)) = msg \<and>
    lines_of (stackTrace (new_Exception msg (Some frames))) = frames \<and>
    stackTrace (new_Exception msg None) = []"
  using assms
  by (simp add: new_Exception_def fillStackTrace_def fill_frames ex_what_def stackTrace_def frame_limit_def lines_of_frames)

end
