(* ===== verification/BlockingQueues.thy ===== *)
theory BlockingQueues
  imports Prelude
begin

text \<open>
  \<open>base/BlockingQueue.h\<close> and \<open>base/BoundedBlockingQueue.h\<close>: the two queues and the threads that put and
  take.  A step is a critical section of the mutex, as in \<open>ThreadPool\<close>.  The critical sections are the
  code's.  Its waits have no meaning to translate: the code passes the value of a condition, a \<open>bool\<close>,
  where \<open>wait\<close> takes a function, so that a program that calls \<open>take\<close> or the bounded \<open>put\<close> does not
  compile.  The second half of the theory is about the repaired code, in which the same condition is
  tested again whenever a thread wakes up, for a reason or none: it shows that the critical sections and
  their notifications are right for it.
  \<open>boost::circular_buffer\<close> is not part of the repository: its operations are a parameter, and \<open>ring_ok\<close> says
  what its documentation promises of them.
\<close>

section \<open>The classes\<close>

record 'a blocking_queue =
  bq_queue :: "'a list"

definition new_BlockingQueue :: "'a blocking_queue" where
  "new_BlockingQueue = \<lparr>bq_queue = []\<rparr>"

text \<open>The critical sections after the waits.\<close>

definition bq_put :: "'a \<Rightarrow> 'a blocking_queue \<Rightarrow> 'a blocking_queue" where
  "bq_put x q = q\<lparr>bq_queue := bq_queue q @ [x]\<rparr>"

definition bq_nonempty :: "'a blocking_queue \<Rightarrow> bool" where
  "bq_nonempty q \<longleftrightarrow> bq_queue q \<noteq> []"

definition bq_take :: "'a blocking_queue \<Rightarrow> ('a \<times> 'a blocking_queue) res" where
  "bq_take q = ensure ''take: empty'' (bq_nonempty q) (Inr (hd (bq_queue q), q\<lparr>bq_queue := tl (bq_queue q)\<rparr>))"

definition bq_size :: "'a blocking_queue \<Rightarrow> nat" where
  "bq_size q = length (bq_queue q)"

text \<open>The members of \<open>boost::circular_buffer\<close> the class uses.\<close>

record ('a, 'q) ring =
  rg_make :: "nat \<Rightarrow> 'q"
  rg_full :: "'q \<Rightarrow> bool"
  rg_empty :: "'q \<Rightarrow> bool"
  rg_size :: "'q \<Rightarrow> nat"
  rg_capacity :: "'q \<Rightarrow> nat"
  rg_front :: "'q \<Rightarrow> 'a"
  rg_push_back :: "'a \<Rightarrow> 'q \<Rightarrow> 'q"
  rg_pop_front :: "'q \<Rightarrow> 'q"

text \<open>
  The documentation of the buffer, for the elements \<open>items\<close> it holds; nothing is said of
  \<open>push_back\<close> on a full buffer, which overwrites the first element.
\<close>

definition ring_ok :: "('a, 'q) ring \<Rightarrow> ('q \<Rightarrow> 'a list) \<Rightarrow> bool" where
  "ring_ok r items \<longleftrightarrow>
     (\<forall>n. items (rg_make r n) = [] \<and> rg_capacity r (rg_make r n) = n) \<and>
     (\<forall>q. rg_size r q = length (items q) \<and> (rg_empty r q \<longleftrightarrow> rg_size r q = 0) \<and> (rg_full r q \<longleftrightarrow> rg_size r q = rg_capacity r q) \<and>
        length (items q) \<le> rg_capacity r q) \<and>
     (\<forall>q x. \<not> rg_full r q \<longrightarrow> items (rg_push_back r x q) = items q @ [x] \<and> rg_capacity r (rg_push_back r x q) = rg_capacity r q) \<and>
     (\<forall>q. \<not> rg_empty r q \<longrightarrow> items q = rg_front r q # items (rg_pop_front r q) \<and> rg_capacity r (rg_pop_front r q) = rg_capacity r q)"

text \<open>A negative size is a huge capacity, and the buffer throws.\<close>

definition new_BoundedBlockingQueue :: "('a, 'q) ring \<Rightarrow> int \<Rightarrow> 'q res" where
  "new_BoundedBlockingQueue r maxSize = (if maxSize < 0 then Inl Length_Error else Inr (rg_make r (nat maxSize)))"

definition bb_put :: "('a, 'q) ring \<Rightarrow> 'a \<Rightarrow> 'q \<Rightarrow> 'q res" where
  "bb_put r x q = ensure ''put: full'' (\<not> rg_full r q) (Inr (rg_push_back r x q))"

definition bb_take :: "('a, 'q) ring \<Rightarrow> 'q \<Rightarrow> ('a \<times> 'q) res" where
  "bb_take r q = ensure ''take: empty'' (\<not> rg_empty r q) (Inr (rg_front r q, rg_pop_front r q))"

definition bb_empty :: "('a, 'q) ring \<Rightarrow> 'q \<Rightarrow> bool" where "bb_empty r q = rg_empty r q"
definition bb_full :: "('a, 'q) ring \<Rightarrow> 'q \<Rightarrow> bool" where "bb_full r q = rg_full r q"
definition bb_size :: "('a, 'q) ring \<Rightarrow> 'q \<Rightarrow> nat" where "bb_size r q = rg_size r q"
definition bb_capacity :: "('a, 'q) ring \<Rightarrow> 'q \<Rightarrow> nat" where "bb_capacity r q = rg_capacity r q"

section \<open>The threads, with the waits repaired\<close>

text \<open>
  What the two classes differ in: the conditions of the waits, the critical sections, and whether
  \<open>take\<close> notifies those who wait to put.
\<close>

record ('a, 'q) queue_ops =
  can_put :: "'q \<Rightarrow> bool"
  can_take :: "'q \<Rightarrow> bool"
  do_put :: "'a \<Rightarrow> 'q \<Rightarrow> 'q res"
  do_take :: "'q \<Rightarrow> ('a \<times> 'q) res"
  tells_putters :: bool

definition blocking_ops :: "('a, 'a blocking_queue) queue_ops" where
  "blocking_ops = \<lparr>can_put = (\<lambda>_. True), can_take = bq_nonempty, do_put = (\<lambda>x q. Inr (bq_put x q)), do_take = bq_take,
     tells_putters = False\<rparr>"

definition bounded_ops :: "('a, 'q) ring \<Rightarrow> ('a, 'q) queue_ops" where
  "bounded_ops r = \<lparr>can_put = (\<lambda>q. \<not> rg_full r q), can_take = (\<lambda>q. \<not> rg_empty r q), do_put = bb_put r, do_take = bb_take r,
     tells_putters = True\<rparr>"

datatype 'a party =
    P_Outside
  | P_Enter 'a      \<comment> \<open>about to lock the mutex, or woken in the wait\<close>
  | P_Waiting 'a    \<comment> \<open>in the condition variable's \<open>wait\<close>\<close>

fun wake_party :: "'a party \<Rightarrow> 'a party" where
  "wake_party (P_Waiting x) = P_Enter x"
| "wake_party p = p"

fun entering_party :: "'a party \<Rightarrow> nat" where
  "entering_party (P_Enter x) = 1"
| "entering_party p = 0"

fun asleep :: "'a party \<Rightarrow> bool" where
  "asleep (P_Waiting x) = True"
| "asleep p = False"

record ('a, 'q) mq_system =
  mq_queue :: 'q
  takers :: "unit party list"
  putters :: "'a party list"
  put_log :: "'a list"      \<comment> \<open>what was put, in that order\<close>
  taken_log :: "'a list"    \<comment> \<open>what \<open>take\<close> has returned\<close>

text \<open>\<open>notify_one\<close> wakes any one of those who wait, and none only if none waits.\<close>

definition notify_party :: "nat \<Rightarrow> 'b party list \<Rightarrow> 'b party list" where
  "notify_party i ps = (if i < length ps then ps[i := wake_party (ps ! i)] else ps)"

definition party_chosen :: "nat \<Rightarrow> 'b party list \<Rightarrow> bool" where
  "party_chosen i ps \<longleftrightarrow> (list_ex asleep ps \<longrightarrow> i < length ps \<and> asleep (ps ! i))"

definition put_section :: "('a, 'q) queue_ops \<Rightarrow> nat \<Rightarrow> nat \<Rightarrow> 'a \<Rightarrow> ('a, 'q) mq_system \<Rightarrow> ('a, 'q) mq_system res" where
  "put_section ops c i x s =
     bindr (do_put ops x (mq_queue s)) (\<lambda>q.
       Inr (s\<lparr>mq_queue := q, putters := (putters s)[c := P_Outside], takers := notify_party i (takers s), put_log := put_log s @ [x]\<rparr>))"

definition take_section :: "('a, 'q) queue_ops \<Rightarrow> nat \<Rightarrow> nat \<Rightarrow> ('a, 'q) mq_system \<Rightarrow> ('a, 'q) mq_system res" where
  "take_section ops c i s =
     bindr (do_take ops (mq_queue s)) (\<lambda>(x, q).
       Inr (s\<lparr>mq_queue := q, takers := (takers s)[c := P_Outside],
              putters := if tells_putters ops then notify_party i (putters s) else putters s, taken_log := taken_log s @ [x]\<rparr>))"

definition party_at :: "nat \<Rightarrow> 'b party \<Rightarrow> 'b party list \<Rightarrow> bool" where
  "party_at c p ps \<longleftrightarrow> c < length ps \<and> ps ! c = p"

text \<open>An assertion that fails stops the program: then \<open>mq_step\<close> has no successor, and \<open>mq_fails\<close> holds.\<close>

inductive mq_step :: "('a, 'q) queue_ops \<Rightarrow> ('a, 'q) mq_system \<Rightarrow> ('a, 'q) mq_system \<Rightarrow> bool" for ops where
  Put_Call: "party_at c P_Outside (putters s) \<Longrightarrow> mq_step ops s (s\<lparr>putters := (putters s)[c := P_Enter x]\<rparr>)"
| Put_Wait: "party_at c (P_Enter x) (putters s) \<Longrightarrow> \<not> can_put ops (mq_queue s) \<Longrightarrow>
    mq_step ops s (s\<lparr>putters := (putters s)[c := P_Waiting x]\<rparr>)"
| Put: "party_at c (P_Enter x) (putters s) \<Longrightarrow> can_put ops (mq_queue s) \<Longrightarrow> party_chosen i (takers s) \<Longrightarrow>
    put_section ops c i x s = Inr s' \<Longrightarrow> mq_step ops s s'"
| Put_Wake: "party_at c (P_Waiting x) (putters s) \<Longrightarrow> mq_step ops s (s\<lparr>putters := (putters s)[c := P_Enter x]\<rparr>)"
| Take_Call: "party_at c P_Outside (takers s) \<Longrightarrow> mq_step ops s (s\<lparr>takers := (takers s)[c := P_Enter ()]\<rparr>)"
| Take_Wait: "party_at c (P_Enter ()) (takers s) \<Longrightarrow> \<not> can_take ops (mq_queue s) \<Longrightarrow>
    mq_step ops s (s\<lparr>takers := (takers s)[c := P_Waiting ()]\<rparr>)"
| Take: "party_at c (P_Enter ()) (takers s) \<Longrightarrow> can_take ops (mq_queue s) \<Longrightarrow> party_chosen i (putters s) \<Longrightarrow>
    take_section ops c i s = Inr s' \<Longrightarrow> mq_step ops s s'"
| Take_Wake: "party_at c (P_Waiting ()) (takers s) \<Longrightarrow> mq_step ops s (s\<lparr>takers := (takers s)[c := P_Enter ()]\<rparr>)"

definition mq_fails :: "('a, 'q) queue_ops \<Rightarrow> ('a, 'q) mq_system \<Rightarrow> bool" where
  "mq_fails ops s \<longleftrightarrow>
     (\<exists>c x i e. party_at c (P_Enter x) (putters s) \<and> can_put ops (mq_queue s) \<and> put_section ops c i x s = Inl e) \<or>
     (\<exists>c i e. party_at c (P_Enter ()) (takers s) \<and> can_take ops (mq_queue s) \<and> take_section ops c i s = Inl e)"

definition mq_started :: "'q \<Rightarrow> ('a, 'q) mq_system \<Rightarrow> bool" where
  "mq_started q s \<longleftrightarrow> mq_queue s = q \<and> list_all ((=) P_Outside) (takers s) \<and> list_all ((=) P_Outside) (putters s) \<and>
     put_log s = [] \<and> taken_log s = []"

inductive mq_reach :: "('a, 'q) queue_ops \<Rightarrow> 'q \<Rightarrow> ('a, 'q) mq_system \<Rightarrow> bool" for ops q where
  Begun: "mq_started q s \<Longrightarrow> mq_reach ops q s"
| Onward: "mq_reach ops q s \<Longrightarrow> mq_step ops s s' \<Longrightarrow> mq_reach ops q s'"

inductive_cases mq_stepE: "mq_step ops s s'"

section \<open>Waiting and notifying\<close>

text \<open>
  A wait is fair when, while anyone sleeps, at least as many others are about to go on as there is
  to share out: \<open>k\<close> is the number of elements for those who take, of free places for those who put.
\<close>

definition n_entering :: "'b party list \<Rightarrow> nat" where
  "n_entering ps = sum_list (map entering_party ps)"

definition fair :: "nat \<Rightarrow> 'b party list \<Rightarrow> bool" where
  "fair k ps \<longleftrightarrow> (list_ex asleep ps \<longrightarrow> k \<le> n_entering ps)"

lemma asleep_update: "list_ex asleep (ps[c := p]) \<Longrightarrow> \<not> asleep p \<Longrightarrow> list_ex asleep ps"
  using set_update_subset_insert [of ps c p] by (auto simp: list_ex_iff)

lemma n_entering_update: "party_at c p ps \<Longrightarrow> n_entering (ps[c := p']) + entering_party p = n_entering ps + entering_party p'"
  using sum_update [of c ps entering_party p'] by (simp add: n_entering_def party_at_def)

text \<open>A party that moves, without sleeping, keeps the wait fair if it leaves nothing behind that it could take.\<close>

lemma fair_move:
  assumes "fair k ps" "party_at c p ps" "\<not> asleep p'" "entering_party p \<le> entering_party p'"
  shows "fair k (ps[c := p'])"
  using assms asleep_update [of ps c p'] n_entering_update [of c p ps p'] by (fastforce simp: fair_def)

lemma fair_leave:
  assumes "fair (Suc k) ps" "party_at c (P_Enter x) ps"
  shows "fair k (ps[c := P_Outside])"
  using assms asleep_update [of ps c P_Outside] n_entering_update [of c "P_Enter x" ps P_Outside] by (fastforce simp: fair_def)

lemma wake_party_awake [simp]: "\<not> asleep (wake_party p)"
  by (cases p) simp_all

lemma fair_notify:
  assumes "fair k ps" "party_chosen i ps"
  shows "fair (Suc k) (notify_party i ps)"
proof -
  have "Suc k \<le> n_entering (notify_party i ps)" if "list_ex asleep (notify_party i ps)"
  proof -
    have some: "list_ex asleep ps"
      using that asleep_update [of ps i "wake_party (ps ! i)"] by (simp add: notify_party_def split: if_splits)
    then have i: "i < length ps" "asleep (ps ! i)" using assms(2) by (simp_all add: party_chosen_def)
    then have "entering_party (ps ! i) = 0" "entering_party (wake_party (ps ! i)) = 1" by (cases "ps ! i"; simp)+
    then have "n_entering (notify_party i ps) = Suc (n_entering ps)"
      using i(1) n_entering_update [of i "ps ! i" ps "wake_party (ps ! i)"] by (simp add: notify_party_def party_at_def)
    then show ?thesis using assms(1) some by (simp add: fair_def)
  qed
  then show ?thesis by (simp add: fair_def)
qed

lemma fair_0 [simp]: "fair 0 ps"
  by (simp add: fair_def)

lemma fair_awake: "fair k ps \<Longrightarrow> 0 < k \<Longrightarrow> list_ex asleep ps \<Longrightarrow> \<exists>c x. party_at c (P_Enter x) ps"
proof (rule ccontr)
  assume f: "fair k ps" "0 < k" "list_ex asleep ps" and no: "\<nexists>c x. party_at c (P_Enter x) ps"
  have "entering_party p = 0" if "p \<in> set ps" for p
    using no that by (cases p) (auto simp: party_at_def in_set_conv_nth)
  then have "n_entering ps = 0" by (simp add: n_entering_def)
  then show False using f by (simp add: fair_def)
qed

section \<open>Any queue between its threads\<close>

text \<open>
  What a queue promises its threads: \<open>items\<close> are its elements, \<open>cap\<close> its capacity, if it has one,
  and \<open>good\<close> holds of its states.
\<close>

locale monitored =
  fixes ops :: "('a, 'q) queue_ops" and items :: "'q \<Rightarrow> 'a list" and cap :: "nat option" and good :: "'q \<Rightarrow> bool"
  assumes put: "good q \<Longrightarrow> can_put ops q \<Longrightarrow> \<exists>q'. do_put ops x q = Inr q' \<and> good q' \<and> items q' = items q @ [x]"
    and take: "good q \<Longrightarrow> can_take ops q \<Longrightarrow> \<exists>x q'. do_take ops q = Inr (x, q') \<and> good q' \<and> items q = x # items q'"
    and ready: "good q \<Longrightarrow> can_take ops q \<longleftrightarrow> items q \<noteq> []"
    and room: "good q \<Longrightarrow> can_put ops q \<longleftrightarrow> (\<forall>n. cap = Some n \<longrightarrow> length (items q) < n)"
    and tells: "cap = Some n \<Longrightarrow> tells_putters ops"
begin

definition mq_inv :: "('a, 'q) mq_system \<Rightarrow> bool" where
  "mq_inv s \<longleftrightarrow> good (mq_queue s) \<and> put_log s = taken_log s @ items (mq_queue s) \<and>
     (\<forall>n. cap = Some n \<longrightarrow> length (items (mq_queue s)) \<le> n \<and> fair (n - length (items (mq_queue s))) (putters s)) \<and>
     (cap = None \<longrightarrow> \<not> list_ex asleep (putters s)) \<and> fair (length (items (mq_queue s))) (takers s)"

lemma mq_invD:
  assumes "mq_inv s"
  shows "good (mq_queue s)" "put_log s = taken_log s @ items (mq_queue s)"
    "cap = Some n \<Longrightarrow> length (items (mq_queue s)) \<le> n \<and> fair (n - length (items (mq_queue s))) (putters s)"
    "cap = None \<Longrightarrow> \<not> list_ex asleep (putters s)" "fair (length (items (mq_queue s))) (takers s)"
  using assms unfolding mq_inv_def by blast+

lemma put_keeps:
  assumes inv: "mq_inv s" and at: "party_at c (P_Enter x) (putters s)" and can: "can_put ops (mq_queue s)"
    and ch: "party_chosen i (takers s)" and s': "put_section ops c i x s = Inr s'"
  shows "mq_inv s'"
proof -
  obtain q where q: "do_put ops x (mq_queue s) = Inr q" "good q" "items q = items (mq_queue s) @ [x]"
    using put [of "mq_queue s" x] inv can by (auto simp: mq_inv_def)
  have lt: "length (items (mq_queue s)) < n" if "cap = Some n" for n
    using room [OF mq_invD(1) [OF inv]] can that by blast
  have "fair (n - length (items q)) ((putters s)[c := P_Outside])" if "cap = Some n" for n
  proof (rule fair_leave [OF _ at])
    have "Suc (n - length (items q)) = n - length (items (mq_queue s))" using lt [OF that] q(3) by simp
    then show "fair (Suc (n - length (items q))) (putters s)" using mq_invD(3) [OF inv that] by simp
  qed
  moreover have "fair (length (items q)) (notify_party i (takers s))"
    using fair_notify [OF mq_invD(5) [OF inv] ch] q(3) by simp
  moreover have "\<not> list_ex asleep ((putters s)[c := P_Outside])" if "cap = None"
    using mq_invD(4) [OF inv that] asleep_update [of "putters s" c P_Outside] by auto
  ultimately show ?thesis
    unfolding mq_inv_def using s' q mq_invD(2) [OF inv] lt by (auto simp: put_section_def Suc_le_eq)
qed

lemma take_keeps:
  assumes inv: "mq_inv s" and at: "party_at c (P_Enter ()) (takers s)" and can: "can_take ops (mq_queue s)"
    and ch: "party_chosen i (putters s)" and s': "take_section ops c i s = Inr s'"
  shows "mq_inv s'"
proof -
  obtain x q where q: "do_take ops (mq_queue s) = Inr (x, q)" "good q" "items (mq_queue s) = x # items q"
    using take [of "mq_queue s"] inv can by (auto simp: mq_inv_def)
  have "fair (n - length (items q)) (putters s')" if n: "cap = Some n" for n
  proof -
    have "n - length (items q) = Suc (n - length (items (mq_queue s)))" using mq_invD(3) [OF inv n] q(3) by auto
    moreover have "fair (n - length (items (mq_queue s))) (putters s)" using mq_invD(3) [OF inv n] by simp
    ultimately show ?thesis using fair_notify [OF _ ch] s' q(1) tells [OF n] by (auto simp: take_section_def)
  qed
  moreover have "fair (length (items q)) ((takers s)[c := P_Outside])"
    by (rule fair_leave [OF _ at]) (use mq_invD(5) [OF inv] q(3) in simp)
  moreover have "\<not> list_ex asleep (putters s')" if "cap = None"
    using mq_invD(4) [OF inv that] s' q(1) asleep_update [of "putters s" i "wake_party (putters s ! i)"]
    by (auto simp: take_section_def notify_party_def split: if_splits)
  moreover have "length (items q) \<le> n" if "cap = Some n" for n using mq_invD(3) [OF inv that] q(3) by simp
  ultimately show ?thesis unfolding mq_inv_def using s' q mq_invD(2) [OF inv] by (auto simp: take_section_def)
qed

lemma putter_moves:
  assumes inv: "mq_inv s" and at: "party_at c p (putters s)" "\<not> asleep p'" "entering_party p \<le> entering_party p'"
  shows "mq_inv (s\<lparr>putters := (putters s)[c := p']\<rparr>)"
proof -
  have "fair (n - length (items (mq_queue s))) ((putters s)[c := p'])" if "cap = Some n" for n
    using fair_move [OF conjunct2 [OF mq_invD(3) [OF inv that]] at] .
  moreover have "\<not> list_ex asleep ((putters s)[c := p'])" if "cap = None"
    using mq_invD(4) [OF inv that] asleep_update [of "putters s" c p'] at(2) by blast
  ultimately show ?thesis using inv unfolding mq_inv_def by simp
qed

lemma taker_moves:
  assumes inv: "mq_inv s" and at: "party_at c p (takers s)" "\<not> asleep p'" "entering_party p \<le> entering_party p'"
  shows "mq_inv (s\<lparr>takers := (takers s)[c := p']\<rparr>)"
  using inv fair_move [OF mq_invD(5) [OF inv] at] unfolding mq_inv_def by simp

lemma step_keeps: "mq_step ops s s' \<Longrightarrow> mq_inv s \<Longrightarrow> mq_inv s'"
proof (erule mq_stepE)
  fix c x assume s: "mq_inv s" "party_at c (P_Enter x) (putters s)" "\<not> can_put ops (mq_queue s)"
    "s' = s\<lparr>putters := (putters s)[c := P_Waiting x]\<rparr>"
  then have good: "good (mq_queue s)" using mq_invD(1) by blast
  have "n - length (items (mq_queue s)) = 0" "cap \<noteq> None" if "cap = Some n" for n
    using room [OF good] s(3) that by auto
  moreover have "cap \<noteq> None" using room [OF good] s(3) by auto
  ultimately show ?thesis using s(1) unfolding s(4) mq_inv_def by auto
next
  fix c assume s: "mq_inv s" "party_at c (P_Enter ()) (takers s)" "\<not> can_take ops (mq_queue s)"
    "s' = s\<lparr>takers := (takers s)[c := P_Waiting ()]\<rparr>"
  then have "items (mq_queue s) = []" using ready [OF mq_invD(1)] by blast
  then show ?thesis using s(1) unfolding s(4) mq_inv_def by simp
next
  fix c x i assume "mq_inv s" "party_at c (P_Enter x) (putters s)" "can_put ops (mq_queue s)" "party_chosen i (takers s)"
    "put_section ops c i x s = Inr s'"
  then show ?thesis by (rule put_keeps)
next
  fix c i assume "mq_inv s" "party_at c (P_Enter ()) (takers s)" "can_take ops (mq_queue s)" "party_chosen i (putters s)"
    "take_section ops c i s = Inr s'"
  then show ?thesis by (rule take_keeps)
qed (simp_all add: putter_moves taker_moves)

lemma reach_keeps:
  assumes "good q" "items q = []"
  shows "mq_reach ops q s \<Longrightarrow> mq_inv s"
proof (induction rule: mq_reach.induct)
  case (Begun s)
  then have "\<not> list_ex asleep (takers s)" "\<not> list_ex asleep (putters s)"
    by (auto simp: mq_started_def list_ex_iff list_all_iff)
  then show ?case using Begun assms by (simp add: mq_inv_def mq_started_def fair_def)
qed (rule step_keeps)

text \<open>No assertion fails, the elements come in order, and nobody sleeps while he could go on and nobody is about to.\<close>

lemma delivers:
  assumes "good q" "items q = []" "mq_reach ops q s"
  shows "\<not> mq_fails ops s" "put_log s = taken_log s @ items (mq_queue s)"
    "cap = Some n \<Longrightarrow> length (items (mq_queue s)) \<le> n"
    "list_ex asleep (takers s) \<Longrightarrow> can_take ops (mq_queue s) \<Longrightarrow> \<exists>c x. party_at c (P_Enter x) (takers s)"
    "list_ex asleep (putters s) \<Longrightarrow> can_put ops (mq_queue s) \<Longrightarrow> \<exists>c x. party_at c (P_Enter x) (putters s)"
proof -
  have inv: "mq_inv s" by (rule reach_keeps [OF assms])
  then have good: "good (mq_queue s)" by (simp add: mq_inv_def)
  show "\<not> mq_fails ops s"
  proof -
    have "put_section ops c i x s \<noteq> Inl e" if "can_put ops (mq_queue s)" for c i x e
      using put [OF good that, of x] by (auto simp: put_section_def)
    moreover have "take_section ops c i s \<noteq> Inl e" if "can_take ops (mq_queue s)" for c i e
      using take [OF good that] by (auto simp: take_section_def)
    ultimately show ?thesis by (auto simp: mq_fails_def)
  qed
  show "put_log s = taken_log s @ items (mq_queue s)" "cap = Some n \<Longrightarrow> length (items (mq_queue s)) \<le> n"
    using mq_invD(2,3) [OF inv] by blast+
  show "\<exists>c x. party_at c (P_Enter x) (takers s)" if "list_ex asleep (takers s)" "can_take ops (mq_queue s)"
    by (rule fair_awake [OF _ _ that(1)]) (use mq_invD(5) [OF inv] ready [OF good] that(2) in auto)
  show "\<exists>c x. party_at c (P_Enter x) (putters s)" if sl: "list_ex asleep (putters s)" and can: "can_put ops (mq_queue s)"
  proof -
    obtain n where n: "cap = Some n" using mq_invD(4) [OF inv] sl by (cases cap) simp_all
    then have "0 < n - length (items (mq_queue s))" using room [OF good] can by auto
    then show ?thesis using fair_awake [OF _ _ sl] mq_invD(3) [OF inv n] by blast
  qed
qed

end

interpretation blocking: monitored blocking_ops bq_queue None "\<lambda>_. True"
proof
  show "\<exists>x q'. do_take blocking_ops q = Inr (x, q') \<and> True \<and> bq_queue q = x # bq_queue q'"
    if "can_take blocking_ops q" for q :: "'a blocking_queue"
    using that by (cases "bq_queue q") (simp_all add: blocking_ops_def bq_take_def bq_nonempty_def ensure_def)
qed (simp_all add: blocking_ops_def bq_put_def bq_nonempty_def)

lemma ring_okD:
  assumes "ring_ok r items"
  shows "items (rg_make r n) = []" "rg_capacity r (rg_make r n) = n" "rg_size r q = length (items q)"
    "rg_empty r q \<longleftrightarrow> items q = []" "rg_full r q \<longleftrightarrow> length (items q) = rg_capacity r q" "length (items q) \<le> rg_capacity r q"
    "\<not> rg_full r q \<Longrightarrow> items (rg_push_back r x q) = items q @ [x] \<and> rg_capacity r (rg_push_back r x q) = rg_capacity r q"
    "\<not> rg_empty r q \<Longrightarrow> items q = rg_front r q # items (rg_pop_front r q) \<and> rg_capacity r (rg_pop_front r q) = rg_capacity r q"
  using assms unfolding ring_ok_def by auto

interpretation bounded: monitored "bounded_ops r" items "Some n" "\<lambda>q. ring_ok r items \<and> rg_capacity r q = n" for r items n
proof
  fix q assume q: "ring_ok r items \<and> rg_capacity r q = n"
  note ring = ring_okD [OF conjunct1 [OF q]]
  show "\<exists>q'. do_put (bounded_ops r) x q = Inr q' \<and> (ring_ok r items \<and> rg_capacity r q' = n) \<and> items q' = items q @ [x]"
    if "can_put (bounded_ops r) q" for x
    using that q ring(7) [of q x] by (simp add: bounded_ops_def bb_put_def ensure_def)
  show "\<exists>x q'. do_take (bounded_ops r) q = Inr (x, q') \<and> (ring_ok r items \<and> rg_capacity r q' = n) \<and> items q = x # items q'"
    if "can_take (bounded_ops r) q"
    using that q ring(8) [of q] by (simp add: bounded_ops_def bb_take_def ensure_def)
  show "can_take (bounded_ops r) q = (items q \<noteq> [])" by (simp add: bounded_ops_def ring(4))
  show "can_put (bounded_ops r) q = (\<forall>m. Some n = Some m \<longrightarrow> length (items q) < m)"
    using ring(5) [of q] ring(6) [of q] q by (auto simp: bounded_ops_def)
qed (simp add: bounded_ops_def)

section \<open>Properties\<close>

text \<open>The unbounded queue delivers what was put, in order, and \<open>notify_one\<close> for each element is enough.\<close>

lemma blocking_queue_delivers:
  assumes "mq_reach blocking_ops new_BlockingQueue s"
  shows "\<not> mq_fails blocking_ops s" "put_log s = taken_log s @ bq_queue (mq_queue s)"
    "list_ex asleep (takers s) \<Longrightarrow> bq_size (mq_queue s) \<noteq> 0 \<Longrightarrow> \<exists>c x. party_at c (P_Enter x) (takers s)"
  using blocking.delivers(1,2,4) [OF _ _ assms] by (simp_all add: new_BlockingQueue_def blocking_ops_def bq_nonempty_def bq_size_def)

text \<open>The bounded queue, its waits repaired.  With a buffer that keeps its documentation, in no interleaving of any
  threads that put and take does an assertion fail or an element get overwritten: what was taken and what the
  buffer still holds is what was put, in order, never more than the capacity.  No notification is
  lost: while a thread sleeps in \<open>take\<close> and there are elements, or sleeps in \<open>put\<close> and there is room,
  some thread is awake that is about to take, or to put.\<close>

lemma bounded_queue_delivers:
  assumes "ring_ok r items" "new_BoundedBlockingQueue r maxSize = Inr q" "mq_reach (bounded_ops r) q s"
  shows "\<not> mq_fails (bounded_ops r) s \<and> put_log s = taken_log s @ items (mq_queue s) \<and>
    int (bb_size r (mq_queue s)) \<le> maxSize \<and> bb_capacity r (mq_queue s) = nat maxSize \<and>
    (list_ex asleep (takers s) \<and> \<not> bb_empty r (mq_queue s) \<longrightarrow> (\<exists>c x. party_at c (P_Enter x) (takers s))) \<and>
    (list_ex asleep (putters s) \<and> \<not> bb_full r (mq_queue s) \<longrightarrow> (\<exists>c x. party_at c (P_Enter x) (putters s)))"
proof -
  have q: "0 \<le> maxSize" "q = rg_make r (nat maxSize)"
    using assms(2) by (simp_all add: new_BoundedBlockingQueue_def split: if_splits)
  note ring = ring_okD [OF assms(1)]
  have new: "ring_ok r items \<and> rg_capacity r q = nat maxSize" "items q = []" using assms(1) q(2) ring(1,2) by simp_all
  have "bounded.mq_inv items (nat maxSize) r s" by (rule bounded.reach_keeps [OF new assms(3)])
  then have "rg_capacity r (mq_queue s) = nat maxSize" by (simp add: bounded.mq_inv_def)
  then show ?thesis
    using bounded.delivers [OF new assms(3)] q(1) ring(3) [of "mq_queue s"] ring(6) [of "mq_queue s"]
    by (auto simp: bb_size_def bb_capacity_def bb_empty_def bb_full_def bounded_ops_def)
qed

section \<open>Samples\<close>

definition list_ring :: "(nat, nat list \<times> nat) ring" where
  "list_ring = \<lparr>rg_make = (\<lambda>n. ([], n)), rg_full = (\<lambda>(xs, n). n \<le> length xs), rg_empty = (\<lambda>(xs, n). n = 0 \<or> xs = []),
     rg_size = (\<lambda>(xs, n). min (length xs) n), rg_capacity = snd, rg_front = (\<lambda>(xs, n). hd xs),
     rg_push_back = (\<lambda>x (xs, n). (xs @ [x], n)), rg_pop_front = (\<lambda>(xs, n). (tl (take n xs), n))\<rparr>"

definition list_items :: "nat list \<times> nat \<Rightarrow> nat list" where
  "list_items = (\<lambda>(xs, n). take n xs)"

lemma list_ring_ok: "ring_ok list_ring list_items"
proof -
  have "take n xs = hd xs # tl (take n xs)" if "n \<noteq> 0" "xs \<noteq> []" for n and xs :: "nat list"
    using that by (cases n; cases xs) simp_all
  moreover have "take n (tl (take n xs)) = tl (take n xs)" for n and xs :: "nat list" by simp
  ultimately show ?thesis
    by (auto simp: ring_ok_def list_ring_def list_items_def min_def)
qed

definition sample_buffer_system :: "(nat, nat list \<times> nat) mq_system" where
  "sample_buffer_system = \<lparr>mq_queue = ([], 1), takers = [P_Outside], putters = [P_Outside, P_Outside], put_log = [], taken_log = []\<rparr>"

definition sample_full_system :: "(nat, nat list \<times> nat) mq_system" where
  "sample_full_system = sample_buffer_system\<lparr>mq_queue := ([5], 1), put_log := [5], putters := [P_Outside, P_Waiting 6]\<rparr>"

text \<open>Thread 0 puts 5; thread 1 finds the buffer full and sleeps.\<close>

lemma sample_full_reach: "mq_reach (bounded_ops list_ring) ([], 1) sample_full_system"
proof -
  let ?r = "mq_reach (bounded_ops list_ring) ([], 1)" and ?s = sample_buffer_system
  have full: "rg_full list_ring (xs, n) = (n \<le> length xs)" for xs n by (simp add: list_ring_def)
  have 0: "?r ?s" by (rule Begun) (simp add: mq_started_def sample_buffer_system_def)
  have 1: "?r (?s\<lparr>putters := [P_Enter 5, P_Outside]\<rparr>)"
    using Onward [OF 0 Put_Call [of 0 _ _ 5]] by (simp add: party_at_def sample_buffer_system_def)
  have 2: "?r (?s\<lparr>mq_queue := ([5], 1), put_log := [5]\<rparr>)"
    by (rule Onward [OF 1 Put [of 0 5 _ _ 0]])
      (simp_all add: party_at_def party_chosen_def sample_buffer_system_def bounded_ops_def put_section_def bb_put_def full,
       simp add: list_ring_def notify_party_def)
  have 3: "?r (?s\<lparr>mq_queue := ([5], 1), put_log := [5], putters := [P_Outside, P_Enter 6]\<rparr>)"
    using Onward [OF 2 Put_Call [of 1 _ _ 6]] by (simp add: party_at_def sample_buffer_system_def)
  show ?thesis
    using Onward [OF 3 Put_Wait [of 1 6]] by (simp add: party_at_def sample_buffer_system_def sample_full_system_def bounded_ops_def full)
qed

lemma sample_full_delivers:
  "\<not> mq_fails (bounded_ops list_ring) sample_full_system \<and> bb_size list_ring (mq_queue sample_full_system) = 1 \<and>
   list_ex asleep (putters sample_full_system)"
proof -
  have "new_BoundedBlockingQueue list_ring 1 = Inr ([], 1)" by (simp add: new_BoundedBlockingQueue_def list_ring_def)
  from bounded_queue_delivers [OF list_ring_ok this sample_full_reach] show ?thesis
    by (simp add: sample_full_system_def bb_size_def list_ring_def)
qed

end
