(* ===== verification/Spec2Isabelle.thy ===== *)
theory Spec2Isabelle
  imports Buffer StringPiece Endian Timestamp LoopThreads TimerQueue ConnectionRuns Connector ThreadPool LoopPool Server Client LoopRuns ServerRuns Latch ThreadLocals Exceptions BlockingQueues
begin

text \<open>
  A verification library for OugeNetLib, a C++ network library in the reactor style: an event loop
  for each thread, non-blocking sockets, and connections that call the user back.

  The program and its theories, in the order of their dependencies.  State is a record that each
  component extends by its members (poller, loop, timers, connection, as the objects hold one
  another), a method is a function on the state, a C++ reference or pointer to a channel or timer is
  an address into a map of the state, and what a method returns or fails with is a value of
  \<open>fault + 'a\<close> (\<open>Prelude\<close>): \<open>Inl\<close> is a failed \<open>assert\<close>, a use after free, a throw; the
  \<open>assert\<close>s are those of a build without \<open>NDEBUG\<close>.  \<open>barring E P m\<close> says that \<open>m\<close> gives a result in
  \<open>P\<close> or fails with a fault in \<open>E\<close>.  A callback or functor is a value of a datatype with one
  constructor for each \<open>bind\<close> of the code, and a function runs it; the user's code is a parameter.
  The kernel, the clock and the allocator are parameters or lists of answers to come.

  \<^item> \<open>base/StringPiece.h\<close>: \<open>StringPiece\<close>.  The comparisons are one lexicographic order.
  \<^item> \<open>net/Endian.h\<close>: \<open>Endian\<close>, for hosts of either byte order.
  \<^item> \<open>net/Buffer.h\<close>, \<open>net/Buffer.cc\<close>: \<open>Buffer\<close>, with 64-bit indices.  The buffer refines a byte queue
    (locale \<open>byte_queue\<close>, interpreted by the operations of the class); \<open>makeSpace\<close>, integers in network
    byte order, \<open>readFd\<close> and the searches for line ends have lemmas of their own.
  \<^item> \<open>base/Timestamp.h\<close>, \<open>base/Timestamp.cc\<close>: \<open>Timestamp\<close>, on the decimal printing of \<open>Format\<close>.  A
    \<open>double\<close> is its significand and exponent.
  \<^item> \<open>net/Channel.h\<close>, \<open>net/Channel.cc\<close> and \<open>base/WeakCallback.h\<close>: \<open>Channel\<close>, the callbacks of a
    descriptor and the order in which an event calls them.
  \<^item> \<open>net/Poller.*\<close>, \<open>net/EPollPoller.*\<close>: \<open>EPollPoller\<close>.  The calls of \<open>epoll_ctl\<close> are logged, and the
    invariant \<open>poller_ok\<close> has the log replayed by what the manual promises of it.
  \<^item> \<open>net/EventLoop.*\<close>: \<open>EventLoop\<close>; owners that keep the protocol of channels refine an abstract map of
    interests (locale \<open>exact_refinement\<close> of \<open>Prelude\<close>).  \<open>LoopThreads\<close> interleaves the loop with threads
    that queue functors and quit; \<open>batch_steps\<close> and \<open>round_steps\<close> show that \<open>doPendingFunctors\<close> and a round
    of \<open>loop()\<close>, as \<open>EventLoop\<close> has them, are runs of that system.  \<open>ThreadLocals\<close> has \<open>t_loopInThisThread\<close>.
  \<^item> \<open>net/Timer*\<close>: \<open>TimerQueue\<close>, with the invariant \<open>tq_ok\<close> of the two sets and the heap of timers;
    \<open>addTimer\<close> has as a parameter what the loop's thread does between its two accesses to the timer.
    Destructors run their members' destructors too and list the descriptors they close; on an idle
    loop they succeed and leave no timer (\<open>delete_EventLoop_ok\<close>).
  \<^item> \<open>net/TcpConnection.*\<close>: \<open>TcpConnection\<close>, its invariant \<open>conn_ok\<close> and what each operation makes of
    it; \<open>ConnectionFrame\<close>, what a connection leaves alone; \<open>ConnectionRuns\<close>, every order of events
    (the relation \<open>advances\<close> from a state to a later one); \<open>LoopChannels\<close>, the channels of a loop
    with a connection, its own for wakeups and the timer queue's; and \<open>LoopRuns\<close>, connection and
    timers under \<open>EventLoop::loop\<close> with its poller (the relation \<open>proceeds\<close>, which lets the timers change).
  \<^item> \<open>net/InetAddress.*\<close> and the addresses of \<open>net/SocketsOps.*\<close>: \<open>InetAddress\<close>; \<open>net/Socket.*\<close> and the
    system calls of \<open>net/SocketsOps.cc\<close>: \<open>Sockets\<close>, with \<open>errno\<close> and what is printed.  The acceptor of
    \<open>Server\<close> tests the \<open>errno\<close> that \<open>sockets::accept\<close> and its own print leave (\<open>ac_noise\<close>).
  \<^item> \<open>net/Connector.*\<close>: \<open>Connector\<close>; \<open>net/TcpClient.*\<close>: \<open>Client\<close>, on top of it.
  \<^item> \<open>net/EventLoopThread.*\<close>, \<open>net/EventLoopThreadPool.*\<close>: \<open>LoopPool\<close>; \<open>net/Acceptor.*\<close>,
    \<open>net/TcpServer.*\<close>: \<open>Server\<close>; \<open>ServerRuns\<close> joins the server and
    its connections, and shows that it calls them only when they are ready for it.
  \<^item> \<open>base/ThreadPool.*\<close>: \<open>ThreadPool\<close>; \<open>base/BlockingQueue.h\<close>, \<open>base/BoundedBlockingQueue.h\<close>:
    \<open>BlockingQueues\<close>, their critical sections; \<open>base/CountDownLatch.h\<close>: \<open>Latch\<close>;
    \<open>base/ThreadLocalSingleton.h\<close>: \<open>ThreadLocals\<close>; \<open>base/Exception.*\<close>: \<open>Exceptions\<close>.

  How the components interact.  A channel asks its loop to change its interest, the loop its poller;
  the poller fills the list of active channels, and the loop dispatches them and then calls the
  functors other threads queued, who write to the wakeup descriptor.  The timer queue, the acceptor,
  the connector and the connections each own a channel.  The server hands a new connection to a
  loop of its pool and keeps it in a map until its close callback; the client does so with the one
  connection of its connector.

  What the lemmas show.  Each component has an invariant (\<open>buf_inv\<close>, \<open>poller_ok\<close>, \<open>loop_ok\<close>,
  \<open>tq_ok\<close>, \<open>conn_ok\<close>, \<open>cn_ok\<close>, \<open>cl_ok\<close>, \<open>sv_ok\<close>, \<open>pool_ok\<close>, \<open>sys_inv\<close>, \<open>latch_inv\<close>, \<open>tl_ok\<close>) that every
  operation keeps, and lemmas \<open>..._ok\<close> or \<open>..._spec\<close> on what each operation gives.  Runs of events are
  \<open>foldr_res\<close> of a step.  Where an event may come at a time at which the code fails an assertion, nothing
  is skipped: \<open>..._promised\<close> is what the kernel and the owner promise, \<open>..._fault\<close> is the assertion an
  event fails in a state, and the locale \<open>accountable\<close> of \<open>Prelude\<close> shows that a run under the promises
  fails at such an event and at no other, and that each such event does fail; it is interpreted for
  connections, connectors, clients and the connector a destroyed client leaves behind.  Runs
  of a step that skips the events that come at the wrong time (\<open>admissible\<close>, \<open>serve_admissible\<close>,
  \<open>sv_admissible\<close>, \<open>sr_admissible\<close>) are left where the property is another one: what the callbacks are
  told, where the bytes go, what the server's map holds.  \<open>ServerRuns\<close> skips none of what the server
  asks of its connections.  The locale \<open>service\<close> of \<open>Prelude\<close> carries an invariant over a run.  Threads are inductive step relations, and
  their invariants are proved by induction over the reachable states; \<open>worked\<close> of \<open>ThreadPool\<close> counts the
  steps of one worker among those of all.  The properties are numbered C1, C2, ...;
  each one with hypotheses has an instance, named \<open>..._witness\<close>.

  Bounds.  Nothing is bounded for the sake of the proofs, and no definition has fuel.  Recursion is
  structural but in \<open>dec_nat\<close>; \<open>loop_while\<close> recurses on the kernel's answers, one for each round, so
  that \<open>loop()\<close> either returns or waits for the next.  Hypotheses bound sizes where the code itself
  has a limit: the size of a vector, 2 to the 31 connections of one server, times that fit 64 bits.

  Not modelled.
  \<^item> \<open>wait\<close> with a \<open>bool\<close>, in the two blocking queues: it does not compile, so it has no meaning to model.
    The lemmas on threads in \<open>BlockingQueues\<close> are about the queues with \<open>wait\<close> repaired (locale \<open>monitored\<close>)
    and claim nothing of the code.  \<open>boost::circular_buffer\<close> is a parameter.
  \<^item> \<open>PollPoller\<close>, which \<open>Poller::newDefaultPoller\<close> can choose: it is not in the repository.
  \<^item> \<open>base/Copyable.h\<close>, \<open>base/Types.h\<close>, \<open>net/Callbacks.h\<close>, \<open>base/test.cc\<close>: declarations.
  \<^item> Text printed to the standard streams (but in \<open>Sockets\<close>), signals, and the data race that
    unsynchronised reads of \<open>quit_\<close> or of a connection's state are in C++: steps are atomic.
  \<^item> Timers that the callbacks of a connection or another timer add or cancel: \<open>TimerQueue\<close> has them,
    but in \<open>LoopRuns\<close> requests come between the rounds of the loop, from its thread.
  \<^item> A connection's \<open>stopRead\<close> is defined, but runs of connections exclude it, because it breaks the
    close (a property shows how).
\<close>

end
